(* ===== verification/Chan_Prelude.thy ===== *)
theory Chan_Prelude
  imports Main "HOL-Library.Word"
begin

text \<open>
  Shared vocabulary of the libchan development: the machine types of the C sources
  (\<open>uint32_t\<close>, \<open>size_t\<close>, bytes), \<open>memcpy\<close> on byte arrays, and the generic
  facts about modular cursors, byte chunks and functional updates that the component
  theories use. The collection \<open>cursor_simps\<close> turns arithmetic on 32-bit
  cursors into arithmetic on natural numbers.
\<close>

unbundle bit_operations_syntax

section \<open>Machine types\<close>

type_synonym byte = "8 word"
type_synonym u32 = "32 word"
type_synonym u64 = "64 word"

named_theorems cursor_simps "arithmetic of free-running 32-bit cursors"

section \<open>Byte copies\<close>

text \<open>
  \<open>memcpy (dst + off) src (length src)\<close> on a byte array, and the read of \<open>n\<close>
  bytes at an offset. Both are total; \<open>off + n \<le> length\<close> is the bounds condition under
  which they are the C operation, and every use below is proved to be within bounds.
\<close>

definition memcpy :: "byte list \<Rightarrow> nat \<Rightarrow> byte list \<Rightarrow> byte list" where
  "memcpy dst off src = take off dst @ src @ drop (off + length src) dst"

definition memread :: "byte list \<Rightarrow> nat \<Rightarrow> nat \<Rightarrow> byte list" where
  "memread src off n = take n (drop off src)"

lemma length_memcpy [simp]:
  "off + length src \<le> length dst \<Longrightarrow> length (memcpy dst off src) = length dst"
  by (simp add: memcpy_def)

lemma length_memread [simp]: "length (memread src off n) = min (length src - off) n"
  by (simp add: memread_def)

lemma memread_0 [simp]: "memread src off 0 = []"
  by (simp add: memread_def)

lemma memcpy_Nil [simp]: "memcpy dst off [] = dst"
  by (simp add: memcpy_def)

lemma nth_memcpy:
  assumes "off + length src \<le> length dst" "i < length dst"
  shows "memcpy dst off src ! i =
    (if off \<le> i \<and> i < off + length src then src ! (i - off) else dst ! i)"
  using assms by (auto simp: memcpy_def nth_append min_def)

lemma nth_memread: "off + n \<le> length src \<Longrightarrow> i < n \<Longrightarrow> memread src off n ! i = src ! (off + i)"
  by (simp add: memread_def)

lemma memread_memcpy_same:
  assumes "off + length src \<le> length dst" "a + n \<le> length src"
  shows "memread (memcpy dst off src) (off + a) n = memread src a n"
  using assms by (intro nth_equalityI) (auto simp: nth_memread nth_memcpy)

lemma memread_memcpy_disjoint:
  assumes "off + length src \<le> length dst" "a + n \<le> length dst"
    and "a + n \<le> off \<or> off + length src \<le> a"
  shows "memread (memcpy dst off src) a n = memread dst a n"
  using assms by (intro nth_equalityI) (auto simp: nth_memread nth_memcpy)

lemma memread_all: "length src = n \<Longrightarrow> memread src 0 n = src"
  by (simp add: memread_def)

lemma memread_memread:
  "a + n \<le> m \<Longrightarrow> off + m \<le> length src \<Longrightarrow> memread (memread src off m) a n = memread src (off + a) n"
  by (intro nth_equalityI) (auto simp: nth_memread add.assoc)

lemma memread_append1: "a + n \<le> length xs \<Longrightarrow> memread (xs @ ys) a n = memread xs a n"
  by (simp add: memread_def)

lemma memread_append2: "length xs \<le> a \<Longrightarrow> memread (xs @ ys) a n = memread ys (a - length xs) n"
  by (simp add: memread_def)

section \<open>Chunks: an array of fixed-size elements\<close>

text \<open>The elements \<open>0, \<dots>, n - 1\<close> of a byte array that holds \<open>es\<close>-byte elements.\<close>

definition chunks :: "nat \<Rightarrow> nat \<Rightarrow> byte list \<Rightarrow> byte list list" where
  "chunks es n bs = map (\<lambda>i. memread bs (i * es) es) [0..<n]"

lemma length_chunks [simp]: "length (chunks es n bs) = n"
  by (simp add: chunks_def)

lemma nth_chunks [simp]: "i < n \<Longrightarrow> chunks es n bs ! i = memread bs (i * es) es"
  by (simp add: chunks_def)

lemma chunk_bound: "i < n \<Longrightarrow> i * es + es \<le> n * (es :: nat)"
  by (metis Suc_leI add.commute mult_Suc mult_le_mono1)

lemma chunk_disjoint: "i \<noteq> j \<Longrightarrow> i * es + es \<le> j * es \<or> j * es + es \<le> i * (es :: nat)"
  by (metis chunk_bound linorder_neqE_nat)

section \<open>Free-running cursors\<close>

text \<open>
  The ring's cursors are 32-bit counters that are never reset. Two counters \<open>of_nat n\<close>
  and \<open>of_nat m\<close> with \<open>m \<le> n\<close> have the unsigned difference \<open>n - m\<close>, whatever
  the wrap-around, as long as the true distance is below \<open>2 ^ 32\<close>.
\<close>

lemma of_nat_diff_u32 [cursor_simps]:
  "m \<le> n \<Longrightarrow> n - m < 2 ^ 32 \<Longrightarrow> unat (of_nat n - of_nat m :: u32) = n - m"
proof -
  assume "m \<le> n" and d: "n - m < 2 ^ 32"
  then have "(of_nat n - of_nat m :: u32) = of_nat (n - m)" by simp
  moreover have "unat (of_nat (n - m) :: u32) = n - m"
    using d by (simp add: unsigned_of_nat take_bit_nat_eq_self)
  ultimately show ?thesis by simp
qed

lemma of_nat_eq_u32 [cursor_simps]:
  assumes "m \<le> n" "n - m < 2 ^ 32"
  shows "(of_nat n = (of_nat m :: u32)) \<longleftrightarrow> n = m"
proof
  assume "of_nat n = (of_nat m :: u32)"
  then have "unat (of_nat n - of_nat m :: u32) = 0" by simp
  with of_nat_diff_u32 [OF assms] assms show "n = m" by simp
qed simp

lemma of_nat_eq_u32' [cursor_simps]:
  assumes "m \<le> n" "n - m < 2 ^ 32"
  shows "(of_nat m = (of_nat n :: u32)) \<longleftrightarrow> n = m"
  using of_nat_eq_u32 [OF assms] by auto

text \<open>\<open>idx & mask\<close> with \<open>mask = capacity - 1\<close> is the remainder by a power of two.\<close>

lemma and_mask_mod:
  fixes x :: "'a :: len word"
  shows "unat (x AND (2 ^ k - 1)) = unat x mod 2 ^ k"
proof -
  have "x AND (2 ^ k - 1) = take_bit k x"
    by (simp only: take_bit_eq_mask mask_eq_exp_minus_1)
  then have "unat (x AND (2 ^ k - 1)) = take_bit k (unat x)"
    by (simp only: unsigned_take_bit_eq)
  then show ?thesis
    by (simp only: take_bit_eq_mod)
qed

lemma unat_of_nat_mod_pow2:
  assumes "k \<le> LENGTH('a)"
  shows "unat (of_nat n :: 'a :: len word) mod 2 ^ k = n mod 2 ^ k"
  using assms by (simp add: unsigned_of_nat take_bit_eq_mod le_imp_power_dvd mod_mod_cancel)

lemma unat_pow2: "k < LENGTH('a) \<Longrightarrow> unat (2 ^ k :: 'a :: len word) = 2 ^ k"
  by (metis unsigned_of_nat of_nat_numeral of_nat_power take_bit_nat_eq_self power_strict_increasing_iff one_less_numeral_iff semiring_norm(76))

text \<open>Residues of a window no wider than the modulus are distinct.\<close>

lemma mod_window_inj:
  fixes a b c :: nat
  assumes "a mod c = b mod c" "a < b + c" "b < a + c"
  shows "a = b"
proof (rule ccontr)
  assume ne: "a \<noteq> b"
  { fix x y :: nat assume xy: "x mod c = y mod c" "x < y" "y < x + c"
    then have "c dvd y - x" by (metis mod_eq_dvd_iff_nat less_imp_le_nat)
    with xy have False by (auto dest!: dvd_imp_le) }
  with assms ne show False by (metis linorder_neqE_nat)
qed

end
