(* ===== verification/Ring_Lf.thy ===== *)
theory Ring_Lf
  imports Chan_Prelude
begin

text \<open>
  The ring buffer of \<open>src/ring_lf.c\<close> and \<open>src/ring_lf.h\<close>, and the
  cursor-cached single-producer/single-consumer variants of
  \<open>src/libchan_internal.h\<close>, run by one thread without interference (the interleavings
  are in \<open>Ring_Conc\<close>). Cursors are 32-bit words, \<open>slots\<close> is the byte array the code
  allocates. A Phase-3 wait that no other thread will end is the value \<open>None\<close>.
\<close>

section \<open>Data\<close>

record chan_ring_lf =
  prod_head :: u32
  prod_tail :: u32
  cached_cons_tail :: u32
  cons_head :: u32
  cons_tail :: u32
  cached_prod_tail :: u32
  ring_mask :: u32
  ring_capacity :: u32
  ring_elem_size :: u64
  slots :: "byte list"

section \<open>Operations\<close>

definition next_pow2 :: "u32 \<Rightarrow> u32" where
  "next_pow2 n =
     (if n = 0 then 1
      else
        (let n0 = n - 1;
             n1 = n0 OR drop_bit 1 n0;
             n2 = n1 OR drop_bit 2 n1;
             n3 = n2 OR drop_bit 4 n2;
             n4 = n3 OR drop_bit 8 n3;
             n5 = n4 OR drop_bit 16 n4
         in n5 + 1))"

text \<open>
  \<open>malloc\<close> is a parameter: \<open>None\<close> for a null result, otherwise the bytes of the new
  object. The requested size is the 64-bit product, as in the code.
\<close>

definition ring_lf_init :: "(u64 \<Rightarrow> byte list option) \<Rightarrow> u64 \<Rightarrow> u64 \<Rightarrow> chan_ring_lf option" where
  "ring_lf_init malloc cap elem_size =
     (if cap = 0 \<or> elem_size = 0 then None
      else
        (let actual = next_pow2 (ucast cap)
         in case malloc (ucast actual * elem_size) of
              None \<Rightarrow> None
            | Some mem \<Rightarrow>
                Some \<lparr>prod_head = 0, prod_tail = 0, cached_cons_tail = 0,
                      cons_head = 0, cons_tail = 0, cached_prod_tail = 0,
                      ring_mask = actual - 1, ring_capacity = actual,
                      ring_elem_size = elem_size, slots = mem\<rparr>))"

text \<open>\<open>(idx & r->mask) * r->elem_size\<close>, computed in \<open>size_t\<close>.\<close>

definition slot_offset :: "chan_ring_lf \<Rightarrow> u32 \<Rightarrow> nat" where
  "slot_offset r idx = unat (ucast (idx AND ring_mask r) * ring_elem_size r)"

definition slot_write :: "chan_ring_lf \<Rightarrow> u32 \<Rightarrow> byte list \<Rightarrow> chan_ring_lf" where
  "slot_write r idx data =
     r\<lparr>slots := memcpy (slots r) (slot_offset r idx)
                  (memread data 0 (unat (ring_elem_size r)))\<rparr>"

definition slot_read :: "chan_ring_lf \<Rightarrow> u32 \<Rightarrow> byte list" where
  "slot_read r idx = memread (slots r) (slot_offset r idx) (unat (ring_elem_size r))"

definition ring_lf_push :: "chan_ring_lf \<Rightarrow> byte list \<Rightarrow> (bool \<times> chan_ring_lf) option" where
  "ring_lf_push r data =
     (let ph = prod_head r; ct = cons_tail r
      in if ring_capacity r \<le> ph - ct then Some (False, r)
         else
           (let pnext = ph + 1;
                r1 = r\<lparr>prod_head := pnext\<rparr>;
                r2 = slot_write r1 ph data
            in if prod_tail r2 \<noteq> ph then None
               else Some (True, r2\<lparr>prod_tail := pnext\<rparr>)))"

definition ring_lf_pop :: "chan_ring_lf \<Rightarrow> (byte list option \<times> chan_ring_lf) option" where
  "ring_lf_pop r =
     (let ch = cons_head r; pt = prod_tail r
      in if pt = ch then Some (None, r)
         else
           (let cnext = ch + 1;
                r1 = r\<lparr>cons_head := cnext\<rparr>;
                out = slot_read r1 ch
            in if cons_tail r1 \<noteq> ch then None
               else Some (Some out, r1\<lparr>cons_tail := cnext\<rparr>)))"

text \<open>
  Phase 2 of the bulk operations: the reserved run of \<open>k\<close> slots starts at \<open>idx\<close> and is
  split in two copies where it passes the end of the array.
\<close>

definition run_write :: "chan_ring_lf \<Rightarrow> u32 \<Rightarrow> u32 \<Rightarrow> byte list \<Rightarrow> chan_ring_lf" where
  "run_write r ph k data =
     (let idx = ph AND ring_mask r;
          first = ring_capacity r - idx;
          es = ring_elem_size r
      in if k \<le> first
         then r\<lparr>slots := memcpy (slots r) (unat (ucast idx * es))
                           (memread data 0 (unat (ucast k * es)))\<rparr>
         else r\<lparr>slots := memcpy
                           (memcpy (slots r) (unat (ucast idx * es))
                              (memread data 0 (unat (ucast first * es))))
                           0
                           (memread data (unat (ucast first * es))
                              (unat (ucast (k - first) * es)))\<rparr>)"

definition run_read :: "chan_ring_lf \<Rightarrow> u32 \<Rightarrow> u32 \<Rightarrow> byte list" where
  "run_read r ch k =
     (let idx = ch AND ring_mask r;
          first = ring_capacity r - idx;
          es = ring_elem_size r
      in if k \<le> first
         then memread (slots r) (unat (ucast idx * es)) (unat (ucast k * es))
         else memread (slots r) (unat (ucast idx * es)) (unat (ucast first * es))
              @ memread (slots r) 0 (unat (ucast (k - first) * es)))"

definition ring_lf_enqueue_burst ::
    "chan_ring_lf \<Rightarrow> byte list \<Rightarrow> u32 \<Rightarrow> (u32 \<times> chan_ring_lf) option" where
  "ring_lf_enqueue_burst r data n =
     (if n = 0 then Some (0, r)
      else
        (let ph = prod_head r; ct = cons_tail r;
             free_entries = ring_capacity r - (ph - ct)
         in if free_entries = 0 then Some (0, r)
            else
              (let k = (if n < free_entries then n else free_entries);
                   pnext = ph + k;
                   r1 = r\<lparr>prod_head := pnext\<rparr>;
                   r2 = run_write r1 ph k data
               in if prod_tail r2 \<noteq> ph then None
                  else Some (k, r2\<lparr>prod_tail := pnext\<rparr>))))"

definition ring_lf_dequeue_burst ::
    "chan_ring_lf \<Rightarrow> u32 \<Rightarrow> (u32 \<times> byte list \<times> chan_ring_lf) option" where
  "ring_lf_dequeue_burst r n =
     (if n = 0 then Some (0, [], r)
      else
        (let ch = cons_head r; pt = prod_tail r;
             avail = pt - ch
         in if avail = 0 then Some (0, [], r)
            else
              (let k = (if n < avail then n else avail);
                   cnext = ch + k;
                   r1 = r\<lparr>cons_head := cnext\<rparr>;
                   out = run_read r1 ch k
               in if cons_tail r1 \<noteq> ch then None
                  else Some (k, out, r1\<lparr>cons_tail := cnext\<rparr>))))"

definition ring_lf_count :: "chan_ring_lf \<Rightarrow> u32" where
  "ring_lf_count r = prod_tail r - cons_head r"

definition ring_full :: "chan_ring_lf \<Rightarrow> bool" where
  "ring_full r = (ring_capacity r \<le> prod_head r - cons_tail r)"

definition ring_empty :: "chan_ring_lf \<Rightarrow> bool" where
  "ring_empty r = (prod_tail r = cons_head r)"

text \<open>The cursor-cached variants for one producer and one consumer thread.\<close>

definition ring_spsc_push :: "chan_ring_lf \<Rightarrow> byte list \<Rightarrow> bool \<times> chan_ring_lf" where
  "ring_spsc_push r data =
     (let ph = prod_head r;
          r1 = (if ring_capacity r \<le> ph - cached_cons_tail r
                then r\<lparr>cached_cons_tail := cons_tail r\<rparr> else r)
      in if ring_capacity r \<le> ph - cached_cons_tail r \<and>
            ring_capacity r1 \<le> ph - cached_cons_tail r1
         then (False, r1)
         else (True, (slot_write r1 ph data)\<lparr>prod_tail := ph + 1, prod_head := ph + 1\<rparr>))"

definition ring_spsc_pop :: "chan_ring_lf \<Rightarrow> byte list option \<times> chan_ring_lf" where
  "ring_spsc_pop r =
     (let ch = cons_head r;
          r1 = (if 0 \<le> sint (ch - cached_prod_tail r)
                then r\<lparr>cached_prod_tail := prod_tail r\<rparr> else r)
      in if 0 \<le> sint (ch - cached_prod_tail r) \<and>
            0 \<le> sint (ch - cached_prod_tail r1)
         then (None, r1)
         else (Some (slot_read r1 ch), r1\<lparr>cons_tail := ch + 1, cons_head := ch + 1\<rparr>))"

section \<open>The representation invariant and the abstract queue\<close>

definition rcap :: "chan_ring_lf \<Rightarrow> nat" where
  "rcap r = unat (ring_capacity r)"

definition resz :: "chan_ring_lf \<Rightarrow> nat" where
  "resz r = unat (ring_elem_size r)"

text \<open>What \<open>ring_lf_init\<close> establishes and no operation changes.\<close>

definition ring_shape :: "chan_ring_lf \<Rightarrow> bool" where
  "ring_shape r \<longleftrightarrow>
     (\<exists>k \<in> set [0..<32]. ring_capacity r = 2 ^ k) \<and> ring_mask r = ring_capacity r - 1 \<and>
     0 < resz r \<and> rcap r * resz r < 2 ^ 64 \<and> length (slots r) = rcap r * resz r"

text \<open>The element with ticket \<open>i\<close>: tickets count elements since the start, slots repeat.\<close>

definition ring_slot :: "chan_ring_lf \<Rightarrow> nat \<Rightarrow> byte list" where
  "ring_slot r i = memread (slots r) (i mod rcap r * resz r) (resz r)"

definition ring_items :: "chan_ring_lf \<Rightarrow> byte list list" where
  "ring_items r =
     map (\<lambda>i. ring_slot r (unat (cons_head r) + i)) [0..<unat (prod_tail r - cons_head r)]"

text \<open>A ring that no operation is in the middle of.\<close>

definition ring_ok :: "chan_ring_lf \<Rightarrow> bool" where
  "ring_ok r \<longleftrightarrow>
     ring_shape r \<and> prod_head r = prod_tail r \<and> cons_head r = cons_tail r \<and>
     unat (prod_tail r - cons_head r) \<le> rcap r"


section \<open>Tickets\<close>

text \<open>
  \<open>ring_at r m n\<close>: \<open>n\<close> elements were ever enqueued and \<open>m\<close> dequeued, and the four
  cursors are these counts modulo \<open>2 ^ 32\<close>. All arithmetic of the proofs is on tickets.
\<close>

definition ring_at :: "chan_ring_lf \<Rightarrow> nat \<Rightarrow> nat \<Rightarrow> bool" where
  "ring_at r m n \<longleftrightarrow>
     ring_shape r \<and> prod_head r = of_nat n \<and> prod_tail r = of_nat n \<and>
     cons_head r = of_nat m \<and> cons_tail r = of_nat m \<and> m \<le> n \<and> n \<le> m + rcap r"

lemma ring_shapeE:
  assumes "ring_shape r"
  obtains k where "k < 32" "ring_capacity r = 2 ^ k" "rcap r = 2 ^ k"
    "ring_mask r = 2 ^ k - 1" "0 < resz r" "rcap r * resz r < 2 ^ 64"
    "length (slots r) = rcap r * resz r"
  using assms by (auto simp: ring_shape_def rcap_def unat_pow2)

lemma ring_shape_cap:
  assumes "ring_shape r"
  shows "0 < rcap r" "rcap r \<le> 2 ^ 31" "rcap r < 2 ^ 32"
proof -
  from assms obtain k where k: "k < 32" "rcap r = 2 ^ k" by (rule ring_shapeE)
  show "0 < rcap r" by (simp add: k)
  have "(2::nat) ^ k \<le> 2 ^ 31" using k by (intro power_increasing) auto
  then show "rcap r \<le> 2 ^ 31" "rcap r < 2 ^ 32" by (simp_all add: k)
qed

lemma ring_shape_cong:
  "ring_capacity r' = ring_capacity r \<Longrightarrow> ring_mask r' = ring_mask r \<Longrightarrow>
   ring_elem_size r' = ring_elem_size r \<Longrightarrow> length (slots r') = length (slots r) \<Longrightarrow>
   ring_shape r' = ring_shape r"
  by (simp add: ring_shape_def rcap_def resz_def)

lemma ring_slot_cong:
  "ring_capacity r' = ring_capacity r \<Longrightarrow> ring_elem_size r' = ring_elem_size r \<Longrightarrow>
   slots r' = slots r \<Longrightarrow> ring_slot r' = ring_slot r"
  by (simp add: ring_slot_def rcap_def resz_def fun_eq_iff)

lemma ring_slot_mod: "i mod rcap r = j mod rcap r \<Longrightarrow> ring_slot r i = ring_slot r j"
  by (simp add: ring_slot_def)

lemma mask_index:
  assumes "ring_shape r"
  shows "unat (of_nat i AND ring_mask r) = i mod rcap r"
proof -
  from assms obtain k where k: "k < 32" "rcap r = 2 ^ k" "ring_mask r = 2 ^ k - 1"
    by (rule ring_shapeE)
  then show ?thesis by (simp add: and_mask_mod unat_of_nat_mod_pow2)
qed

lemma size_product:
  assumes "ring_shape r" "unat x \<le> rcap r"
  shows "unat (ucast (x :: u32) * ring_elem_size r) = unat x * resz r"
proof -
  from assms(1) have lt: "rcap r * resz r < 2 ^ 64" by (rule ring_shapeE)
  have "unat x * resz r \<le> rcap r * resz r" using assms(2) by (rule mult_le_mono1)
  with lt have "unat x * resz r < 2 ^ 64" by linarith
  then show ?thesis
    by (simp add: resz_def unat_word_ariths unsigned_ucast_eq take_bit_eq_mod unsigned_less
        mod_less [OF less_trans [OF unsigned_less]])
qed

lemma slot_offset_ticket:
  assumes "ring_shape r"
  shows "slot_offset r (of_nat i) = i mod rcap r * resz r"
proof -
  have "i mod rcap r \<le> rcap r"
    using ring_shape_cap(1) [OF assms] by (simp add: less_imp_le)
  then show ?thesis
    by (simp add: slot_offset_def size_product [OF assms] mask_index [OF assms])
qed

lemma slot_in_bounds:
  assumes "ring_shape r"
  shows "i mod rcap r * resz r + resz r \<le> length (slots r)"
proof -
  have "i mod rcap r < rcap r" using ring_shape_cap(1) [OF assms] by simp
  then have "i mod rcap r * resz r + resz r \<le> rcap r * resz r" by (rule chunk_bound)
  then show ?thesis using assms by (simp add: ring_shape_def)
qed

lemma slot_read_ticket: "ring_shape r \<Longrightarrow> slot_read r (of_nat i) = ring_slot r i"
  by (simp add: slot_read_def slot_offset_ticket ring_slot_def resz_def)

lemma slot_write_fields [simp]:
  "prod_head (slot_write r i d) = prod_head r" "prod_tail (slot_write r i d) = prod_tail r"
  "cons_head (slot_write r i d) = cons_head r" "cons_tail (slot_write r i d) = cons_tail r"
  "cached_cons_tail (slot_write r i d) = cached_cons_tail r"
  "cached_prod_tail (slot_write r i d) = cached_prod_tail r"
  "ring_mask (slot_write r i d) = ring_mask r"
  "ring_capacity (slot_write r i d) = ring_capacity r"
  "ring_elem_size (slot_write r i d) = ring_elem_size r"
  "rcap (slot_write r i d) = rcap r" "resz (slot_write r i d) = resz r"
  by (simp_all add: slot_write_def rcap_def resz_def)

lemma run_write_fields [simp]:
  "prod_head (run_write r i k d) = prod_head r" "prod_tail (run_write r i k d) = prod_tail r"
  "cons_head (run_write r i k d) = cons_head r" "cons_tail (run_write r i k d) = cons_tail r"
  "cached_cons_tail (run_write r i k d) = cached_cons_tail r"
  "cached_prod_tail (run_write r i k d) = cached_prod_tail r"
  "ring_mask (run_write r i k d) = ring_mask r"
  "ring_capacity (run_write r i k d) = ring_capacity r"
  "ring_elem_size (run_write r i k d) = ring_elem_size r"
  "rcap (run_write r i k d) = rcap r" "resz (run_write r i k d) = resz r"
  by (simp_all add: run_write_def rcap_def resz_def Let_def)

lemma cursor_frame [simp]:
  "slot_write (r\<lparr>prod_head := x\<rparr>) i d = (slot_write r i d)\<lparr>prod_head := x\<rparr>"
  "run_write (r\<lparr>prod_head := x\<rparr>) i k d = (run_write r i k d)\<lparr>prod_head := x\<rparr>"
  "slot_write (r\<lparr>cached_cons_tail := x\<rparr>) i d = (slot_write r i d)\<lparr>cached_cons_tail := x\<rparr>"
  "slot_read (r\<lparr>cons_head := x\<rparr>) i = slot_read r i"
  "slot_read (r\<lparr>cached_prod_tail := x\<rparr>) i = slot_read r i"
  "run_read (r\<lparr>cons_head := x\<rparr>) i k = run_read r i k"
  by (simp_all add: slot_write_def run_write_def slot_read_def run_read_def slot_offset_def Let_def)

lemma cursor_update_simps [simp]:
  "rcap (r\<lparr>prod_head := x\<rparr>) = rcap r" "rcap (r\<lparr>prod_tail := x\<rparr>) = rcap r"
  "rcap (r\<lparr>cons_head := x\<rparr>) = rcap r" "rcap (r\<lparr>cons_tail := x\<rparr>) = rcap r"
  "rcap (r\<lparr>cached_cons_tail := x\<rparr>) = rcap r" "rcap (r\<lparr>cached_prod_tail := x\<rparr>) = rcap r"
  "resz (r\<lparr>prod_head := x\<rparr>) = resz r" "resz (r\<lparr>prod_tail := x\<rparr>) = resz r"
  "resz (r\<lparr>cons_head := x\<rparr>) = resz r" "resz (r\<lparr>cons_tail := x\<rparr>) = resz r"
  "resz (r\<lparr>cached_cons_tail := x\<rparr>) = resz r" "resz (r\<lparr>cached_prod_tail := x\<rparr>) = resz r"
  "ring_slot (r\<lparr>prod_head := x\<rparr>) = ring_slot r" "ring_slot (r\<lparr>prod_tail := x\<rparr>) = ring_slot r"
  "ring_slot (r\<lparr>cons_head := x\<rparr>) = ring_slot r" "ring_slot (r\<lparr>cons_tail := x\<rparr>) = ring_slot r"
  "ring_slot (r\<lparr>cached_cons_tail := x\<rparr>) = ring_slot r"
  "ring_slot (r\<lparr>cached_prod_tail := x\<rparr>) = ring_slot r"
  "ring_shape (r\<lparr>prod_head := x\<rparr>) = ring_shape r" "ring_shape (r\<lparr>prod_tail := x\<rparr>) = ring_shape r"
  "ring_shape (r\<lparr>cons_head := x\<rparr>) = ring_shape r" "ring_shape (r\<lparr>cons_tail := x\<rparr>) = ring_shape r"
  "ring_shape (r\<lparr>cached_cons_tail := x\<rparr>) = ring_shape r"
  "ring_shape (r\<lparr>cached_prod_tail := x\<rparr>) = ring_shape r"
  "rcap (r\<lparr>slots := m\<rparr>) = rcap r" "resz (r\<lparr>slots := m\<rparr>) = resz r"
  "ring_slot (r\<lparr>slots := m\<rparr>) i = memread m (i mod rcap r * resz r) (resz r)"
  by (simp_all add: rcap_def resz_def ring_slot_def ring_shape_def fun_eq_iff)

lemma slot_write_ticket:
  assumes "ring_shape r" "resz r \<le> length data"
  shows "ring_shape (slot_write r (of_nat i) data)"
    and "ring_slot (slot_write r (of_nat i) data) j =
      (if j mod rcap r = i mod rcap r then take (resz r) data else ring_slot r j)"
proof -
  let ?d = "memread data 0 (resz r)"
  have w: "slot_write r (of_nat i) data =
      r\<lparr>slots := memcpy (slots r) (i mod rcap r * resz r) ?d\<rparr>"
    by (simp add: slot_write_def slot_offset_ticket [OF assms(1)] resz_def)
  have len: "length ?d = resz r" using assms(2) by simp
  note bi = slot_in_bounds [OF assms(1), of i] and bj = slot_in_bounds [OF assms(1), of j]
  show "ring_shape (slot_write r (of_nat i) data)"
    using assms(1) bi len by (simp add: w ring_shape_def rcap_def resz_def)
  show "ring_slot (slot_write r (of_nat i) data) j =
      (if j mod rcap r = i mod rcap r then take (resz r) data else ring_slot r j)"
  proof (cases "j mod rcap r = i mod rcap r")
    case True
    have "memread (memcpy (slots r) (i mod rcap r * resz r) ?d) (i mod rcap r * resz r + 0) (resz r)
        = memread ?d 0 (resz r)"
      by (rule memread_memcpy_same) (use bi len in simp_all)
    then show ?thesis using True by (simp add: w ring_slot_def rcap_def resz_def memread_def)
  next
    case False
    have "memread (memcpy (slots r) (i mod rcap r * resz r) ?d) (j mod rcap r * resz r) (resz r)
        = memread (slots r) (j mod rcap r * resz r) (resz r)"
      by (rule memread_memcpy_disjoint)
        (use bi bj len chunk_disjoint [OF False, of "resz r"] in auto)
    then show ?thesis using False by (simp add: w ring_slot_def rcap_def resz_def)
  qed
qed

text \<open>The index arithmetic of a run that may pass the end of the array.\<close>

lemma mod_add_window:
  fixes i d c :: nat
  assumes "d < c"
  shows "(i + d) mod c = (if i mod c + d < c then i mod c + d else i mod c + d - c)"
proof -
  have c: "0 < c" using assms by simp
  have "(i + d) mod c = (i mod c + d) mod c" by (simp add: mod_simps)
  moreover have "i mod c < c" using c by simp
  moreover have "i mod c + d < c \<Longrightarrow> (i mod c + d) mod c = i mod c + d" by simp
  moreover have "(i mod c + d) mod c = i mod c + d - c" if "\<not> i mod c + d < c"
  proof -
    have "i mod c + d = (i mod c + d - c) + c" "i mod c + d - c < c"
      using that \<open>i mod c < c\<close> assms by linarith+
    then show ?thesis by (metis mod_add_self2 mod_less)
  qed
  ultimately show ?thesis by simp
qed

lemma run_index:
  assumes "ring_shape r" "unat k \<le> rcap r"
  shows "unat (ring_capacity r - (of_nat i AND ring_mask r)) = rcap r - i mod rcap r"
    and "k \<le> ring_capacity r - (of_nat i AND ring_mask r) \<longleftrightarrow> unat k \<le> rcap r - i mod rcap r"
    and "\<not> k \<le> ring_capacity r - (of_nat i AND ring_mask r) \<Longrightarrow>
      unat (k - (ring_capacity r - (of_nat i AND ring_mask r))) = unat k - (rcap r - i mod rcap r)"
proof -
  let ?idx = "of_nat i AND ring_mask r"
  have "i mod rcap r < rcap r" using ring_shape_cap(1) [OF assms(1)] by simp
  then have "?idx \<le> ring_capacity r"
    by (simp add: word_le_nat_alt mask_index [OF assms(1)] flip: rcap_def)
  then show f: "unat (ring_capacity r - ?idx) = rcap r - i mod rcap r"
    by (simp add: unat_sub mask_index [OF assms(1)] rcap_def)
  then show "k \<le> ring_capacity r - ?idx \<longleftrightarrow> unat k \<le> rcap r - i mod rcap r"
    by (simp add: word_le_nat_alt)
  assume "\<not> k \<le> ring_capacity r - ?idx"
  then show "unat (k - (ring_capacity r - ?idx)) = unat k - (rcap r - i mod rcap r)"
    by (simp add: unat_sub f)
qed

lemma run_rest_size:
  assumes "ring_shape r" "unat k \<le> rcap r" "\<not> unat k \<le> rcap r - i mod rcap r"
  shows "unat (ucast (k - (ring_capacity r - (of_nat i AND ring_mask r))) * ring_elem_size r) =
    (unat k - (rcap r - i mod rcap r)) * resz r"
proof -
  let ?rest = "k - (ring_capacity r - (of_nat i AND ring_mask r))"
  have rest: "unat ?rest = unat k - (rcap r - i mod rcap r)"
    using run_index(2,3) [OF assms(1,2), of i] assms(3) by simp
  then have "unat ?rest \<le> rcap r" using assms(2) by linarith
  from size_product [OF assms(1) this] show ?thesis by (simp only: rest)
qed

text \<open>Both copies of a bulk write, with all sizes as natural numbers.\<close>

definition wrap_copy :: "nat \<Rightarrow> nat \<Rightarrow> nat \<Rightarrow> nat \<Rightarrow> byte list \<Rightarrow> byte list \<Rightarrow> byte list" where
  "wrap_copy c es idx n data mem =
     (if n \<le> c - idx then memcpy mem (idx * es) (memread data 0 (n * es))
      else memcpy (memcpy mem (idx * es) (memread data 0 ((c - idx) * es))) 0
             (memread data ((c - idx) * es) ((n - (c - idx)) * es)))"

lemma run_write_eq:
  assumes "ring_shape r" "unat k \<le> rcap r"
  shows "run_write r (of_nat i) k data =
    r\<lparr>slots := wrap_copy (rcap r) (resz r) (i mod rcap r) (unat k) data (slots r)\<rparr>"
proof -
  note ri = run_index [OF assms, of i]
  have idx: "i mod rcap r \<le> rcap r" using ring_shape_cap(1) [OF assms(1)] by (simp add: less_imp_le)
  show ?thesis
  proof (cases "unat k \<le> rcap r - i mod rcap r")
    case True
    then show ?thesis using idx assms(2)
      by (simp add: run_write_def wrap_copy_def Let_def ri size_product [OF assms(1)]
          mask_index [OF assms(1)])
  next
    case False
    then show ?thesis using idx run_rest_size [OF assms, of i]
      by (simp add: run_write_def wrap_copy_def Let_def ri size_product [OF assms(1)]
          mask_index [OF assms(1)])
  qed
qed

lemma run_read_eq:
  assumes "ring_shape r" "unat k \<le> rcap r"
  shows "run_read r (of_nat i) k =
    (let idx = i mod rcap r; first = rcap r - idx
     in if unat k \<le> first then memread (slots r) (idx * resz r) (unat k * resz r)
        else memread (slots r) (idx * resz r) (first * resz r)
             @ memread (slots r) 0 ((unat k - first) * resz r))"
proof -
  note ri = run_index [OF assms, of i]
  have idx: "i mod rcap r \<le> rcap r" using ring_shape_cap(1) [OF assms(1)] by (simp add: less_imp_le)
  show ?thesis
  proof (cases "unat k \<le> rcap r - i mod rcap r")
    case True
    then show ?thesis using idx assms(2)
      by (simp add: run_read_def Let_def ri size_product [OF assms(1)] mask_index [OF assms(1)])
  next
    case False
    then show ?thesis using idx run_rest_size [OF assms, of i]
      by (simp add: run_read_def Let_def ri size_product [OF assms(1)] mask_index [OF assms(1)])
  qed
qed

text \<open>The split copy in bytes: \<open>F\<close> bytes at \<open>A\<close> up to the end, \<open>G\<close> bytes at the start.\<close>

lemma split_copy:
  assumes "A + F = length mem" "G \<le> A" "F + G \<le> length data"
  defines "m \<equiv> memcpy (memcpy mem A (memread data 0 F)) 0 (memread data F G)"
  shows "length m = length mem"
    and "x + e \<le> F \<Longrightarrow> memread m (A + x) e = memread data x e"
    and "x + e \<le> G \<Longrightarrow> memread m x e = memread data (F + x) e"
    and "G \<le> x \<Longrightarrow> x + e \<le> A \<Longrightarrow> memread m x e = memread mem x e"
proof -
  let ?m1 = "memcpy mem A (memread data 0 F)"
  have l1: "length ?m1 = length mem" using assms by (subst length_memcpy) auto
  show "length m = length mem" unfolding m_def using assms l1 by (subst length_memcpy) auto
  show "memread m (A + x) e = memread data x e" if "x + e \<le> F"
  proof -
    have "memread m (A + x) e = memread ?m1 (A + x) e"
      unfolding m_def by (rule memread_memcpy_disjoint) (use assms l1 that in auto)
    also have "\<dots> = memread (memread data 0 F) x e"
      by (rule memread_memcpy_same) (use assms that in auto)
    also have "\<dots> = memread data x e"
      using memread_memread [of x e F 0 data] that assms by simp
    finally show ?thesis .
  qed
  show "memread m x e = memread data (F + x) e" if "x + e \<le> G"
  proof -
    have "memread m (0 + x) e = memread (memread data F G) x e"
      unfolding m_def by (rule memread_memcpy_same) (use assms l1 that in auto)
    also have "\<dots> = memread data (F + x) e"
      by (rule memread_memread) (use assms that in auto)
    finally show ?thesis by simp
  qed
  show "memread m x e = memread mem x e" if "G \<le> x" "x + e \<le> A"
  proof -
    have "memread m x e = memread ?m1 x e"
      unfolding m_def by (rule memread_memcpy_disjoint) (use assms l1 that in auto)
    also have "\<dots> = memread mem x e"
      by (rule memread_memcpy_disjoint) (use assms that in auto)
    finally show ?thesis .
  qed
qed

lemma single_copy:
  assumes "A + F \<le> length mem" "F \<le> length data"
  defines "m \<equiv> memcpy mem A (memread data 0 F)"
  shows "length m = length mem"
    and "x + e \<le> F \<Longrightarrow> memread m (A + x) e = memread data x e"
    and "x + e \<le> length mem \<Longrightarrow> x + e \<le> A \<or> A + F \<le> x \<Longrightarrow> memread m x e = memread mem x e"
proof -
  show "length m = length mem" unfolding m_def using assms by (subst length_memcpy) auto
  show "memread m (A + x) e = memread data x e" if "x + e \<le> F"
  proof -
    have "memread m (A + x) e = memread (memread data 0 F) x e"
      unfolding m_def by (rule memread_memcpy_same) (use assms that in auto)
    also have "\<dots> = memread data x e"
      using memread_memread [of x e F 0 data] that assms by simp
    finally show ?thesis .
  qed
  show "memread m x e = memread mem x e" if "x + e \<le> length mem" "x + e \<le> A \<or> A + F \<le> x"
    unfolding m_def by (rule memread_memcpy_disjoint) (use assms that in auto)
qed

text \<open>
  A bulk write in elements: slot \<open>idx + d\<close> (modulo the capacity) receives chunk \<open>d\<close> of
  the data, the slots outside the run keep their contents.
\<close>

abbreviation wrap :: "nat \<Rightarrow> nat \<Rightarrow> nat \<Rightarrow> nat" where
  "wrap c idx d \<equiv> (if idx + d < c then idx + d else idx + d - c)"

lemma wrap_copy_cases:
  assumes "idx < c" "n \<le> c" "length mem = c * es" "n * es \<le> length data"
  obtains (one) "idx * es + n * es \<le> length mem" "idx + n \<le> c"
      "wrap_copy c es idx n data mem = memcpy mem (idx * es) (memread data 0 (n * es))"
  | (two) f g where "f + g = n" "g \<le> idx" "idx + f = c" "0 < g"
      "idx * es + f * es = length mem" "g * es \<le> idx * es" "f * es + g * es \<le> length data"
      "wrap_copy c es idx n data mem = memcpy (memcpy mem (idx * es) (memread data 0 (f * es))) 0
         (memread data (f * es) (g * es))"
proof (cases "n \<le> c - idx")
  case True
  then have fit: "idx + n \<le> c" using assms(1) by linarith
  then have "idx * es + n * es \<le> length mem" using assms(3) by (simp flip: add_mult_distrib)
  then show ?thesis using True fit by (intro one) (auto simp: wrap_copy_def)
next
  case False
  define f g where fg: "f = c - idx" "g = n - (c - idx)"
  have lin: "f + g = n" "g \<le> idx" "idx + f = c" "0 < g"
    using False assms(1,2) unfolding fg by linarith+
  show ?thesis
  proof (rule two [of f g])
    show "idx * es + f * es = length mem" "g * es \<le> idx * es" "f * es + g * es \<le> length data"
      using lin assms(3,4) by (simp_all flip: add_mult_distrib)
    show "wrap_copy c es idx n data mem = memcpy (memcpy mem (idx * es) (memread data 0 (f * es))) 0
         (memread data (f * es) (g * es))"
      using False by (simp add: wrap_copy_def fg)
  qed (use lin in auto)
qed

lemma length_wrap_copy:
  assumes "idx < c" "n \<le> c" "length mem = c * es" "n * es \<le> length data"
  shows "length (wrap_copy c es idx n data mem) = c * es"
  using assms
proof (cases rule: wrap_copy_cases)
  case one
  then show ?thesis using single_copy(1) [OF one(1) assms(4)] assms(3) by simp
next
  case (two f g)
  then show ?thesis using split_copy(1) [OF two(5-7)] assms(3) by simp
qed

lemma wrap_copy_hit:
  assumes "idx < c" "n \<le> c" "length mem = c * es" "n * es \<le> length data" "d < n"
  shows "memread (wrap_copy c es idx n data mem) (wrap c idx d * es) es = memread data (d * es) es"
  using assms(1-4)
proof (cases rule: wrap_copy_cases)
  case one
  have "d * es + es \<le> n * es" using assms(5) by (rule chunk_bound)
  with single_copy(2) [OF one(1) assms(4)] show ?thesis
    using one assms(5) by (simp add: add_mult_distrib)
next
  case (two f g)
  show ?thesis
  proof (cases "d < f")
    case True
    then have "d * es + es \<le> f * es" by (rule chunk_bound)
    with split_copy(2) [OF two(5-7)] show ?thesis
      using True two by (simp add: add_mult_distrib)
  next
    case False
    then have i: "wrap c idx d = d - f" and dg: "d - f < g" using two assms(5) by auto
    have "f * es + (d - f) * es = d * es" using False by (simp flip: add_mult_distrib)
    with split_copy(3) [OF two(5-7), of "(d - f) * es" es] chunk_bound [OF dg, of es]
    show ?thesis unfolding i two(8) by simp
  qed
qed

lemma wrap_copy_miss:
  assumes "idx < c" "n \<le> c" "length mem = c * es" "n * es \<le> length data"
    and j: "j < c" "\<And>d. d < n \<Longrightarrow> j \<noteq> wrap c idx d"
  shows "memread (wrap_copy c es idx n data mem) (j * es) es = memread mem (j * es) es"
  using assms(1-4)
proof (cases rule: wrap_copy_cases)
  case one
  have "j < idx \<or> idx + n \<le> j"
  proof (rule ccontr)
    assume "\<not> (j < idx \<or> idx + n \<le> j)"
    moreover from this have "j - idx < n" by linarith
    ultimately show False using j(2) [of "j - idx"] j(1) by simp
  qed
  then have "j * es + es \<le> idx * es \<or> idx * es + n * es \<le> j * es"
    by (auto intro: chunk_bound simp flip: add_mult_distrib)
  then show ?thesis
    using single_copy(3) [OF one(1) assms(4)] chunk_bound [OF j(1), of es] assms(3) one by simp
next
  case (two f g)
  have "j < idx"
  proof (rule ccontr)
    assume "\<not> j < idx"
    moreover from this have "j - idx < n" using j(1) two by linarith
    ultimately show False using j(2) [of "j - idx"] j(1) by simp
  qed
  moreover have "g \<le> j" using j(2) [of "f + j"] two by (cases "j < g") auto
  ultimately have "j * es + es \<le> idx * es" "g * es \<le> j * es" by (auto intro: chunk_bound)
  then show ?thesis using split_copy(4) [OF two(5-7)] two by simp
qed

lemma run_write_ticket:
  assumes r: "ring_shape r" and k: "unat k \<le> rcap r" "unat k * resz r \<le> length data"
  shows "ring_shape (run_write r (of_nat i) k data)"
    and "d < unat k \<Longrightarrow>
      ring_slot (run_write r (of_nat i) k data) (i + d) = memread data (d * resz r) (resz r)"
    and "(\<And>d. d < unat k \<Longrightarrow> j mod rcap r \<noteq> (i + d) mod rcap r) \<Longrightarrow>
      ring_slot (run_write r (of_nat i) k data) j = ring_slot r j"
proof -
  have c: "i mod rcap r < rcap r" "j mod rcap r < rcap r" and l: "length (slots r) = rcap r * resz r"
    using ring_shape_cap(1) [OF r] r by (auto simp: ring_shape_def)
  note eq = run_write_eq [OF r k(1)]
  have wi: "(i + d) mod rcap r = wrap (rcap r) (i mod rcap r) d" if "d < unat k" for d
    using mod_add_window [of d "rcap r" i] that k(1) by simp
  show "ring_shape (run_write r (of_nat i) k data)"
    using r length_wrap_copy [OF c(1) k(1) l k(2)] by (simp add: eq ring_shape_def)
  show "ring_slot (run_write r (of_nat i) k data) (i + d) = memread data (d * resz r) (resz r)"
    if "d < unat k"
    using wrap_copy_hit [OF c(1) k(1) l k(2) that] wi [OF that] by (simp add: eq)
  show "ring_slot (run_write r (of_nat i) k data) j = ring_slot r j"
    if "\<And>d. d < unat k \<Longrightarrow> j mod rcap r \<noteq> (i + d) mod rcap r"
    using wrap_copy_miss [OF c(1) k(1) l k(2) c(2)] that wi by (simp add: eq ring_slot_def)
qed

lemma memread_wrapped:
  assumes idx: "idx < c" "n \<le> c" "\<not> n \<le> c - idx" and l: "length b = c * es" and d: "d < n"
  shows "memread (memread b (idx * es) ((c - idx) * es) @ memread b 0 ((n - (c - idx)) * es)) (d * es) es =
    memread b (wrap c idx d * es) es"
proof -
  let ?a = "memread b (idx * es) ((c - idx) * es)"
  let ?b = "memread b 0 ((n - (c - idx)) * es)"
  have full: "idx * es + (c - idx) * es = c * es" "(n - (c - idx)) * es \<le> c * es"
    using idx by (simp flip: add_mult_distrib, meson diff_le_self le_trans mult_le_mono1)
  have la: "length ?a = (c - idx) * es" using full l by simp
  show ?thesis
  proof (cases "idx + d < c")
    case True
    then have de: "d * es + es \<le> (c - idx) * es" by (intro chunk_bound) simp
    with la have "memread (?a @ ?b) (d * es) es = memread ?a (d * es) es"
      by (intro memread_append1) simp
    also have "\<dots> = memread b (idx * es + d * es) es"
      by (rule memread_memread) (use de full l in auto)
    finally show ?thesis using True by (simp add: add_mult_distrib)
  next
    case F: False
    define d' where "d' = idx + d - c"
    have d': "d' < n - (c - idx)" "d * es = (c - idx) * es + d' * es"
      using F d idx by (auto simp: d'_def simp flip: add_mult_distrib)
    then have de: "d' * es + es \<le> (n - (c - idx)) * es" by (intro chunk_bound)
    have "memread (?a @ ?b) (d * es) es = memread ?b (d' * es) es"
      using memread_append2 [of ?a "d * es" ?b es] la d'(2) by simp
    also have "\<dots> = memread b (d' * es) es"
      using memread_memread [of "d' * es" es "(n - (c - idx)) * es" 0 b] de full l by simp
    finally show ?thesis using F by (simp add: d'_def)
  qed
qed

lemma run_read_ticket:
  assumes r: "ring_shape r" and k: "unat k \<le> rcap r"
  shows "length (run_read r (of_nat i) k) = unat k * resz r"
    and "d < unat k \<Longrightarrow> memread (run_read r (of_nat i) k) (d * resz r) (resz r) = ring_slot r (i + d)"
proof -
  define c es idx n where defs: "c = rcap r" "es = resz r" "idx = i mod rcap r" "n = unat k"
  have c: "idx < c" "n \<le> c" and l: "length (slots r) = c * es"
    using ring_shape_cap(1) [OF r] r k by (auto simp: ring_shape_def defs)
  have eq: "run_read r (of_nat i) k =
      (if n \<le> c - idx then memread (slots r) (idx * es) (n * es)
       else memread (slots r) (idx * es) ((c - idx) * es) @ memread (slots r) 0 ((n - (c - idx)) * es))"
    by (simp add: run_read_eq [OF r k] Let_def defs)
  have fit: "idx * es + n * es \<le> c * es" if "n \<le> c - idx"
    using that c(1) by (metis add_mult_distrib mult_le_mono1 le_diff_conv2 less_imp_le add.commute)
  have full: "idx * es + (c - idx) * es = c * es" "(n - (c - idx)) * es \<le> c * es"
    using c by (simp flip: add_mult_distrib, meson diff_le_self le_trans mult_le_mono1)
  have len: "(c - idx) * es + (n - (c - idx)) * es = n * es" if "\<not> n \<le> c - idx"
    using that by (simp flip: add_mult_distrib)
  show "length (run_read r (of_nat i) k) = unat k * resz r"
    using fit full len c l by (auto simp: eq simp flip: defs)
  assume d: "d < unat k"
  have slot: "ring_slot r (i + d) = memread (slots r) (wrap c idx d * es) es"
    using mod_add_window [of d "rcap r" i] d k by (simp add: ring_slot_def defs)
  have dn: "d * es + es \<le> n * es" using d by (simp add: chunk_bound defs)
  show "memread (run_read r (of_nat i) k) (d * resz r) (resz r) = ring_slot r (i + d)"
  proof (cases "n \<le> c - idx")
    case True
    have "memread (memread (slots r) (idx * es) (n * es)) (d * es) es =
        memread (slots r) (idx * es + d * es) es"
      by (rule memread_memread) (use fit [OF True] dn l in auto)
    moreover have "idx + d < c" using True d c by (simp add: defs)
    ultimately show ?thesis
      unfolding slot eq using True by (simp add: add_mult_distrib flip: defs(2))
  next
    case False
    have "d < n" using d by (simp add: defs)
    then show ?thesis
      unfolding slot eq using False memread_wrapped [OF c False l] by (simp flip: defs(2))
  qed
qed

end
