(* ===== verification/Fifo_Spec.thy ===== *)
theory Fifo_Spec
  imports Main
begin

text \<open>
  The contract of a bounded FIFO queue, as a locale over the operations of a
  provider, and what follows for every client: a run of any mix of operations never gets
  stuck, and what was taken out followed by what is still inside is what was inside
  followed by what was accepted. The ring buffer theories interpret it.
\<close>

section \<open>Runs of queue operations\<close>

datatype 'e fifo_op = Enq 'e | Deq

text \<open>The reply of one operation: whether it was accepted, or what was taken out.\<close>

datatype 'e fifo_res = Accepted bool | Taken "'e option"

type_synonym ('r, 'e) fifo_push = "'r \<Rightarrow> 'e \<Rightarrow> (bool \<times> 'r) option"
type_synonym ('r, 'e) fifo_pop = "'r \<Rightarrow> ('e option \<times> 'r) option"

fun fifo_run :: "('r, 'e) fifo_push \<Rightarrow> ('r, 'e) fifo_pop \<Rightarrow> 'r \<Rightarrow> 'e fifo_op list \<Rightarrow>
    ('e fifo_res list \<times> 'r) option" where
  "fifo_run push pop r [] = Some ([], r)"
| "fifo_run push pop r (Enq x # ops) =
     (case push r x of None \<Rightarrow> None
      | Some (b, r') \<Rightarrow> map_option (apfst ((#) (Accepted b))) (fifo_run push pop r' ops))"
| "fifo_run push pop r (Deq # ops) =
     (case pop r of None \<Rightarrow> None
      | Some (y, r') \<Rightarrow> map_option (apfst ((#) (Taken y))) (fifo_run push pop r' ops))"

text \<open>The elements a run accepted, and the elements it took out, in order.\<close>

fun accepted :: "'e fifo_op list \<Rightarrow> 'e fifo_res list \<Rightarrow> 'e list" where
  "accepted (Enq x # ops) (Accepted b # rs) = (if b then x # accepted ops rs else accepted ops rs)"
| "accepted (_ # ops) (_ # rs) = accepted ops rs"
| "accepted _ _ = []"

fun taken :: "'e fifo_res list \<Rightarrow> 'e list" where
  "taken (Taken (Some y) # rs) = y # taken rs"
| "taken (_ # rs) = taken rs"
| "taken [] = []"

text \<open>The abstract queue the runs are compared with.\<close>

fun spec_run :: "nat \<Rightarrow> 'e list \<Rightarrow> 'e fifo_op list \<Rightarrow> 'e fifo_res list \<times> 'e list" where
  "spec_run c q [] = ([], q)"
| "spec_run c q (Enq x # ops) =
     (if length q < c then apfst ((#) (Accepted True)) (spec_run c (q @ [x]) ops)
      else apfst ((#) (Accepted False)) (spec_run c q ops))"
| "spec_run c q (Deq # ops) =
     (case q of [] \<Rightarrow> apfst ((#) (Taken None)) (spec_run c [] ops)
      | y # q' \<Rightarrow> apfst ((#) (Taken (Some y))) (spec_run c q' ops))"

lemma spec_run_fifo:
  "spec_run c q ops = (rs, q') \<Longrightarrow> taken rs @ q' = q @ accepted ops rs"
  by (induction c q ops arbitrary: rs q' rule: spec_run.induct)
    (auto simp: apfst_def map_prod_def split: if_splits list.splits prod.splits)

lemma spec_run_bounded:
  "spec_run c q ops = (rs, q') \<Longrightarrow> length q \<le> c \<Longrightarrow> length q' \<le> c"
  by (induction c q ops arbitrary: rs q' rule: spec_run.induct)
    (auto simp: apfst_def map_prod_def split: if_splits list.splits prod.splits)

fun op_valid :: "('e \<Rightarrow> bool) \<Rightarrow> 'e fifo_op \<Rightarrow> bool" where
  "op_valid P (Enq x) = P x"
| "op_valid P Deq = True"

section \<open>The contract\<close>

locale bounded_fifo =
  fixes inv :: "'r \<Rightarrow> bool"
    and items :: "'r \<Rightarrow> 'e list"
    and cap :: "'r \<Rightarrow> nat"
    and valid :: "'r \<Rightarrow> 'e \<Rightarrow> bool"
    and push :: "('r, 'e) fifo_push"
    and pop :: "('r, 'e) fifo_pop"
  assumes bounded: "inv r \<Longrightarrow> length (items r) \<le> cap r"
    and push_law: "inv r \<Longrightarrow> valid r x \<Longrightarrow>
      \<exists>r'. push r x = Some (length (items r) < cap r, r') \<and> inv r' \<and> cap r' = cap r \<and>
        valid r' = valid r \<and>
        items r' = (if length (items r) < cap r then items r @ [x] else items r)"
    and pop_law: "inv r \<Longrightarrow>
      \<exists>r'. pop r = Some (case items r of [] \<Rightarrow> None | y # _ \<Rightarrow> Some y, r') \<and> inv r' \<and>
        cap r' = cap r \<and> valid r' = valid r \<and> items r' = tl (items r)"
begin

lemma run_refines:
  assumes "inv r" "list_all (op_valid (valid r)) ops"
  shows "\<exists>rs r'. fifo_run push pop r ops = Some (rs, r') \<and> inv r' \<and> cap r' = cap r \<and>
    spec_run (cap r) (items r) ops = (rs, items r')"
  using assms
proof (induction ops arbitrary: r)
  case Nil
  then show ?case by simp
next
  case (Cons oper ops)
  show ?case
  proof (cases oper)
    case (Enq x)
    with Cons.prems obtain r' where r': "push r x = Some (length (items r) < cap r, r')" "inv r'"
      "cap r' = cap r" "valid r' = valid r"
      "items r' = (if length (items r) < cap r then items r @ [x] else items r)"
      using push_law [of r x] by auto
    with Cons.IH [of r'] Cons.prems show ?thesis by (auto simp: Enq)
  next
    case Deq
    from pop_law [OF Cons.prems(1)] obtain r' where
      r': "pop r = Some (case items r of [] \<Rightarrow> None | y # _ \<Rightarrow> Some y, r')" "inv r'"
      "cap r' = cap r" "valid r' = valid r" "items r' = tl (items r)"
      by auto
    with Cons.IH [of r'] Cons.prems show ?thesis by (auto simp: Deq split: list.splits)
  qed
qed

lemma run_fifo:
  assumes "inv r" "list_all (op_valid (valid r)) ops"
  shows "\<exists>rs r'. fifo_run push pop r ops = Some (rs, r') \<and> inv r' \<and> length (items r') \<le> cap r \<and>
    taken rs @ items r' = items r @ accepted ops rs"
  using run_refines [OF assms] spec_run_fifo bounded by metis

end

end
