(* ===== verification/Ring_Queue.thy ===== *)
theory Ring_Queue
  imports Ring_Lf Fifo_Spec
begin

text \<open>
  Functional correctness of the ring operations without interference: a quiescent ring
  (\<open>ring_ok\<close>) is a bounded FIFO queue \<open>ring_items\<close>, on which push, pop and the two
  bulk operations are append and drop. The plain operations interpret the contract
  \<open>bounded_fifo\<close>.
\<close>

section \<open>A quiescent ring is a bounded queue\<close>

lemma unat_of_nat_add_mod:
  assumes "ring_shape r"
  shows "(unat (of_nat m :: u32) + i) mod rcap r = (m + i) mod rcap r"
proof -
  from assms obtain k where k: "k < 32" "rcap r = 2 ^ k" by (rule ring_shapeE)
  then have "unat (of_nat m :: u32) mod rcap r = m mod rcap r"
    by (simp add: unat_of_nat_mod_pow2)
  then show ?thesis by (metis mod_add_left_eq)
qed

lemma ring_atD:
  assumes "ring_at r m n"
  shows "ring_shape r" "prod_head r = of_nat n" "prod_tail r = of_nat n"
    "cons_head r = of_nat m" "cons_tail r = of_nat m" "m \<le> n" "n \<le> m + rcap r"
    "unat (of_nat n - of_nat m :: u32) = n - m" "n - m < 2 ^ 32"
proof -
  show "ring_shape r" "prod_head r = of_nat n" "prod_tail r = of_nat n"
    "cons_head r = of_nat m" "cons_tail r = of_nat m" and le: "m \<le> n" "n \<le> m + rcap r"
    using assms by (simp_all add: ring_at_def)
  show "n - m < 2 ^ 32"
    using le ring_shape_cap(3) [of r] assms by (simp add: ring_at_def)
  then show "unat (of_nat n - of_nat m :: u32) = n - m"
    using le by (intro of_nat_diff_u32)
qed

lemma ring_at_items: "ring_at r m n \<Longrightarrow> ring_items r = map (ring_slot r) [m..<n]"
proof -
  assume at: "ring_at r m n"
  note D = ring_atD [OF at]
  have "ring_items r = map (\<lambda>i. ring_slot r (m + i)) [0..<n - m]"
    using unat_of_nat_add_mod [OF D(1), of m]
    by (simp add: ring_items_def D ring_slot_def)
  also have "\<dots> = map (ring_slot r) [m..<n]"
    using D(6) by (intro nth_equalityI) auto
  finally show ?thesis .
qed

lemma ring_ok_iff: "ring_ok r \<longleftrightarrow> (\<exists>m n. ring_at r m n)"
proof
  assume ok: "ring_ok r"
  let ?m = "unat (cons_head r)" and ?d = "unat (prod_tail r - cons_head r)"
  have "prod_tail r = cons_head r + (prod_tail r - cons_head r)" by simp
  then have "prod_tail r = of_nat (?m + ?d)" by simp
  with ok have "ring_at r ?m (?m + ?d)" by (auto simp: ring_ok_def ring_at_def)
  then show "\<exists>m n. ring_at r m n" by blast
next
  assume "\<exists>m n. ring_at r m n"
  then obtain m n where at: "ring_at r m n" by blast
  note D = ring_atD [OF at]
  show "ring_ok r" using D by (simp add: ring_ok_def)
qed

lemma ring_okE:
  assumes "ring_ok r"
  obtains m n where "ring_at r m n" "length (ring_items r) = n - m"
  using assms ring_at_items by (auto simp: ring_ok_iff)

lemma ring_items_bounded: "ring_ok r \<Longrightarrow> length (ring_items r) \<le> rcap r"
  by (auto simp: ring_ok_def ring_items_def)

lemma ring_okD_shape: "ring_ok r \<Longrightarrow> ring_shape r"
  by (simp add: ring_ok_def)

lemma ring_full_at:
  "ring_at r m n \<Longrightarrow> ring_capacity r \<le> of_nat n - of_nat m \<longleftrightarrow> n - m = rcap r"
  using ring_atD [of r m n] by (auto simp: word_le_nat_alt rcap_def)

lemma slot_write_next:
  assumes at: "ring_at r m n" and room: "n - m < rcap r" and d: "resz r \<le> length data"
  shows "map (ring_slot (slot_write r (of_nat n) data)) [m..<n] = map (ring_slot r) [m..<n]"
    and "ring_slot (slot_write r (of_nat n) data) n = take (resz r) data"
proof -
  note D = ring_atD [OF at]
  have "j mod rcap r \<noteq> n mod rcap r" if "m \<le> j" "j < n" for j
    using mod_window_inj [of j "rcap r" n] that room by fastforce
  then show "map (ring_slot (slot_write r (of_nat n) data)) [m..<n] = map (ring_slot r) [m..<n]"
    by (simp add: slot_write_ticket(2) [OF D(1) d])
  show "ring_slot (slot_write r (of_nat n) data) n = take (resz r) data"
    by (simp add: slot_write_ticket(2) [OF D(1) d])
qed

lemma ring_lf_push_at:
  assumes at: "ring_at r m n" and d: "resz r \<le> length data"
  shows "ring_lf_push r data =
    (if n - m = rcap r then Some (False, r)
     else Some (True, (slot_write r (of_nat n) data)\<lparr>prod_head := of_nat (Suc n),
                         prod_tail := of_nat (Suc n)\<rparr>))"
proof -
  note D = ring_atD [OF at]
  show ?thesis
    using ring_full_at [OF at] by (simp add: ring_lf_push_def Let_def D(2-5) add.commute)
qed

lemma ring_lf_push_ok:
  assumes ok: "ring_ok r" and d: "resz r \<le> length data" and room: "length (ring_items r) < rcap r"
  shows "\<exists>r'. ring_lf_push r data = Some (True, r') \<and> ring_ok r' \<and> rcap r' = rcap r \<and>
    resz r' = resz r \<and> ring_items r' = ring_items r @ [take (resz r) data]"
proof -
  from ok obtain m n where at: "ring_at r m n" and len: "length (ring_items r) = n - m"
    by (rule ring_okE)
  note D = ring_atD [OF at]
  define r' where
    "r' = (slot_write r (of_nat n) data)\<lparr>prod_head := of_nat (Suc n), prod_tail := of_nat (Suc n)\<rparr>"
  have at': "ring_at r' m (Suc n)"
    using D room len slot_write_ticket(1) [OF D(1) d] by (auto simp: ring_at_def r'_def)
  have "ring_slot r' = ring_slot (slot_write r (of_nat n) data)" by (simp add: r'_def)
  then have "ring_items r' = ring_items r @ [take (resz r) data]"
    using slot_write_next [OF at _ d] room len D(6)
    by (simp add: ring_at_items [OF at'] ring_at_items [OF at])
  moreover have "ring_lf_push r data = Some (True, r')"
    using ring_lf_push_at [OF at d] room len by (simp add: r'_def)
  ultimately show ?thesis using at' by (auto simp: ring_ok_iff r'_def)
qed

lemma ring_lf_push_full:
  assumes ok: "ring_ok r" and d: "resz r \<le> length data" and full: "length (ring_items r) = rcap r"
  shows "ring_lf_push r data = Some (False, r)"
proof -
  from ok obtain m n where at: "ring_at r m n" and len: "length (ring_items r) = n - m"
    by (rule ring_okE)
  then show ?thesis using full by (simp add: ring_lf_push_at [OF at d])
qed

text \<open>Every dequeue, single or bulk, moves the consumer cursors of a quiescent ring.\<close>

lemma cons_advance:
  assumes at: "ring_at r m n" and le: "m + k \<le> n"
  shows "ring_at (r\<lparr>cons_head := of_nat (m + k), cons_tail := of_nat (m + k)\<rparr>) (m + k) n"
    and "ring_items (r\<lparr>cons_head := of_nat (m + k), cons_tail := of_nat (m + k)\<rparr>) =
      drop k (ring_items r)"
proof -
  note D = ring_atD [OF at]
  show at': "ring_at (r\<lparr>cons_head := of_nat (m + k), cons_tail := of_nat (m + k)\<rparr>) (m + k) n"
    using D le by (simp add: ring_at_def)
  show "ring_items (r\<lparr>cons_head := of_nat (m + k), cons_tail := of_nat (m + k)\<rparr>) =
      drop k (ring_items r)"
    using le by (simp only: ring_at_items [OF at'] ring_at_items [OF at])
      (simp add: drop_map)
qed

lemma ring_lf_pop_empty:
  assumes "ring_ok r" "ring_items r = []"
  shows "ring_lf_pop r = Some (None, r)"
proof -
  from assms(1) obtain m n where at: "ring_at r m n" and len: "length (ring_items r) = n - m"
    by (rule ring_okE)
  note D = ring_atD [OF at]
  have "n = m" using len assms(2) D(6) by simp
  then show ?thesis by (simp add: ring_lf_pop_def D)
qed

lemma ring_lf_pop_ok:
  assumes "ring_ok r" "ring_items r = x # xs"
  shows "\<exists>r'. ring_lf_pop r = Some (Some x, r') \<and> ring_ok r' \<and> rcap r' = rcap r \<and>
    resz r' = resz r \<and> ring_items r' = xs"
proof -
  from assms(1) obtain m n where at: "ring_at r m n" and len: "length (ring_items r) = n - m"
    by (rule ring_okE)
  note D = ring_atD [OF at]
  have mn: "m < n" using len assms(2) by simp
  have x: "ring_slot r m = x"
    using assms(2) mn by (simp add: ring_at_items [OF at] upt_conv_Cons)
  have ne: "(of_nat n :: u32) \<noteq> of_nat m"
    using of_nat_eq_u32 [OF D(6,9)] mn by simp
  let ?r = "r\<lparr>cons_head := of_nat (m + 1), cons_tail := of_nat (m + 1)\<rparr>"
  have "ring_lf_pop r = Some (Some x, ?r)"
    using ne slot_read_ticket [OF D(1), of m] x
    by (simp add: ring_lf_pop_def Let_def D(2-5) add.commute)
  moreover have "ring_ok ?r" "ring_items ?r = xs"
    using cons_advance [OF at, of 1] mn assms(2) by (auto simp: ring_ok_iff)
  ultimately show ?thesis by auto
qed

lemma ring_lf_dequeue_burst_ok:
  assumes "ring_ok r" and k_def: "k = min (unat n) (length (ring_items r))"
  shows "\<exists>out r'. ring_lf_dequeue_burst r n = Some (of_nat k, out, r') \<and> ring_ok r' \<and>
    rcap r' = rcap r \<and> resz r' = resz r \<and> length out = k * resz r \<and>
    chunks (resz r) k out = take k (ring_items r) \<and> ring_items r' = drop k (ring_items r)"
proof -
  from assms(1) obtain m p where at: "ring_at r m p" and len: "length (ring_items r) = p - m"
    by (rule ring_okE)
  note D = ring_atD [OF at]
  show ?thesis
  proof (cases "k = 0")
    case True
    then have "n = 0 \<or> p = m" using len D(6) by (auto simp: k_def min_def unat_eq_0 split: if_splits)
    then show ?thesis using assms(1) True D by (auto simp: ring_lf_dequeue_burst_def chunks_def)
  next
    case False
    define kw where "kw = (if n < of_nat p - of_nat m then n else of_nat p - of_nat m :: u32)"
    have kw: "unat kw = k"
      using D(8) len by (auto simp: kw_def k_def word_less_nat_alt)
    have kk: "unat kw \<le> rcap r" "m + k \<le> p" using kw len D(6,7) by (auto simp: k_def)
    have nz: "n \<noteq> 0" "(of_nat p - of_nat m :: u32) \<noteq> 0"
      using False D(8) len by (auto simp: k_def)
    let ?r = "r\<lparr>cons_head := of_nat (m + k), cons_tail := of_nat (m + k)\<rparr>"
    let ?out = "run_read r (of_nat m) kw"
    have kwn: "kw = of_nat k" by (simp flip: kw)
    have "ring_lf_dequeue_burst r n = Some (kw, ?out, ?r)"
      using nz by (simp add: ring_lf_dequeue_burst_def Let_def D(2-5) kwn flip: kw_def)
    moreover have "chunks (resz r) k ?out = take k (ring_items r)"
      using run_read_ticket(2) [OF D(1) kk(1), of _ m] kk(2) kw
      by (intro nth_equalityI) (auto simp: ring_at_items [OF at])
    ultimately show ?thesis
      using cons_advance [OF at kk(2)] run_read_ticket(1) [OF D(1) kk(1), of m] kwn kw
      by (auto simp: ring_ok_iff)
  qed
qed

lemma run_write_next:
  assumes at: "ring_at r m p" and k: "p + unat k \<le> m + rcap r" "unat k * resz r \<le> length data"
  shows "map (ring_slot (run_write r (of_nat p) k data)) [m..<p + unat k] =
    map (ring_slot r) [m..<p] @ chunks (resz r) (unat k) data"
proof -
  note D = ring_atD [OF at]
  have kc: "unat k \<le> rcap r" using k(1) D(6) by linarith
  note W = run_write_ticket [OF D(1) kc k(2), where i = p]
  have "j mod rcap r \<noteq> (p + d) mod rcap r" if "m \<le> j" "j < p" "d < unat k" for j d
    using mod_window_inj [of j "rcap r" "p + d"] that k(1) by fastforce
  then have "map (ring_slot (run_write r (of_nat p) k data)) [m..<p] = map (ring_slot r) [m..<p]"
    by (intro map_cong refl W(3)) simp
  moreover have "map (ring_slot (run_write r (of_nat p) k data)) [p..<p + unat k] =
      chunks (resz r) (unat k) data"
    by (intro nth_equalityI) (auto simp: W(2))
  ultimately show ?thesis
    by (simp only: upt_add_eq_append [OF D(6)] map_append)
qed

lemma ring_lf_enqueue_burst_ok:
  assumes "ring_ok r" and k_def: "k = min (unat n) (rcap r - length (ring_items r))"
    and d: "k * resz r \<le> length data"
  shows "\<exists>r'. ring_lf_enqueue_burst r data n = Some (of_nat k, r') \<and> ring_ok r' \<and>
    rcap r' = rcap r \<and> resz r' = resz r \<and>
    ring_items r' = ring_items r @ chunks (resz r) k data"
proof -
  from assms(1) obtain m p where at: "ring_at r m p" and len: "length (ring_items r) = p - m"
    by (rule ring_okE)
  note D = ring_atD [OF at]
  let ?free = "ring_capacity r - (of_nat p - of_nat m)"
  have le: "(of_nat p - of_nat m :: u32) \<le> ring_capacity r"
    using D(6-8) by (simp add: word_le_nat_alt rcap_def)
  have fr: "unat ?free = rcap r - (p - m)"
    by (simp only: unat_sub [OF le] D(8) rcap_def)
  show ?thesis
  proof (cases "k = 0")
    case True
    then have "n = 0 \<or> ?free = 0"
      using fr len by (auto simp: k_def min_def unat_eq_0 split: if_splits)
    then show ?thesis using assms(1) True D by (auto simp: ring_lf_enqueue_burst_def chunks_def)
  next
    case False
    define kw where "kw = (if n < ?free then n else ?free)"
    have kw: "unat kw = k" using fr len by (auto simp: kw_def k_def word_less_nat_alt)
    then have kwn: "kw = of_nat k" by (simp flip: kw)
    have kk: "p + unat kw \<le> m + rcap r" "unat kw * resz r \<le> length data"
      using kw len D(6,7) d by (auto simp: k_def)
    then have kc: "unat kw \<le> rcap r" using D(6) by linarith
    have nz: "n \<noteq> 0" "?free \<noteq> 0" using False fr len by (auto simp: k_def)
    define r' where "r' = (run_write r (of_nat p) kw data)\<lparr>prod_head := of_nat (p + k), prod_tail := of_nat (p + k)\<rparr>"
    have "ring_lf_enqueue_burst r data n = Some (kw, r')"
      using nz by (simp add: ring_lf_enqueue_burst_def Let_def D(2-5) r'_def kwn flip: kw_def)
    moreover have at': "ring_at r' m (p + k)"
      using D kk kw run_write_ticket(1) [OF D(1) kc kk(2), of p] by (simp add: ring_at_def r'_def)
    moreover have "ring_slot r' = ring_slot (run_write r (of_nat p) kw data)" by (simp add: r'_def)
    then have "ring_items r' = ring_items r @ chunks (resz r) k data"
      using run_write_next [OF at kk] by (simp add: ring_at_items [OF at'] ring_at_items [OF at] kw)
    ultimately show ?thesis using kwn by (auto simp: ring_ok_iff r'_def)
  qed
qed

text \<open>The three observers on a quiescent ring.\<close>

lemma ring_observers:
  assumes "ring_ok r"
  shows "unat (ring_lf_count r) = length (ring_items r)"
    and "ring_full r \<longleftrightarrow> length (ring_items r) = rcap r"
    and "ring_empty r \<longleftrightarrow> ring_items r = []"
proof -
  from assms obtain m n where at: "ring_at r m n" and len: "length (ring_items r) = n - m"
    by (rule ring_okE)
  note D = ring_atD [OF at]
  show "unat (ring_lf_count r) = length (ring_items r)" by (simp add: ring_lf_count_def D len)
  show "ring_full r \<longleftrightarrow> length (ring_items r) = rcap r"
    using ring_full_at [OF at] by (simp add: ring_full_def D len)
  show "ring_empty r \<longleftrightarrow> ring_items r = []"
    using of_nat_eq_u32 [OF D(6,9)] D(6) len by (auto simp: ring_empty_def D(2-5))
qed

section \<open>The contract\<close>

interpretation lf: bounded_fifo ring_ok ring_items rcap "\<lambda>r x. length x = resz r"
  ring_lf_push ring_lf_pop
proof unfold_locales
  fix r :: chan_ring_lf and x :: "byte list"
  assume ok: "ring_ok r"
  show bd: "length (ring_items r) \<le> rcap r" by (rule ring_items_bounded [OF ok])
  show "\<exists>r'. ring_lf_pop r = Some (case ring_items r of [] \<Rightarrow> None | y # _ \<Rightarrow> Some y, r') \<and>
      ring_ok r' \<and> rcap r' = rcap r \<and> (\<lambda>x. length x = resz r') = (\<lambda>x. length x = resz r) \<and>
      ring_items r' = tl (ring_items r)"
    using ok ring_lf_pop_empty [OF ok] ring_lf_pop_ok [OF ok] by (cases "ring_items r") auto
  assume "length x = resz r"
  then show "\<exists>r'. ring_lf_push r x = Some (length (ring_items r) < rcap r, r') \<and> ring_ok r' \<and>
      rcap r' = rcap r \<and> (\<lambda>x. length x = resz r') = (\<lambda>x. length x = resz r) \<and>
      ring_items r' = (if length (ring_items r) < rcap r then ring_items r @ [x] else ring_items r)"
    using ok bd ring_lf_push_ok [OF ok, of x] ring_lf_push_full [OF ok, of x]
    by (cases "length (ring_items r) < rcap r") auto
qed

end
