(* ===== verification/Ring_Conc.thy ===== *)
theory Ring_Conc
  imports Ring_Queue
begin

text \<open>
  The ring of \<open>src/ring_lf.c\<close> under interference: any number of threads run
  \<open>ring_lf_push\<close>, \<open>ring_lf_pop\<close> and the bulk operations, one shared access per step
  (sequentially consistent interleaving). The locals of a thread are the arguments of its
  program counter. Auxiliary variables, which no step reads, record the tickets: how many
  elements were reserved and committed on each side, every value in the order the
  producers reserved (\<open>plog\<close>) and every value in the order the consumers committed
  (\<open>clog\<close>). Phase 2 touches only reserved slots and is one step; \<open>no_data_race\<close> below proves
  that no other thread accesses these slots meanwhile.
\<close>

section \<open>State\<close>

text \<open>
  \<open>single\<close> tells \<open>ring_lf_push\<close>/\<open>ring_lf_pop\<close> from the bulk operations. The last
  number of a program counter is the ticket of the reserved run.
\<close>

datatype rpc =
    Ready
  | PHead bool "byte list list"
  | PTail bool "byte list list" u32 nat
  | PCas bool "byte list list" u32 u32 nat
  | PWrite bool "byte list list" u32 nat
  | PWait "byte list list" u32 nat
  | PStore "byte list list" u32 nat
  | PDone nat
  | CHead bool u32
  | CTail bool u32 u32 nat
  | CCas bool u32 u32 u32 nat
  | CRead bool u32 u32 nat
  | CWait u32 u32 nat "byte list"
  | CStore u32 u32 nat "byte list"
  | CDone u32 nat "byte list"

record cring =
  rg :: chan_ring_lf
  pcs :: "nat \<Rightarrow> rpc"
  plog :: "byte list list"
  prod_done :: nat
  cons_rsv :: nat
  cons_done :: nat
  clog :: "byte list list"

abbreviation prod_rsv :: "cring \<Rightarrow> nat" where
  "prod_rsv s \<equiv> length (plog s)"

section \<open>Steps\<close>

abbreviation goto :: "nat \<Rightarrow> rpc \<Rightarrow> cring \<Rightarrow> cring" where
  "goto t pc s \<equiv> s\<lparr>pcs := (pcs s)(t := pc)\<rparr>"

text \<open>
  The Phase 1 tests: how many elements the loaded cursors grant, \<open>0\<close> when full or empty.
  \<open>ring_lf_push\<close> tests \<open>(uint32_t)(ph - ct) >= capacity\<close> and \<open>ring_lf_pop\<close> tests
  \<open>pt == ch\<close>; the bulk versions clamp \<open>n\<close> to \<open>free_entries\<close> or \<open>avail\<close>.
\<close>

definition prod_grant :: "bool \<Rightarrow> chan_ring_lf \<Rightarrow> u32 \<Rightarrow> u32 \<Rightarrow> u32" where
  "prod_grant single r ph n =
     (let ct = cons_tail r
      in if single then (if ring_capacity r \<le> ph - ct then 0 else 1)
         else (let free_entries = ring_capacity r - (ph - ct)
               in if free_entries = 0 then 0 else if n < free_entries then n else free_entries))"

definition cons_grant :: "bool \<Rightarrow> chan_ring_lf \<Rightarrow> u32 \<Rightarrow> u32 \<Rightarrow> u32" where
  "cons_grant single r ch n =
     (let pt = prod_tail r
      in if single then (if pt = ch then 0 else 1)
         else (let avail = pt - ch in if avail = 0 then 0 else if n < avail then n else avail))"

text \<open>Phase 2 of a producer: the copy into the reserved slots.\<close>

definition prod_write :: "bool \<Rightarrow> byte list list \<Rightarrow> u32 \<Rightarrow> chan_ring_lf \<Rightarrow> chan_ring_lf" where
  "prod_write sg ds ph r =
     (if sg then slot_write r ph (hd ds) else run_write r ph (of_nat (length ds)) (concat ds))"

text \<open>
  One step of thread \<open>t\<close>. \<open>spur\<close> is the choice of the environment to let a weak
  compare-exchange fail spuriously.
\<close>

definition ring_tstep :: "bool \<Rightarrow> nat \<Rightarrow> cring \<Rightarrow> cring" where
  "ring_tstep spur t s =
     (case pcs s t of
        Ready \<Rightarrow> s
      | PHead sg ds \<Rightarrow> goto t (PTail sg ds (prod_head (rg s)) (prod_rsv s)) s
      | PTail sg ds ph n \<Rightarrow>
          (let k = prod_grant sg (rg s) ph (of_nat (length ds))
           in if k = 0 then goto t (PDone 0) s else goto t (PCas sg ds k ph n) s)
      | PCas sg ds k ph n \<Rightarrow>
          (if prod_head (rg s) = ph \<and> \<not> spur
           then goto t (PWrite sg (take (unat k) ds) ph n)
                  (s\<lparr>rg := (rg s)\<lparr>prod_head := ph + k\<rparr>, plog := plog s @ take (unat k) ds\<rparr>)
           else goto t (PHead sg ds) s)
      | PWrite sg ds ph n \<Rightarrow>
          goto t (PWait ds ph n)
            (s\<lparr>rg := prod_write sg ds ph (rg s)\<rparr>)
      | PWait ds ph n \<Rightarrow> if prod_tail (rg s) \<noteq> ph then s else goto t (PStore ds ph n) s
      | PStore ds ph n \<Rightarrow>
          goto t (PDone (length ds))
            (s\<lparr>rg := (rg s)\<lparr>prod_tail := ph + of_nat (length ds)\<rparr>,
               prod_done := prod_done s + length ds\<rparr>)
      | PDone k \<Rightarrow> s
      | CHead sg n \<Rightarrow> goto t (CTail sg n (cons_head (rg s)) (cons_rsv s)) s
      | CTail sg n ch m \<Rightarrow>
          (let k = cons_grant sg (rg s) ch n
           in if k = 0 then goto t (CDone 0 m []) s else goto t (CCas sg n k ch m) s)
      | CCas sg n k ch m \<Rightarrow>
          (if cons_head (rg s) = ch \<and> \<not> spur
           then goto t (CRead sg k ch m)
                  (s\<lparr>rg := (rg s)\<lparr>cons_head := ch + k\<rparr>, cons_rsv := cons_rsv s + unat k\<rparr>)
           else goto t (CHead sg n) s)
      | CRead sg k ch m \<Rightarrow>
          goto t (CWait k ch m (if sg then slot_read (rg s) ch else run_read (rg s) ch k)) s
      | CWait k ch m out \<Rightarrow> if cons_tail (rg s) \<noteq> ch then s else goto t (CStore k ch m out) s
      | CStore k ch m out \<Rightarrow>
          goto t (CDone k m out)
            (s\<lparr>rg := (rg s)\<lparr>cons_tail := ch + k\<rparr>, cons_done := cons_done s + unat k,
               clog := clog s @ chunks (resz (rg s)) (unat k) out\<rparr>)
      | CDone k m out \<Rightarrow> s)"

text \<open>
  A thread between operations calls one of the four entry points with valid arguments: the
  bulk operations return at once for \<open>n = 0\<close> and are called with \<open>n < 2 ^ 32\<close> elements of
  the ring's element size.
\<close>

definition idle :: "rpc \<Rightarrow> bool" where
  "idle pc = (case pc of Ready \<Rightarrow> True | PDone _ \<Rightarrow> True | CDone _ _ _ \<Rightarrow> True | _ \<Rightarrow> False)"

definition valid_elems :: "chan_ring_lf \<Rightarrow> bool \<Rightarrow> byte list list \<Rightarrow> bool" where
  "valid_elems r sg ds \<longleftrightarrow> ds \<noteq> [] \<and> length ds < 2 ^ 32 \<and> (sg \<longrightarrow> length ds = 1) \<and>
     list_all (\<lambda>d. length d = resz r) ds"

definition valid_call :: "chan_ring_lf \<Rightarrow> rpc \<Rightarrow> bool" where
  "valid_call r pc =
     (case pc of PHead sg ds \<Rightarrow> valid_elems r sg ds
      | CHead sg n \<Rightarrow> n \<noteq> 0 \<and> (sg \<longrightarrow> n = 1) | _ \<Rightarrow> False)"

text \<open>
  The one assumption on schedules: while a thread is between its load of a head cursor and
  its compare-exchange, the cursor does not make a full turn of \<open>2 ^ 32\<close> reservations.
\<close>

definition no_turn :: "cring \<Rightarrow> nat \<Rightarrow> bool" where
  "no_turn s t =
     (case pcs s t of PCas sg ds k ph n \<Rightarrow> prod_rsv s - n < 2 ^ 32
      | CCas sg n k ch m \<Rightarrow> cons_rsv s - m < 2 ^ 32 | _ \<Rightarrow> True)"

inductive ring_step :: "cring \<Rightarrow> cring \<Rightarrow> bool" where
  call: "idle (pcs s t) \<Longrightarrow> valid_call (rg s) pc \<Longrightarrow> ring_step s (goto t pc s)"
| run: "no_turn s t \<Longrightarrow> ring_step s (ring_tstep spur t s)"

definition ring_start :: "chan_ring_lf \<Rightarrow> cring" where
  "ring_start r =
     \<lparr>rg = r, pcs = (\<lambda>_. Ready), plog = [], prod_done = 0, cons_rsv = 0, cons_done = 0,
      clog = []\<rparr>"

inductive ring_reach :: "chan_ring_lf \<Rightarrow> cring \<Rightarrow> bool" for r0 where
  start: "ring_at r0 0 0 \<Longrightarrow> ring_reach r0 (ring_start r0)"
| step: "ring_reach r0 s \<Longrightarrow> ring_step s s' \<Longrightarrow> ring_reach r0 s'"

section \<open>The invariant\<close>

text \<open>The tickets a thread has reserved and not yet committed.\<close>

fun prod_run :: "rpc \<Rightarrow> nat set" where
  "prod_run (PWrite sg ds ph n) = {n..<n + length ds}"
| "prod_run (PWait ds ph n) = {n..<n + length ds}"
| "prod_run (PStore ds ph n) = {n..<n + length ds}"
| "prod_run _ = {}"

fun cons_run :: "rpc \<Rightarrow> nat set" where
  "cons_run (CRead sg k ch m) = {m..<m + unat k}"
| "cons_run (CWait k ch m out) = {m..<m + unat k}"
| "cons_run (CStore k ch m out) = {m..<m + unat k}"
| "cons_run _ = {}"

definition segment :: "nat \<Rightarrow> nat \<Rightarrow> 'a list \<Rightarrow> 'a list" where
  "segment n k xs = take k (drop n xs)"

text \<open>\<open>out\<close> holds the elements with tickets \<open>m\<close> to \<open>m + k - 1\<close>.\<close>

definition pc_seg :: "cring \<Rightarrow> nat \<Rightarrow> nat \<Rightarrow> byte list \<Rightarrow> bool" where
  "pc_seg s k m out \<longleftrightarrow>
     length out = k * resz (rg s) \<and> chunks (resz (rg s)) k out = segment m k (plog s)"

text \<open>What each program counter knows.\<close>

fun pc_inv :: "cring \<Rightarrow> rpc \<Rightarrow> bool" where
  "pc_inv s Ready \<longleftrightarrow> True"
| "pc_inv s (PHead sg ds) \<longleftrightarrow> valid_elems (rg s) sg ds"
| "pc_inv s (PTail sg ds ph n) \<longleftrightarrow> valid_elems (rg s) sg ds \<and> ph = of_nat n \<and> n \<le> prod_rsv s"
| "pc_inv s (PCas sg ds k ph n) \<longleftrightarrow>
     valid_elems (rg s) sg ds \<and> ph = of_nat n \<and> n \<le> prod_rsv s \<and> k \<noteq> 0 \<and> unat k \<le> length ds \<and>
     (n = prod_rsv s \<longrightarrow> n + unat k \<le> cons_done s + rcap (rg s))"
| "pc_inv s (PWrite sg ds ph n) \<longleftrightarrow>
     valid_elems (rg s) sg ds \<and> ph = of_nat n \<and> segment n (length ds) (plog s) = ds"
| "pc_inv s (PWait ds ph n) \<longleftrightarrow>
     ds \<noteq> [] \<and> ph = of_nat n \<and> segment n (length ds) (plog s) = ds \<and>
     (\<forall>d < length ds. ring_slot (rg s) (n + d) = ds ! d)"
| "pc_inv s (PStore ds ph n) \<longleftrightarrow>
     ds \<noteq> [] \<and> ph = of_nat n \<and> segment n (length ds) (plog s) = ds \<and>
     (\<forall>d < length ds. ring_slot (rg s) (n + d) = ds ! d) \<and> n = prod_done s"
| "pc_inv s (PDone k) \<longleftrightarrow> True"
| "pc_inv s (CHead sg n) \<longleftrightarrow> n \<noteq> 0 \<and> (sg \<longrightarrow> n = 1)"
| "pc_inv s (CTail sg n ch m) \<longleftrightarrow> n \<noteq> 0 \<and> (sg \<longrightarrow> n = 1) \<and> ch = of_nat m \<and> m \<le> cons_rsv s"
| "pc_inv s (CCas sg n k ch m) \<longleftrightarrow>
     n \<noteq> 0 \<and> (sg \<longrightarrow> n = 1 \<and> k = 1) \<and> ch = of_nat m \<and> m \<le> cons_rsv s \<and> k \<noteq> 0 \<and>
     (m = cons_rsv s \<longrightarrow> m + unat k \<le> prod_done s)"
| "pc_inv s (CRead sg k ch m) \<longleftrightarrow> (sg \<longrightarrow> k = 1) \<and> ch = of_nat m \<and> k \<noteq> 0"
| "pc_inv s (CWait k ch m out) \<longleftrightarrow>
     ch = of_nat m \<and> k \<noteq> 0 \<and> pc_seg s (unat k) m out"
| "pc_inv s (CStore k ch m out) \<longleftrightarrow>
     ch = of_nat m \<and> k \<noteq> 0 \<and> pc_seg s (unat k) m out \<and> m = cons_done s"
| "pc_inv s (CDone k m out) \<longleftrightarrow>
     pc_seg s (unat k) m out"

definition cursors_ok :: "cring \<Rightarrow> bool" where
  "cursors_ok s \<longleftrightarrow> ring_shape (rg s) \<and>
     prod_head (rg s) = of_nat (prod_rsv s) \<and> prod_tail (rg s) = of_nat (prod_done s) \<and>
     cons_head (rg s) = of_nat (cons_rsv s) \<and> cons_tail (rg s) = of_nat (cons_done s) \<and>
     cons_done s \<le> cons_rsv s \<and> cons_rsv s \<le> prod_done s \<and> prod_done s \<le> prod_rsv s \<and>
     prod_rsv s \<le> cons_done s + rcap (rg s)"

text \<open>The runs in flight are disjoint and fill the gap between committed and reserved.\<close>

definition runs_ok :: "(nat \<Rightarrow> nat set) \<Rightarrow> nat \<Rightarrow> nat \<Rightarrow> bool" where
  "runs_ok run lo hi \<longleftrightarrow> (\<forall>i t t'. i \<in> run t \<longrightarrow> i \<in> run t' \<longrightarrow> t = t') \<and>
     (\<forall>i. (\<exists>t. i \<in> run t) \<longleftrightarrow> lo \<le> i \<and> i < hi)"

definition content_ok :: "cring \<Rightarrow> bool" where
  "content_ok s \<longleftrightarrow>
     (\<forall>i. cons_done s \<le> i \<longrightarrow> i < prod_done s \<longrightarrow> ring_slot (rg s) i = plog s ! i) \<and>
     clog s = take (cons_done s) (plog s)"

definition ring_cinv :: "cring \<Rightarrow> bool" where
  "ring_cinv s \<longleftrightarrow> cursors_ok s \<and> (\<forall>t. pc_inv s (pcs s t)) \<and>
     runs_ok (\<lambda>t. prod_run (pcs s t)) (prod_done s) (prod_rsv s) \<and>
     runs_ok (\<lambda>t. cons_run (pcs s t)) (cons_done s) (cons_rsv s) \<and> content_ok s"

section \<open>Frame lemmas\<close>

lemma segment_append:
  "length (segment n k xs) = k \<Longrightarrow> segment n k (xs @ ys) = segment n k xs"
  by (auto simp: segment_def min_def split: if_splits)

lemma segment_bound: "segment n k xs = ys \<Longrightarrow> length ys = k \<Longrightarrow> k \<noteq> 0 \<Longrightarrow> n + k \<le> length xs"
  by (auto simp: segment_def)

lemma nth_segment: "n + k \<le> length xs \<Longrightarrow> d < k \<Longrightarrow> segment n k xs ! d = xs ! (n + d)"
  by (simp add: segment_def)

lemma length_segment: "n + k \<le> length xs \<Longrightarrow> length (segment n k xs) = k"
  by (simp add: segment_def)

text \<open>
  What a step of another thread may do without disturbing a program counter: append to the
  log, move counters up, and write slots the thread has not reserved.
\<close>

lemma pc_inv_frame:
  assumes "pc_inv s pc"
    and "plog s' = plog s @ xs" "cons_rsv s \<le> cons_rsv s'" "cons_done s \<le> cons_done s'"
      "prod_done s \<le> prod_done s'" "rcap (rg s') = rcap (rg s)" "resz (rg s') = resz (rg s)"
    and "\<And>i. i \<in> prod_run pc \<Longrightarrow> ring_slot (rg s') i = ring_slot (rg s) i"
    and "\<And>ds ph n. pc = PStore ds ph n \<Longrightarrow> prod_done s' = prod_done s"
    and "\<And>k ch m out. pc = CStore k ch m out \<Longrightarrow> cons_done s' = cons_done s"
  shows "pc_inv s' pc"
proof -
  have seg: "segment n (length ds) (plog s') = ds" if "segment n (length ds) (plog s) = ds" for n ds
    using that segment_append [of n "length ds" "plog s" xs] assms(2) by simp
  have cseg: "chunks (resz (rg s)) k out = segment m k (plog s')"
    if "chunks (resz (rg s)) k out = segment m k (plog s)" for k m out
    using that segment_append [of m k "plog s" xs] assms(2) by (metis length_chunks)
  have cseg: "pc_seg s' k m out" if "pc_seg s k m out" for k m out
    using that cseg [of k out m] by (simp add: pc_seg_def assms(7))
  have val: "valid_elems (rg s') = valid_elems (rg s)"
    by (simp add: valid_elems_def assms(7) fun_eq_iff)
  have len: "prod_rsv s \<le> prod_rsv s'" by (simp add: assms(2))
  note slot = assms(8)
  show ?thesis
  proof (cases pc)
    case (PWrite sg ds ph n)
    with assms(1) show ?thesis by (simp add: val seg)
  next
    case (PWait ds ph n)
    have "d < length ds \<Longrightarrow> ring_slot (rg s') (n + d) = ring_slot (rg s) (n + d)" for d
      by (rule slot) (simp add: PWait)
    with assms(1) show ?thesis by (simp add: PWait seg)
  next
    case (PStore ds ph n)
    have "d < length ds \<Longrightarrow> ring_slot (rg s') (n + d) = ring_slot (rg s) (n + d)" for d
      by (rule slot) (simp add: PStore)
    with assms(1) seg [of n ds] assms(9) [OF PStore] show ?thesis
      unfolding PStore pc_inv.simps by metis
  next
    case (PCas sg ds k ph n)
    with assms(1,4,6) len show ?thesis by (auto simp: val)
  next
    case (CCas sg n k ch m)
    with assms(1,3,5) show ?thesis by auto
  next
    case (CWait k ch m out)
    with assms(1) cseg show ?thesis by (simp add: assms(7))
  next
    case (CStore k ch m out)
    with assms(1) cseg [of "unat k" m out] assms(10) [OF CStore] show ?thesis
      unfolding CStore pc_inv.simps by metis
  next
    case (CDone k m out)
    with assms(1) cseg show ?thesis by (simp add: assms(7))
  qed (use assms(1,3,7) len val in simp_all)
qed

text \<open>The runs when one program counter changes.\<close>

lemma run_goto: "(\<lambda>t'. f (((pcs s)(t := pc)) t')) = (\<lambda>t'. f (pcs s t'))(t := f pc)"
  by (simp add: fun_eq_iff)

lemma runs_okD: "runs_ok run lo hi \<Longrightarrow> i \<in> run t \<Longrightarrow> lo \<le> i \<and> i < hi"
  by (auto simp: runs_ok_def)

lemma runs_ok_unique: "runs_ok run lo hi \<Longrightarrow> i \<in> run t \<Longrightarrow> i \<in> run t' \<Longrightarrow> t = t'"
  by (simp add: runs_ok_def)

lemma runs_ok_reserve:
  assumes "runs_ok run lo hi" "run t = {}" "lo \<le> hi"
  shows "runs_ok (run(t := {hi..<hi + k})) lo (hi + k)"
proof -
  have "hi \<le> i \<Longrightarrow> i \<notin> run x" for i x using runs_okD [OF assms(1), of i x] by auto
  moreover have "(\<exists>x. i \<in> (run(t := {hi..<hi + k})) x) \<longleftrightarrow> i \<in> {hi..<hi + k} \<or> (\<exists>x. i \<in> run x)" for i
    using assms(2) by (metis empty_iff fun_upd_apply)
  ultimately show ?thesis using assms by (auto simp: runs_ok_def)
qed

lemma runs_ok_commit:
  assumes "runs_ok run lo hi" "run t = {lo..<lo + k}"
  shows "runs_ok (run(t := {})) (lo + k) hi"
proof -
  have uni: "i \<in> run x \<Longrightarrow> i \<in> run t \<Longrightarrow> x = t" for i x
    using runs_ok_unique [OF assms(1)] by blast
  have "(\<exists>x. i \<in> (run(t := {})) x) \<longleftrightarrow> (\<exists>x. i \<in> run x) \<and> i \<notin> run t" for i
    using uni by (metis empty_iff fun_upd_apply)
  then show ?thesis using assms by (auto simp: runs_ok_def)
qed

section \<open>Preservation\<close>

lemma pc_inv_goto [simp]: "pc_inv (goto t pc' s) pc = pc_inv s pc"
  by (cases pc) (simp_all add: pc_seg_def)

lemmas cinv_defs = ring_cinv_def cursors_ok_def content_ok_def

text \<open>A step that only moves a program counter, with the same reserved tickets.\<close>

lemma cinv_local:
  assumes "ring_cinv s" "pc_inv s pc"
    and "prod_run pc = prod_run (pcs s t)" "cons_run pc = cons_run (pcs s t)"
  shows "ring_cinv (goto t pc s)"
proof -
  have "(\<lambda>x. f (((pcs s)(t := pc)) x)) = (\<lambda>x. f (pcs s x))" if "f pc = f (pcs s t)"
    for f :: "rpc \<Rightarrow> nat set"
    using that by (simp add: fun_eq_iff)
  with assms show ?thesis by (simp add: cinv_defs)
qed

text \<open>A step that also changes the ring.\<close>

lemma cinv_shared:
  assumes I: "ring_cinv s" and pcs: "pcs s' = (pcs s)(t := pc)" and pc: "pc_inv s' pc"
    and log: "plog s' = plog s @ xs"
    and mono: "cons_rsv s \<le> cons_rsv s'" "cons_done s \<le> cons_done s'" "prod_done s \<le> prod_done s'"
      "rcap (rg s') = rcap (rg s)" "resz (rg s') = resz (rg s)"
    and slot: "\<And>x i. x \<noteq> t \<Longrightarrow> i \<in> prod_run (pcs s x) \<Longrightarrow> ring_slot (rg s') i = ring_slot (rg s) i"
    and pst: "\<And>x ds ph n. x \<noteq> t \<Longrightarrow> pcs s x = PStore ds ph n \<Longrightarrow> prod_done s' = prod_done s"
    and cst: "\<And>x k ch m out. x \<noteq> t \<Longrightarrow> pcs s x = CStore k ch m out \<Longrightarrow> cons_done s' = cons_done s"
    and new: "cursors_ok s'" "content_ok s'"
      "runs_ok ((\<lambda>x. prod_run (pcs s x))(t := prod_run pc)) (prod_done s') (prod_rsv s')"
      "runs_ok ((\<lambda>x. cons_run (pcs s x))(t := cons_run pc)) (cons_done s') (cons_rsv s')"
  shows "ring_cinv s'"
proof -
  have "pc_inv s' (pcs s x)" if "x \<noteq> t" for x
    by (rule pc_inv_frame [of s "pcs s x" s' xs, OF _ log mono])
      (use I that slot pst cst in \<open>auto simp: ring_cinv_def\<close>)
  with pc have "\<forall>x. pc_inv s' (pcs s' x)" by (simp add: pcs)
  with new show ?thesis unfolding ring_cinv_def pcs run_goto by blast
qed

lemma prod_grant_bound:
  assumes "cursors_ok s" "l \<noteq> 0" "l < 2 ^ 32" "sg \<longrightarrow> l = 1"
  shows "unat (prod_grant sg (rg s) ph (of_nat l)) \<le> l"
    and "prod_rsv s + unat (prod_grant sg (rg s) (of_nat (prod_rsv s)) (of_nat l))
           \<le> cons_done s + rcap (rg s)"
proof -
  have l: "unat (of_nat l :: u32) = l"
    using assms(3) by (simp add: unsigned_of_nat take_bit_nat_eq_self)
  show "unat (prod_grant sg (rg s) ph (of_nat l)) \<le> l"
    using assms(2,4) l by (auto simp: prod_grant_def Let_def word_less_nat_alt)
  have c: "cons_tail (rg s) = of_nat (cons_done s)" "cons_done s \<le> prod_rsv s"
    "prod_rsv s - cons_done s \<le> rcap (rg s)" "rcap (rg s) < 2 ^ 32"
    using assms(1) ring_shape_cap(3) by (auto simp: cursors_ok_def)
  then have used: "unat (of_nat (prod_rsv s) - cons_tail (rg s)) = prod_rsv s - cons_done s"
    by (simp add: of_nat_diff_u32)
  have "unat (ring_capacity (rg s) - (of_nat (prod_rsv s) - cons_tail (rg s)))
      = rcap (rg s) - (prod_rsv s - cons_done s)"
    using c(3) used by (simp add: unat_sub word_le_nat_alt rcap_def)
  then show "prod_rsv s + unat (prod_grant sg (rg s) (of_nat (prod_rsv s)) (of_nat l))
      \<le> cons_done s + rcap (rg s)"
    using c used by (auto simp: prod_grant_def Let_def word_le_nat_alt word_less_nat_alt rcap_def)
qed

lemma cons_grant_bound:
  assumes "cursors_ok s" "n \<noteq> 0" "sg \<longrightarrow> n = 1"
  shows "sg \<Longrightarrow> cons_grant sg (rg s) ch n \<noteq> 0 \<Longrightarrow> cons_grant sg (rg s) ch n = 1"
    and "cons_rsv s + unat (cons_grant sg (rg s) (of_nat (cons_rsv s)) n) \<le> prod_done s"
proof -
  show "sg \<Longrightarrow> cons_grant sg (rg s) ch n \<noteq> 0 \<Longrightarrow> cons_grant sg (rg s) ch n = 1"
    by (auto simp: cons_grant_def Let_def split: if_splits)
  have c: "prod_tail (rg s) = of_nat (prod_done s)" "cons_rsv s \<le> prod_done s"
    "prod_done s - cons_rsv s < 2 ^ 32"
    using assms(1) ring_shape_cap(3) [of "rg s"] by (auto simp: cursors_ok_def)
  then show "cons_rsv s + unat (cons_grant sg (rg s) (of_nat (cons_rsv s)) n) \<le> prod_done s"
    by (auto simp: cons_grant_def Let_def word_less_nat_alt of_nat_diff_u32 of_nat_eq_u32)
qed

lemma cinvD:
  assumes "ring_cinv s"
  shows "ring_shape (rg s)" "pc_inv s (pcs s t)"
    "runs_ok (\<lambda>t. prod_run (pcs s t)) (prod_done s) (prod_rsv s)"
    "runs_ok (\<lambda>t. cons_run (pcs s t)) (cons_done s) (cons_rsv s)"
    "cons_done s \<le> cons_rsv s" "cons_rsv s \<le> prod_done s" "prod_done s \<le> prod_rsv s"
    "prod_rsv s \<le> cons_done s + rcap (rg s)"
    "cursors_ok s" "content_ok s"
  using assms by (simp_all add: cinv_defs)

lemma runs_same: "(\<lambda>x. f (pcs s x)) = (\<lambda>x. f (pcs s x))(t := f (pcs s t))"
  by (simp add: fun_eq_iff)

lemma cinv_prod_reserve:
  assumes I: "ring_cinv s" and pc: "pcs s t = PCas sg ds k ph n" and n: "n = prod_rsv s"
  shows "ring_cinv (goto t (PWrite sg (take (unat k) ds) ph n)
    (s\<lparr>rg := (rg s)\<lparr>prod_head := ph + k\<rparr>, plog := plog s @ take (unat k) ds\<rparr>))"
    (is "ring_cinv ?s'")
proof (rule cinv_shared [OF I, where t = t and pc = "PWrite sg (take (unat k) ds) ph n"
      and xs = "take (unat k) ds"])
  note D = cinvD [OF I]
  have P: "valid_elems (rg s) sg ds" "ph = of_nat n" "k \<noteq> 0" "unat k \<le> length ds"
    "n + unat k \<le> cons_done s + rcap (rg s)"
    using D(2) [of t] n by (simp_all add: pc)
  have k: "0 < unat k" using P(3) by (simp add: unat_gt_0)
  have "valid_elems (rg s) sg (take (unat k) ds)"
    using P(1,4) k by (auto simp: valid_elems_def list_all_length)
  then show "pc_inv ?s' (PWrite sg (take (unat k) ds) ph n)"
    using P by (simp add: n segment_def valid_elems_def)
  show "cursors_ok ?s'" using D(9) P by (simp add: cursors_ok_def n)
  show "content_ok ?s'" using D(5-7,10) by (simp add: content_ok_def nth_append)
  show "runs_ok ((\<lambda>x. prod_run (pcs s x))(t := prod_run (PWrite sg (take (unat k) ds) ph n)))
      (prod_done ?s') (prod_rsv ?s')"
    using runs_ok_reserve [OF D(3), of t "unat k"] D(7) P by (simp add: pc n)
  show "runs_ok ((\<lambda>x. cons_run (pcs s x))(t := cons_run (PWrite sg (take (unat k) ds) ph n)))
      (cons_done ?s') (cons_rsv ?s')"
    using D(4) runs_same [of cons_run s t] by (simp add: pc)
qed simp_all

lemma cinv_cons_reserve:
  assumes I: "ring_cinv s" and pc: "pcs s t = CCas sg n k ch m" and m: "m = cons_rsv s"
  shows "ring_cinv (goto t (CRead sg k ch m)
    (s\<lparr>rg := (rg s)\<lparr>cons_head := ch + k\<rparr>, cons_rsv := cons_rsv s + unat k\<rparr>))"
    (is "ring_cinv ?s'")
proof (rule cinv_shared [OF I, where t = t and pc = "CRead sg k ch m" and xs = "[]"])
  note D = cinvD [OF I]
  have P: "sg \<longrightarrow> k = 1" "ch = of_nat m" "k \<noteq> 0" "m + unat k \<le> prod_done s"
    using D(2) [of t] m by (simp_all add: pc)
  show "pc_inv ?s' (CRead sg k ch m)" using P by simp
  show "cursors_ok ?s'" using D(9) P by (simp add: cursors_ok_def m)
  show "content_ok ?s'" using D(10) by (simp add: content_ok_def)
  show "runs_ok ((\<lambda>x. cons_run (pcs s x))(t := cons_run (CRead sg k ch m)))
      (cons_done ?s') (cons_rsv ?s')"
    using runs_ok_reserve [OF D(4), of t "unat k"] D(5) by (simp add: pc m)
  show "runs_ok ((\<lambda>x. prod_run (pcs s x))(t := prod_run (CRead sg k ch m)))
      (prod_done ?s') (prod_rsv ?s')"
    using D(3) runs_same [of prod_run s t] by (simp add: pc)
qed simp_all

lemma cinv_prod_commit:
  assumes I: "ring_cinv s" and pc: "pcs s t = PStore ds ph n"
  shows "ring_cinv (goto t (PDone (length ds))
    (s\<lparr>rg := (rg s)\<lparr>prod_tail := ph + of_nat (length ds)\<rparr>, prod_done := prod_done s + length ds\<rparr>))"
    (is "ring_cinv ?s'")
proof (rule cinv_shared [OF I, where t = t and pc = "PDone (length ds)" and xs = "[]"])
  note D = cinvD [OF I]
  have P: "ds \<noteq> []" "ph = of_nat n" "segment n (length ds) (plog s) = ds" "n = prod_done s"
    "\<And>d. d < length ds \<Longrightarrow> ring_slot (rg s) (n + d) = ds ! d"
    using D(2) [of t] unfolding pc pc_inv.simps by blast+
  have le: "n + length ds \<le> prod_rsv s" using segment_bound [OF P(3)] P(1) by simp
  show "cursors_ok ?s'" using D(9) P(2,4) le by (simp add: cursors_ok_def)
  have "ring_slot (rg s) i = plog s ! i" if "n \<le> i" "i < n + length ds" for i
    using that P(5) [of "i - n"] nth_segment [OF le, of "i - n"] P(3) by simp
  then show "content_ok ?s'" using D(10) P(4) by (simp add: content_ok_def) (metis not_less)
  show "runs_ok ((\<lambda>x. prod_run (pcs s x))(t := prod_run (PDone (length ds))))
      (prod_done ?s') (prod_rsv ?s')"
    using runs_ok_commit [OF D(3), of t "length ds"] P(4) by (simp add: pc)
  show "runs_ok ((\<lambda>x. cons_run (pcs s x))(t := cons_run (PDone (length ds))))
      (cons_done ?s') (cons_rsv ?s')"
    using D(4) runs_same [of cons_run s t] by (simp add: pc)
  fix x es ph' n' assume x: "x \<noteq> t" "pcs s x = PStore es ph' n'"
  then have "n' = prod_done s" "es \<noteq> []" using D(2) [of x] unfolding x pc_inv.simps by blast+
  then have "prod_done s \<in> prod_run (pcs s x)" "prod_done s \<in> prod_run (pcs s t)"
    using P(1,4) by (simp_all add: x pc)
  with runs_ok_unique [OF D(3)] x(1) show "prod_done ?s' = prod_done s" by blast
qed simp_all

lemma cinv_cons_commit:
  assumes I: "ring_cinv s" and pc: "pcs s t = CStore k ch m out"
  shows "ring_cinv (goto t (CDone k m out)
    (s\<lparr>rg := (rg s)\<lparr>cons_tail := ch + k\<rparr>, cons_done := cons_done s + unat k,
       clog := clog s @ chunks (resz (rg s)) (unat k) out\<rparr>))"
    (is "ring_cinv ?s'")
proof (rule cinv_shared [OF I, where t = t and pc = "CDone k m out" and xs = "[]"])
  note D = cinvD [OF I]
  have P: "ch = of_nat m" "k \<noteq> 0" "pc_seg s (unat k) m out" "m = cons_done s"
    using D(2) [of t] unfolding pc pc_inv.simps by blast+
  have k: "0 < unat k" using P(2) by (simp add: unat_gt_0)
  have "m + unat k - 1 \<in> cons_run (pcs s t)" using k by (simp add: pc)
  then have "m + unat k - 1 < cons_rsv s" using runs_okD [OF D(4)] by blast
  then have le: "m + unat k \<le> cons_rsv s" using k by linarith
  show "pc_inv ?s' (CDone k m out)" using P(3) by (simp add: pc_seg_def)
  show "cursors_ok ?s'" using D(9) P(1,4) le by (simp add: cursors_ok_def)
  have "clog s @ segment m (unat k) (plog s) = take (m + unat k) (plog s)"
    using D(10) P(4) by (simp add: content_ok_def segment_def take_add)
  then show "content_ok ?s'" using D(10) P(3,4) by (simp add: content_ok_def pc_seg_def)
  show "runs_ok ((\<lambda>x. cons_run (pcs s x))(t := cons_run (CDone k m out)))
      (cons_done ?s') (cons_rsv ?s')"
    using runs_ok_commit [OF D(4), of t "unat k"] P(4) by (simp add: pc)
  show "runs_ok ((\<lambda>x. prod_run (pcs s x))(t := prod_run (CDone k m out)))
      (prod_done ?s') (prod_rsv ?s')"
    using D(3) runs_same [of prod_run s t] by (simp add: pc)
  fix x j ch' m' out' assume x: "x \<noteq> t" "pcs s x = CStore j ch' m' out'"
  then have "m' = cons_done s" "j \<noteq> 0" using D(2) [of x] unfolding x pc_inv.simps by blast+
  then have "cons_done s \<in> cons_run (pcs s x)" "cons_done s \<in> cons_run (pcs s t)"
    using k P(4) by (simp_all add: x pc unat_gt_0)
  with runs_ok_unique [OF D(4)] x(1) show "cons_done ?s' = cons_done s" by blast
qed simp_all

lemma memread_concat:
  "list_all (\<lambda>d. length d = es) ds \<Longrightarrow> i < length ds \<Longrightarrow> memread (concat ds) (i * es) es = ds ! i"
proof (induction ds arbitrary: i)
  case (Cons d ds)
  show ?case
  proof (cases i)
    case 0
    with Cons.prems show ?thesis by (simp add: memread_append1 memread_all)
  next
    case (Suc j)
    with Cons show ?thesis by (simp add: memread_append2)
  qed
qed simp

lemma length_concat_elems: "list_all (\<lambda>d. length d = es) ds \<Longrightarrow> length (concat ds) = length ds * es"
  by (induction ds) auto

text \<open>Phase 2 of a producer: it writes its own tickets and no other of the window.\<close>

lemma prod_write_fields [simp]:
  "prod_head (prod_write sg ds ph r) = prod_head r" "prod_tail (prod_write sg ds ph r) = prod_tail r"
  "cons_head (prod_write sg ds ph r) = cons_head r" "cons_tail (prod_write sg ds ph r) = cons_tail r"
  "rcap (prod_write sg ds ph r) = rcap r" "resz (prod_write sg ds ph r) = resz r"
  by (simp_all add: prod_write_def)

lemma prod_write_ticket:
  assumes r: "ring_shape r" and v: "valid_elems r sg ds" and k: "length ds \<le> rcap r"
  shows "ring_shape (prod_write sg ds (of_nat n) r)"
    and "d < length ds \<Longrightarrow> ring_slot (prod_write sg ds (of_nat n) r) (n + d) = ds ! d"
    and "(\<And>d. d < length ds \<Longrightarrow> j mod rcap r \<noteq> (n + d) mod rcap r) \<Longrightarrow>
      ring_slot (prod_write sg ds (of_nat n) r) j = ring_slot r j"
proof -
  have el: "list_all (\<lambda>d. length d = resz r) ds" and ne: "ds \<noteq> []" and one: "sg \<Longrightarrow> length ds = 1"
    and l: "unat (of_nat (length ds) :: u32) = length ds"
    using v by (auto simp: valid_elems_def unsigned_of_nat take_bit_nat_eq_self)
  have hd: "length (hd ds) = resz r" using el ne by (cases ds) auto
  note S = slot_write_ticket [OF r, where i = n and data = "hd ds"]
  note R = run_write_ticket [OF r, where i = n and k = "of_nat (length ds)" and data = "concat ds",
    unfolded l, OF k]
  note len = length_concat_elems [OF el]
  show "ring_shape (prod_write sg ds (of_nat n) r)"
    using S(1) R(1) hd len by (simp add: prod_write_def)
  show "ring_slot (prod_write sg ds (of_nat n) r) (n + d) = ds ! d" if "d < length ds"
    using S(2) [of "n + d"] R(2) [of d] hd len memread_concat [OF el that] that one ne
    by (auto simp: prod_write_def hd_conv_nth)
  show "ring_slot (prod_write sg ds (of_nat n) r) j = ring_slot r j"
    if "\<And>d. d < length ds \<Longrightarrow> j mod rcap r \<noteq> (n + d) mod rcap r"
    using S(2) [of j] R(3) [of j] that [of 0] that hd len ne by (auto simp: prod_write_def)
qed

lemma cinv_prod_write:
  assumes I: "ring_cinv s" and pc: "pcs s t = PWrite sg ds ph n"
  shows "ring_cinv (goto t (PWait ds ph n) (s\<lparr>rg := prod_write sg ds ph (rg s)\<rparr>))"
    (is "ring_cinv ?s'")
proof (rule cinv_shared [OF I, where t = t and pc = "PWait ds ph n" and xs = "[]"])
  note D = cinvD [OF I]
  have P: "valid_elems (rg s) sg ds" "ph = of_nat n" "segment n (length ds) (plog s) = ds"
    using D(2) [of t] by (simp_all add: pc)
  have ne: "ds \<noteq> []" using P(1) by (simp add: valid_elems_def)
  have run: "prod_done s \<le> n + d" "n + d < prod_rsv s" if "d < length ds" for d
    using runs_okD [OF D(3), of "n + d" t] that by (simp_all add: pc)
  have "n + (length ds - 1) < prod_rsv s" using ne by (intro run) simp
  then have k: "length ds \<le> rcap (rg s)" using run(1) [of 0] ne D(5-8) by simp
  note W = prod_write_ticket [OF D(1) P(1) k]
  have other: "ring_slot (prod_write sg ds ph (rg s)) i = ring_slot (rg s) i"
    if i: "cons_done s \<le> i" "i < prod_rsv s" "i \<notin> {n..<n + length ds}" for i
  proof -
    have "i mod rcap (rg s) \<noteq> (n + d) mod rcap (rg s)" if d: "d < length ds" for d
    proof
      assume "i mod rcap (rg s) = (n + d) mod rcap (rg s)"
      moreover have "i < n + d + rcap (rg s)" "n + d < i + rcap (rg s)"
        using run [OF d] i D(5-8) by linarith+
      ultimately have "i = n + d" by (rule mod_window_inj)
      with i(3) d show False by simp
    qed
    then show ?thesis unfolding P(2) by (rule W(3))
  qed
  show "pc_inv ?s' (PWait ds ph n)" using P W(2) [where n = n] ne by (simp add: segment_def)
  show "cursors_ok ?s'" using D(9) W(1) [of n] by (simp add: cursors_ok_def P(2))
  have "prod_done s \<le> n" using run(1) [of 0] ne by simp
  then have "ring_slot (prod_write sg ds ph (rg s)) i = ring_slot (rg s) i"
    if "cons_done s \<le> i" "i < prod_done s" for i
    using that D(7) by (intro other) auto
  then show "content_ok ?s'" using D(10) by (simp add: content_ok_def)
  show "runs_ok ((\<lambda>x. prod_run (pcs s x))(t := prod_run (PWait ds ph n))) (prod_done ?s') (prod_rsv ?s')"
    using D(3) runs_same [of prod_run s t] by (simp add: pc)
  show "runs_ok ((\<lambda>x. cons_run (pcs s x))(t := cons_run (PWait ds ph n))) (cons_done ?s') (cons_rsv ?s')"
    using D(4) runs_same [of cons_run s t] by (simp add: pc)
  fix x i assume x: "x \<noteq> t" "i \<in> prod_run (pcs s x)"
  then have "i \<notin> prod_run (pcs s t)" using runs_ok_unique [OF D(3)] by blast
  with runs_okD [OF D(3) x(2)] D(5,6) show "ring_slot (rg ?s') i = ring_slot (rg s) i"
    by (simp add: other pc)
qed simp_all

text \<open>Phase 2 of a consumer: it reads what was logged under its tickets.\<close>

lemma cinv_cons_read:
  assumes I: "ring_cinv s" and pc: "pcs s t = CRead sg k ch m"
  shows "ring_cinv (goto t (CWait k ch m (if sg then slot_read (rg s) ch else run_read (rg s) ch k)) s)"
proof (rule cinv_local [OF I])
  note D = cinvD [OF I]
  let ?out = "if sg then slot_read (rg s) ch else run_read (rg s) ch k"
  have P: "sg \<longrightarrow> k = 1" "ch = of_nat m" "k \<noteq> 0" using D(2) [of t] by (simp_all add: pc)
  have k: "0 < unat k" using P(3) by (simp add: unat_gt_0)
  have run: "cons_done s \<le> m + d" "m + d < cons_rsv s" if "d < unat k" for d
    using runs_okD [OF D(4), of "m + d" t] that by (simp_all add: pc)
  have end_run: "m + (unat k - 1) < cons_rsv s" using k by (intro run) simp
  then have cap: "unat k \<le> rcap (rg s)" using run(1) [of 0] k D(6-8) by simp
  note R = run_read_ticket [OF D(1) cap, of m]
  have es: "length (ring_slot (rg s) m) = resz (rg s)"
    using slot_in_bounds [OF D(1), of m] by (simp add: ring_slot_def)
  have len: "length ?out = unat k * resz (rg s)"
    using R(1) P es by (auto simp: slot_read_ticket [OF D(1)])
  have slot: "memread ?out (d * resz (rg s)) (resz (rg s)) = plog s ! (m + d)" if d: "d < unat k" for d
  proof -
    have "ring_slot (rg s) (m + d) = plog s ! (m + d)"
      using D(10) run [OF d] D(6) by (simp add: content_ok_def)
    then show ?thesis
      using run_read_ticket(2) [OF D(1) cap d, of m] P d es
      by (auto simp: slot_read_ticket [OF D(1)] memread_all)
  qed
  have "m + unat k \<le> prod_rsv s" using end_run k D(6,7) by linarith
  then have "chunks (resz (rg s)) (unat k) ?out = segment m (unat k) (plog s)"
    by (intro nth_equalityI) (simp_all add: length_segment nth_segment slot)
  with len P show "pc_inv s (CWait k ch m ?out)" by (simp add: pc_seg_def)
qed (simp_all add: pc)

text \<open>The tests of Phase 1 and Phase 3, and the compare-exchange.\<close>

lemma cursorD:
  assumes "ring_cinv s"
  shows "prod_head (rg s) = of_nat (prod_rsv s)" "prod_tail (rg s) = of_nat (prod_done s)"
    "cons_head (rg s) = of_nat (cons_rsv s)" "cons_tail (rg s) = of_nat (cons_done s)"
  using cinvD(9) [OF assms] by (simp_all add: cursors_ok_def)

lemma cinv_prod_tail:
  assumes I: "ring_cinv s" and pc: "pcs s t = PTail sg ds ph n"
  shows "ring_cinv (ring_tstep spur t s)"
proof -
  define k where "k = prod_grant sg (rg s) ph (of_nat (length ds))"
  have "k \<noteq> 0 \<Longrightarrow> pc_inv s (PCas sg ds k ph n)"
    using cinvD(2) [OF I, of t] prod_grant_bound [OF cinvD(9) [OF I], of "length ds" sg]
    by (auto simp: pc k_def valid_elems_def)
  then show ?thesis
    by (simp add: ring_tstep_def pc cinv_local [OF I] del: pc_inv.simps(4) flip: k_def)
qed

lemma cinv_cons_tail:
  assumes I: "ring_cinv s" and pc: "pcs s t = CTail sg n ch m"
  shows "ring_cinv (ring_tstep spur t s)"
proof -
  define k where "k = cons_grant sg (rg s) ch n"
  have "k \<noteq> 0 \<Longrightarrow> pc_inv s (CCas sg n k ch m)"
    using cinvD(2) [OF I, of t] cons_grant_bound [OF cinvD(9) [OF I], of n sg]
    by (auto simp: pc k_def)
  moreover have "pc_inv s (CDone 0 m [])" by (simp add: pc_seg_def segment_def chunks_def)
  ultimately show ?thesis
    by (simp add: ring_tstep_def pc cinv_local [OF I] del: pc_inv.simps flip: k_def)
qed

lemma cinv_prod_wait:
  assumes I: "ring_cinv s" and pc: "pcs s t = PWait ds ph n"
  shows "prod_tail (rg s) = ph \<Longrightarrow> n = prod_done s" and "ring_cinv (ring_tstep spur t s)"
proof -
  note D = cinvD [OF I] and pci = cinvD(2) [OF I, of t]
  have "n \<in> prod_run (pcs s t)" using pci by (simp add: pc)
  then have "prod_done s \<le> n" "n < prod_rsv s" using runs_okD [OF D(3)] by blast+
  then show n: "prod_tail (rg s) = ph \<Longrightarrow> n = prod_done s"
    using pci cursorD [OF I] of_nat_eq_u32 [of "prod_done s" n] ring_shape_cap(3) [OF D(1)] D(5-8)
    by (simp add: pc)
  with pci have "prod_tail (rg s) = ph \<Longrightarrow> pc_inv s (PStore ds ph n)"
    unfolding pc pc_inv.simps by blast
  with I show "ring_cinv (ring_tstep spur t s)"
    by (simp add: ring_tstep_def pc cinv_local [OF I] del: pc_inv.simps)
qed

lemma cinv_cons_wait:
  assumes I: "ring_cinv s" and pc: "pcs s t = CWait k ch m out"
  shows "cons_tail (rg s) = ch \<Longrightarrow> m = cons_done s" and "ring_cinv (ring_tstep spur t s)"
proof -
  note D = cinvD [OF I] and pci = cinvD(2) [OF I, of t]
  have "m \<in> cons_run (pcs s t)" using pci by (simp add: pc unat_gt_0)
  then have "cons_done s \<le> m" "m < cons_rsv s" using runs_okD [OF D(4)] by blast+
  then show m: "cons_tail (rg s) = ch \<Longrightarrow> m = cons_done s"
    using pci cursorD [OF I] of_nat_eq_u32 [of "cons_done s" m] ring_shape_cap(3) [OF D(1)] D(5-8)
    by (simp add: pc)
  with pci have "cons_tail (rg s) = ch \<Longrightarrow> pc_inv s (CStore k ch m out)"
    unfolding pc pc_inv.simps by blast
  with I show "ring_cinv (ring_tstep spur t s)"
    by (simp add: ring_tstep_def pc cinv_local [OF I] del: pc_inv.simps)
qed

lemma cinv_prod_cas:
  assumes I: "ring_cinv s" and turn: "no_turn s t" and pc: "pcs s t = PCas sg ds k ph n"
  shows "ring_cinv (ring_tstep spur t s)"
proof -
  note pci = cinvD(2) [OF I, of t]
  have "n = prod_rsv s" if "prod_head (rg s) = ph"
    using that pci turn cursorD [OF I] of_nat_eq_u32 [of n "prod_rsv s"] by (simp add: pc no_turn_def)
  moreover have "ring_cinv (goto t (PHead sg ds) s)"
    using pci by (intro cinv_local [OF I]) (simp_all add: pc)
  ultimately show ?thesis using cinv_prod_reserve [OF I pc] by (simp add: ring_tstep_def pc)
qed

lemma cinv_cons_cas:
  assumes I: "ring_cinv s" and turn: "no_turn s t" and pc: "pcs s t = CCas sg n k ch m"
  shows "ring_cinv (ring_tstep spur t s)"
proof -
  note pci = cinvD(2) [OF I, of t]
  have "m = cons_rsv s" if "cons_head (rg s) = ch"
    using that pci turn cursorD [OF I] of_nat_eq_u32 [of m "cons_rsv s"] by (simp add: pc no_turn_def)
  moreover have "ring_cinv (goto t (CHead sg n) s)"
    using pci by (intro cinv_local [OF I]) (simp_all add: pc)
  ultimately show ?thesis using cinv_cons_reserve [OF I pc] by (simp add: ring_tstep_def pc)
qed

theorem ring_tstep_cinv:
  assumes I: "ring_cinv s" and turn: "no_turn s t"
  shows "ring_cinv (ring_tstep spur t s)"
proof (cases "pcs s t")
  case (PHead sg ds)
  with cinvD(2) [OF I, of t] cursorD [OF I] show ?thesis by (simp add: ring_tstep_def cinv_local [OF I])
next
  case (CHead sg n)
  with cinvD(2) [OF I, of t] cursorD [OF I] show ?thesis by (simp add: ring_tstep_def cinv_local [OF I])
next
  case (PWrite sg ds ph n)
  with cinv_prod_write [OF I PWrite] show ?thesis by (simp add: ring_tstep_def)
next
  case (PStore ds ph n)
  with cinv_prod_commit [OF I PStore] show ?thesis by (simp add: ring_tstep_def)
next
  case (CStore k ch m out)
  with cinv_cons_commit [OF I CStore] show ?thesis by (simp add: ring_tstep_def)
next
  case (CRead sg k ch m)
  with cinv_cons_read [OF I CRead] show ?thesis by (simp add: ring_tstep_def)
qed (use I turn in \<open>simp_all add: cinv_prod_tail cinv_prod_cas cinv_prod_wait cinv_cons_tail
  cinv_cons_cas cinv_cons_wait\<close>, simp_all add: ring_tstep_def)

theorem ring_reach_cinv: "ring_reach r0 s \<Longrightarrow> ring_cinv s"
proof (induction rule: ring_reach.induct)
  case start
  then show ?case
    by (simp add: ring_start_def cinv_defs runs_ok_def ring_at_def)
next
  case (step s s')
  from step.hyps(2) step.IH show ?case
  proof (induction rule: ring_step.induct)
    case (call s t pc)
    then show ?case
      by (intro cinv_local) (auto simp: idle_def valid_call_def split: rpc.splits)
  next
    case (run s t spur)
    then show ?case by (simp add: ring_tstep_cinv)
  qed
qed

end
