(* ===== verification/Ring_Conc_Props.thy ===== *)
theory Ring_Conc_Props
  imports Ring_Conc
begin

text \<open>
  What the interleaving of \<open>Ring_Conc\<close> guarantees: reservation order, absence of data
  races on slots, first-in first-out delivery without loss or duplication, progress of
  Phase 3, the exactness of the empty verdict and the limits of the full verdict, and the
  agreement of the step machine with the sequential operations.
\<close>

section \<open>Schedules\<close>

text \<open>A schedule as a list of events, for running the machine on concrete inputs.\<close>

datatype ring_event = Call nat rpc | Run nat bool

definition ring_do :: "ring_event \<Rightarrow> cring \<Rightarrow> cring option" where
  "ring_do e s =
     (case e of
        Call t pc \<Rightarrow> if idle (pcs s t) \<and> valid_call (rg s) pc then Some (goto t pc s) else None
      | Run t spur \<Rightarrow> if no_turn s t then Some (ring_tstep spur t s) else None)"

fun ring_exec :: "ring_event list \<Rightarrow> cring \<Rightarrow> cring option" where
  "ring_exec [] s = Some s"
| "ring_exec (e # es) s = (case ring_do e s of None \<Rightarrow> None | Some s' \<Rightarrow> ring_exec es s')"

lemma ring_exec_reach: "ring_reach r0 s \<Longrightarrow> ring_exec es s = Some s' \<Longrightarrow> ring_reach r0 s'"
proof (induction es s rule: ring_exec.induct)
  case (2 e es s)
  then obtain s1 where s1: "ring_do e s = Some s1" "ring_exec es s1 = Some s'"
    by (auto split: option.splits)
  then have "ring_step s s1"
    by (auto simp: ring_do_def intro: ring_step.intros split: ring_event.splits if_splits)
  with 2 s1 show ?case by (auto intro: ring_reach.step)
qed simp

text \<open>A ring of two one-byte slots, as \<open>ring_lf_init\<close> leaves it.\<close>

definition demo_ring :: chan_ring_lf where
  "demo_ring =
     \<lparr>prod_head = 0, prod_tail = 0, cached_cons_tail = 0, cons_head = 0, cons_tail = 0,
      cached_prod_tail = 0, ring_mask = 1, ring_capacity = 2, ring_elem_size = 1,
      slots = [0, 0]\<rparr>"

lemma demo_ring_at: "ring_at demo_ring 0 0"
  by (auto simp: demo_ring_def ring_at_def ring_shape_def rcap_def resz_def intro!: bexI [of _ 1])

text \<open>
  Thread 0 pushes \<open>7\<close>, thread 1 starts a burst of two of which one fits, thread 2 starts a
  pop: afterwards thread 1 is about to write slot 1 while thread 2 is about to read slot 0.
\<close>

definition demo_schedule :: "ring_event list" where
  "demo_schedule =
     [Call 0 (PHead True [[7]]), Run 0 False, Run 0 False, Run 0 False, Run 0 False,
      Call 1 (PHead False [[8], [9]]), Run 1 False, Run 1 False, Run 1 False,
      Run 0 False, Run 0 False, Call 2 (CHead True 1), Run 2 False, Run 2 False, Run 2 False]"

definition demo_state :: cring where
  "demo_state =
     \<lparr>rg = demo_ring\<lparr>prod_head := 2, prod_tail := 1, cons_head := 1, slots := [7, 0]\<rparr>,
      pcs = (\<lambda>_. Ready)(0 := PDone 1, 1 := PWrite False [[8]] 1 1, 2 := CRead True 1 0 0),
      plog = [[7], [8]], prod_done = 1, cons_rsv = 1, cons_done = 0, clog = []\<rparr>"

lemmas demo_simps = ring_start_def demo_ring_def ring_do_def idle_def valid_call_def
  valid_elems_def no_turn_def ring_tstep_def resz_def rcap_def prod_grant_def cons_grant_def
  prod_write_def slot_write_def slot_read_def slot_offset_def memread_def memcpy_def

lemma demo_state_exec: "ring_exec demo_schedule (ring_start demo_ring) = Some demo_state"
  by (simp add: demo_schedule_def demo_state_def demo_simps fun_upd_twist)

lemma demo_state_reach: "ring_reach demo_ring demo_state"
  by (rule ring_exec_reach [OF ring_reach.start [OF demo_ring_at] demo_state_exec])

section \<open>Reservation order and slots\<close>

text \<open>
  C21. In every reachable state of any number of threads the four 32-bit cursors are the
  reservation and commit counts modulo \<open>2 ^ 32\<close>, consumers commit after they reserve and
  reserve only what producers committed, and never more than \<open>capacity\<close> elements are
  between the consumer's tail and the producer's head.
\<close>

theorem ring_cursors_ordered:
  assumes "ring_reach r0 s"
  shows "cons_tail (rg s) = of_nat (cons_done s) \<and> cons_head (rg s) = of_nat (cons_rsv s) \<and>
    prod_tail (rg s) = of_nat (prod_done s) \<and> prod_head (rg s) = of_nat (prod_rsv s) \<and>
    cons_done s \<le> cons_rsv s \<and> cons_rsv s \<le> prod_done s \<and> prod_done s \<le> prod_rsv s \<and>
    prod_rsv s \<le> cons_done s + rcap (rg s)"
  using ring_reach_cinv [OF assms] by (simp add: cinv_defs)

theorem ring_cursors_ordered_witness:
  "ring_reach demo_ring demo_state \<and> prod_rsv demo_state \<le> cons_done demo_state + rcap (rg demo_state)"
  using ring_cursors_ordered [OF demo_state_reach] demo_state_reach by blast

text \<open>
  C4. Phase 2 has no data race: the slots a producer is writing are disjoint from the
  slots every other thread is writing or reading, in every reachable state.
\<close>

theorem no_data_race:
  assumes "ring_reach r0 s" "t \<noteq> t'" "i \<in> prod_run (pcs s t)"
    and "j \<in> prod_run (pcs s t') \<union> cons_run (pcs s t')"
  shows "i mod rcap (rg s) \<noteq> j mod rcap (rg s)"
proof
  assume eq: "i mod rcap (rg s) = j mod rcap (rg s)"
  note D = cinvD [OF ring_reach_cinv [OF assms(1)]]
  have i: "prod_done s \<le> i" "i < prod_rsv s" using runs_okD [OF D(3) assms(3)] by simp_all
  from assms(4) consider (p) "j \<in> prod_run (pcs s t')" | (c) "j \<in> cons_run (pcs s t')" by blast
  then show False
  proof cases
    case p
    then have "j < prod_rsv s" "prod_done s \<le> j" using runs_okD [OF D(3)] by blast+
    then have "i = j" using i D(5-8) by (intro mod_window_inj [OF eq]) linarith+
    with p assms(2,3) runs_ok_unique [OF D(3)] show False by blast
  next
    case c
    then have "j < cons_rsv s" "cons_done s \<le> j" using runs_okD [OF D(4)] by blast+
    then have "i = j" using i D(5-8) by (intro mod_window_inj [OF eq]) linarith+
    with i \<open>j < cons_rsv s\<close> D(6) show False by linarith
  qed
qed

theorem no_data_race_witness:
  "1 \<in> prod_run (pcs demo_state 1) \<and> 0 \<in> cons_run (pcs demo_state 2) \<and>
   (1::nat) mod rcap (rg demo_state) \<noteq> 0 mod rcap (rg demo_state)"
proof -
  have "1 \<in> prod_run (pcs demo_state 1)" "0 \<in> cons_run (pcs demo_state 2)"
    by (simp_all add: demo_state_def)
  with no_data_race [OF demo_state_reach, of 1 2 1 0] show ?thesis by simp
qed

section \<open>First in, first out, exactly once\<close>

text \<open>
  C1. The elements consumers have taken, in commit order, are exactly the first
  \<open>cons_done\<close> elements in the order producers reserved: nothing is lost, duplicated,
  torn or reordered, whatever the interleaving; and a consumer that returned with ticket
  \<open>m\<close> holds exactly elements \<open>m, \<dots>, m + k - 1\<close> of that order.
\<close>

theorem ring_conc_fifo:
  assumes "ring_reach r0 s"
  shows "clog s = take (cons_done s) (plog s) \<and> length (clog s) = cons_done s \<and>
    (pcs s t = CDone k m out \<longrightarrow>
       chunks (resz (rg s)) (unat k) out = take (unat k) (drop m (plog s)))"
proof -
  note I = ring_reach_cinv [OF assms] and D = cinvD [OF ring_reach_cinv [OF assms]]
  have "cons_done s \<le> prod_rsv s" using D(5-7) by linarith
  moreover have "chunks (resz (rg s)) (unat k) out = take (unat k) (drop m (plog s))"
    if "pcs s t = CDone k m out"
    using D(2) [of t] that by (simp add: pc_seg_def segment_def)
  ultimately show ?thesis using D(10) by (simp add: content_ok_def)
qed

text \<open>Thread 2 finishes its pop before thread 1 writes.\<close>

definition demo_final :: cring where
  "demo_final = the (ring_exec [Run 2 False, Run 2 False, Run 2 False] demo_state)"

lemma demo_final_reach: "ring_reach demo_ring demo_final"
proof -
  have "ring_exec [Run 2 False, Run 2 False, Run 2 False] demo_state = Some demo_final"
    by (simp add: demo_final_def demo_state_def demo_simps)
  then show ?thesis by (rule ring_exec_reach [OF demo_state_reach])
qed

theorem ring_conc_fifo_witness:
  "pcs demo_final 2 = CDone 1 0 [7] \<and> clog demo_final = [[7]] \<and>
   chunks 1 1 [7 :: byte] = take 1 (plog demo_final)"
proof -
  have f: "pcs demo_final 2 = CDone 1 0 [7]" "cons_done demo_final = 1" "plog demo_final = [[7], [8]]"
    "resz (rg demo_final) = 1"
    by (simp_all add: demo_final_def demo_state_def demo_simps)
  with ring_conc_fifo [OF demo_final_reach, of 2 1 0 "[7]"] show ?thesis by simp
qed

section \<open>Progress of Phase 3\<close>

text \<open>The oldest uncommitted ticket starts the run of the thread that holds it.\<close>

lemma oldest_run:
  assumes "runs_ok run lo hi" "lo < hi"
  obtains t where "lo \<in> run t" "\<And>i. i \<in> run t \<Longrightarrow> lo \<le> i"
proof -
  obtain t where "lo \<in> run t" using assms unfolding runs_ok_def by blast
  with that runs_okD [OF assms(1)] show thesis by blast
qed

lemma prod_progress:
  assumes I: "ring_cinv s" and t: "prod_done s \<in> prod_run (pcs s t)"
    "\<And>i. i \<in> prod_run (pcs s t) \<Longrightarrow> prod_done s \<le> i"
  shows "\<exists>j \<le> 3. prod_done s < prod_done ((ring_tstep False t ^^ j) s)"
proof -
  note pci = cinvD(2) [OF I, of t] and cur = cursorD [OF I]
  show ?thesis
  proof (cases "pcs s t")
    case (PWrite sg ds ph n)
    then have "ds \<noteq> []" "n = prod_done s" "ph = prod_tail (rg s)"
      using t(1) t(2) [of n] pci cur by (cases "ds = []"; auto)+
    then show ?thesis
      by (intro exI [of _ 3]) (simp add: numeral_3_eq_3 ring_tstep_def PWrite)
  next
    case (PWait ds ph n)
    then have "ds \<noteq> []" "n = prod_done s" "ph = prod_tail (rg s)"
      using t(1) t(2) [of n] pci cur by (cases "ds = []"; auto)+
    then show ?thesis
      by (intro exI [of _ 2]) (simp add: numeral_2_eq_2 ring_tstep_def PWait)
  next
    case (PStore ds ph n)
    then have "ds \<noteq> []" using pci unfolding PStore pc_inv.simps by blast
    then show ?thesis by (intro exI [of _ 1]) (simp add: ring_tstep_def PStore)
  qed (use t(1) in simp_all)
qed

lemma cons_progress:
  assumes I: "ring_cinv s" and t: "cons_done s \<in> cons_run (pcs s t)"
    "\<And>i. i \<in> cons_run (pcs s t) \<Longrightarrow> cons_done s \<le> i"
  shows "\<exists>j \<le> 3. cons_done s < cons_done ((ring_tstep False t ^^ j) s)"
proof -
  note pci = cinvD(2) [OF I, of t] and cur = cursorD [OF I]
  show ?thesis
  proof (cases "pcs s t")
    case (CRead sg k ch m)
    then have "0 < unat k" "m = cons_done s" "ch = cons_tail (rg s)"
      using t(1) t(2) [of m] pci cur by (cases "k = 0"; auto simp: unat_gt_0)+
    then show ?thesis
      by (intro exI [of _ 3]) (simp add: numeral_3_eq_3 ring_tstep_def CRead)
  next
    case (CWait k ch m out)
    then have "0 < unat k" "m = cons_done s" "ch = cons_tail (rg s)"
      using t(1) t(2) [of m] pci cur by (cases "k = 0"; auto simp: unat_gt_0)+
    then show ?thesis
      by (intro exI [of _ 2]) (simp add: numeral_2_eq_2 ring_tstep_def CWait)
  next
    case (CStore k ch m out)
    then have "0 < unat k" using pci unfolding CStore pc_inv.simps by (simp add: unat_gt_0)
    then show ?thesis by (intro exI [of _ 1]) (simp add: ring_tstep_def CStore)
  qed (use t(1) in simp_all)
qed

text \<open>
  C16. The ordered commit of Phase 3 never deadlocks: whenever a reservation is not yet
  committed, some thread holds the oldest one and commits it within three of its own steps,
  whatever the other threads do not do.
\<close>

theorem phase3_progress:
  assumes "ring_reach r0 s"
  shows "(prod_done s < prod_rsv s \<longrightarrow>
      (\<exists>t. \<exists>j \<le> 3. prod_done s < prod_done ((ring_tstep False t ^^ j) s))) \<and>
    (cons_done s < cons_rsv s \<longrightarrow>
      (\<exists>t. \<exists>j \<le> 3. cons_done s < cons_done ((ring_tstep False t ^^ j) s)))"
proof -
  note I = ring_reach_cinv [OF assms]
  show ?thesis
    using prod_progress [OF I] cons_progress [OF I]
      oldest_run [OF cinvD(3) [OF I]] oldest_run [OF cinvD(4) [OF I]] by metis
qed

theorem phase3_progress_witness:
  "prod_done demo_state < prod_rsv demo_state \<and>
   (\<exists>t. \<exists>j \<le> 3. prod_done demo_state < prod_done ((ring_tstep False t ^^ j) demo_state))"
proof -
  have "prod_done demo_state < prod_rsv demo_state" by (simp add: demo_state_def)
  with phase3_progress [OF demo_state_reach] show ?thesis by blast
qed

section \<open>The verdicts of Phase 1\<close>

text \<open>
  C22. The empty verdict is exact: a consumer that gives up after loading the producer's
  tail does so only when every committed element is already reserved by a consumer. The
  side condition excludes a full turn of the 32-bit cursor since the head was loaded.
\<close>

theorem empty_verdict_exact:
  assumes "ring_reach r0 s" "pcs s t = CTail sg n ch m" "prod_done s - m < 2 ^ 32"
    and "pcs (ring_tstep spur t s) t = CDone 0 m []"
  shows "cons_rsv s = prod_done s"
proof -
  note I = ring_reach_cinv [OF assms(1)]
  have m: "m \<le> cons_rsv s" "ch = of_nat m" "n \<noteq> 0" using cinvD(2) [OF I, of t] by (simp_all add: assms(2))
  have "cons_grant sg (rg s) ch n = 0"
    using assms(4) by (simp add: ring_tstep_def assms(2) Let_def split: if_splits)
  then have "prod_tail (rg s) = ch"
    using m(3) by (auto simp: cons_grant_def Let_def split: if_splits)
  then have "prod_done s = m"
    using cursorD(2) [OF I] of_nat_eq_u32 [of m "prod_done s"] assms(3) m cinvD(6) [OF I] by simp
  with m(1) cinvD(6) [OF I] show ?thesis by simp
qed

definition demo_empty :: cring where
  "demo_empty = the (ring_exec [Call 0 (CHead True 1), Run 0 False] demo_final)"

lemma demo_empty_reach: "ring_reach demo_ring demo_empty"
proof -
  have "ring_exec [Call 0 (CHead True 1), Run 0 False] demo_final = Some demo_empty"
    by (simp add: demo_empty_def demo_final_def demo_state_def demo_simps)
  then show ?thesis by (rule ring_exec_reach [OF demo_final_reach])
qed

theorem empty_verdict_exact_witness:
  "pcs demo_empty 0 = CTail True 1 1 1 \<and> pcs (ring_tstep False 0 demo_empty) 0 = CDone 0 1 [] \<and>
   cons_rsv demo_empty = prod_done demo_empty"
proof -
  have f: "pcs demo_empty 0 = CTail True 1 1 1" "prod_done demo_empty - 1 < 2 ^ 32"
    "pcs (ring_tstep False 0 demo_empty) 0 = CDone 0 1 []"
    by (simp_all add: demo_empty_def demo_final_def demo_state_def demo_simps)
  with empty_verdict_exact [OF demo_empty_reach f] show ?thesis by blast
qed

text \<open>
  C23. The full verdict is exact when the loaded head is still the current one: a
  producer that gives up then sees a ring with \<open>capacity\<close> elements between the consumer's
  tail and the producer's head.
\<close>

theorem full_verdict_exact:
  assumes "ring_reach r0 s" "pcs s t = PTail sg ds ph (prod_rsv s)"
    and "pcs (ring_tstep spur t s) t = PDone 0"
  shows "prod_rsv s = cons_done s + rcap (rg s)"
proof -
  note I = ring_reach_cinv [OF assms(1)] and D = cinvD [OF ring_reach_cinv [OF assms(1)]]
  have v: "valid_elems (rg s) sg ds" "ph = of_nat (prod_rsv s)"
    using D(2) [of t] by (simp_all add: assms(2))
  have l: "(of_nat (length ds) :: u32) \<noteq> 0"
    using v(1) of_nat_eq_u32 [of 0 "length ds"] by (simp add: valid_elems_def)
  have g: "prod_grant sg (rg s) ph (of_nat (length ds)) = 0"
    using assms(3) by (simp add: ring_tstep_def assms(2) Let_def split: if_splits)
  have used: "unat (ph - cons_tail (rg s)) = prod_rsv s - cons_done s"
    using D(5-8) ring_shape_cap(3) [OF D(1)] by (simp add: v(2) cursorD(4) [OF I] of_nat_diff_u32)
  have "ring_capacity (rg s) \<le> ph - cons_tail (rg s)"
    using g l by (auto simp: prod_grant_def Let_def split: if_splits)
  then show ?thesis using used D(5-8) by (simp add: word_le_nat_alt rcap_def)
qed

definition demo_full :: cring where
  "demo_full = the (ring_exec [Call 0 (PHead True [[9]]), Run 0 False] demo_state)"

lemma demo_full_reach: "ring_reach demo_ring demo_full"
proof -
  have "ring_exec [Call 0 (PHead True [[9]]), Run 0 False] demo_state = Some demo_full"
    by (simp add: demo_full_def demo_state_def demo_simps)
  then show ?thesis by (rule ring_exec_reach [OF demo_state_reach])
qed

theorem full_verdict_exact_witness:
  "pcs demo_full 0 = PTail True [[9]] 2 (prod_rsv demo_full) \<and>
   prod_rsv demo_full = cons_done demo_full + rcap (rg demo_full)"
proof -
  have f: "pcs demo_full 0 = PTail True [[9]] 2 (prod_rsv demo_full)"
    "pcs (ring_tstep False 0 demo_full) 0 = PDone 0"
    by (simp_all add: demo_full_def demo_state_def demo_simps)
  with full_verdict_exact [OF demo_full_reach f] show ?thesis by blast
qed

definition stale_schedule :: "ring_event list" where
  "stale_schedule =
     [Call 0 (PHead True [[7]]), Run 0 False, Call 1 (PHead True [[8]]), Run 1 False, Run 1 False,
      Run 1 False, Run 1 False, Run 1 False, Run 1 False, Call 2 (CHead True 1), Run 2 False,
      Run 2 False, Run 2 False, Run 2 False, Run 2 False, Run 2 False]"

text \<open>
  C39. A stale head makes \<open>ring_lf_push\<close> report a full ring that is empty: between the
  load of the head and the load of the consumer's tail, another producer pushes and a
  consumer pops, the unsigned difference wraps to \<open>2 ^ 32 - 1\<close>, and the test
  \<open>(uint32_t)(ph - ct) >= capacity\<close> succeeds. Nothing is corrupted, but a
  \<open>chan_try_send\<close> may fail with \<open>CHAN_ERR_WOULDBLOCK\<close> on an empty channel.
\<close>

theorem spurious_full:
  "\<exists>s. ring_exec stale_schedule (ring_start demo_ring) = Some s \<and> ring_reach demo_ring s \<and>
     pcs s 0 = PTail True [[7]] 0 0 \<and> prod_rsv s = cons_done s \<and> ring_empty (rg s) \<and>
     pcs (ring_tstep False 0 s) 0 = PDone 0"
proof -
  have "\<exists>s. ring_exec stale_schedule (ring_start demo_ring) = Some s \<and>
     pcs s 0 = PTail True [[7]] 0 0 \<and> prod_rsv s = cons_done s \<and> ring_empty (rg s) \<and>
     pcs (ring_tstep False 0 s) 0 = PDone 0"
    by (simp add: stale_schedule_def demo_simps ring_empty_def)
  with ring_exec_reach [OF ring_reach.start [OF demo_ring_at]] show ?thesis by blast
qed

section \<open>Agreement with the sequential operations\<close>

abbreviation solo :: "nat \<Rightarrow> nat \<Rightarrow> cring \<Rightarrow> cring" where
  "solo j t s \<equiv> (ring_tstep False t ^^ j) s"

lemma solo_6: "solo 6 t s = ring_tstep False t (ring_tstep False t (ring_tstep False t
    (ring_tstep False t (ring_tstep False t (ring_tstep False t s)))))"
  by (simp add: eval_nat_numeral)

lemma tstep_cases:
  "pcs s t = PHead sg ds \<Longrightarrow>
     ring_tstep spur t s = goto t (PTail sg ds (prod_head (rg s)) (prod_rsv s)) s"
  "pcs s t = PTail sg ds ph n \<Longrightarrow> prod_grant sg (rg s) ph (of_nat (length ds)) = k \<Longrightarrow>
     ring_tstep spur t s = (if k = 0 then goto t (PDone 0) s else goto t (PCas sg ds k ph n) s)"
  "pcs s t = PDone j \<Longrightarrow> ring_tstep spur t s = s"
  "pcs s t = CHead sg l \<Longrightarrow>
     ring_tstep spur t s = goto t (CTail sg l (cons_head (rg s)) (cons_rsv s)) s"
  "pcs s t = CTail sg l ch m \<Longrightarrow> cons_grant sg (rg s) ch l = k \<Longrightarrow>
     ring_tstep spur t s = (if k = 0 then goto t (CDone 0 m []) s else goto t (CCas sg l k ch m) s)"
  "pcs s t = CDone k m out \<Longrightarrow> ring_tstep spur t s = s"
  by (simp_all add: ring_tstep_def Let_def)

text \<open>Four further steps finish an operation whose compare-exchange is due.\<close>

lemma prod_finish:
  assumes "pcs s t = PCas sg ds k (prod_head (rg s)) n" "prod_tail (rg s) = prod_head (rg s)"
    "unat k \<le> length ds" "k \<noteq> 0"
  shows "pcs (solo 4 t s) t = PDone (unat k)"
    and "rg (solo 4 t s) = (prod_write sg (take (unat k) ds) (prod_head (rg s))
      ((rg s)\<lparr>prod_head := prod_head (rg s) + k\<rparr>))\<lparr>prod_tail := prod_head (rg s) + k\<rparr>"
  using assms by (simp_all add: eval_nat_numeral ring_tstep_def)

lemma cons_finish:
  assumes "pcs s t = CCas sg l k (cons_head (rg s)) m" "cons_tail (rg s) = cons_head (rg s)"
  shows "pcs (solo 4 t s) t =
      CDone k m (if sg then slot_read (rg s) (cons_head (rg s)) else run_read (rg s) (cons_head (rg s)) k)"
    and "rg (solo 4 t s) = (rg s)\<lparr>cons_head := cons_head (rg s) + k, cons_tail := cons_head (rg s) + k\<rparr>"
  using assms by (simp_all add: eval_nat_numeral ring_tstep_def)

lemma funpow_stay: "f s = s \<Longrightarrow> (f ^^ j) s = s"
  by (induction j) simp_all

lemma solo_split: "solo 6 t s = solo 4 t (ring_tstep False t (ring_tstep False t s))"
  by (simp add: eval_nat_numeral)

lemma solo_prod:
  assumes "pcs s t = PHead sg ds" "prod_grant sg (rg s) (prod_head (rg s)) (of_nat (length ds)) = k"
    "unat k \<le> length ds" "k \<noteq> 0 \<Longrightarrow> prod_tail (rg s) = prod_head (rg s)"
  shows "pcs (solo 6 t s) t = PDone (unat k) \<and> rg (solo 6 t s) =
    (if k = 0 then rg s else (prod_write sg (take (unat k) ds) (prod_head (rg s))
      ((rg s)\<lparr>prod_head := prod_head (rg s) + k\<rparr>))\<lparr>prod_tail := prod_head (rg s) + k\<rparr>)"
proof -
  define s1 where "s1 = (if k = 0 then goto t (PDone 0) s
    else goto t (PCas sg ds k (prod_head (rg s)) (prod_rsv s)) s)"
  have "solo 6 t s = solo 4 t s1"
    using assms(1,2) by (simp add: solo_split tstep_cases s1_def)
  then show ?thesis
    using prod_finish [of s1 t sg ds k] assms(3,4)
    by (cases "k = 0") (simp_all add: s1_def funpow_stay tstep_cases)
qed

lemma solo_cons:
  assumes "pcs s t = CHead sg l" "cons_grant sg (rg s) (cons_head (rg s)) l = k"
    "k \<noteq> 0 \<Longrightarrow> cons_tail (rg s) = cons_head (rg s)"
  shows "pcs (solo 6 t s) t = CDone k (cons_rsv s)
      (if k = 0 then [] else if sg then slot_read (rg s) (cons_head (rg s))
       else run_read (rg s) (cons_head (rg s)) k) \<and>
    rg (solo 6 t s) = (if k = 0 then rg s else
      (rg s)\<lparr>cons_head := cons_head (rg s) + k, cons_tail := cons_head (rg s) + k\<rparr>)"
proof -
  define s1 where "s1 = (if k = 0 then goto t (CDone 0 (cons_rsv s) []) s
    else goto t (CCas sg l k (cons_head (rg s)) (cons_rsv s)) s)"
  have "solo 6 t s = solo 4 t s1"
    using assms(1,2) by (simp add: solo_split tstep_cases s1_def)
  then show ?thesis
    using cons_finish [of s1 t sg l k] assms(3)
    by (cases "k = 0") (simp_all add: s1_def funpow_stay tstep_cases)
qed

lemma memread_take: "a + n \<le> m \<Longrightarrow> memread (take m xs) a n = memread xs a n"
  by (simp add: memread_def drop_take)

lemma concat_take:
  "list_all (\<lambda>d. length d = es) ds \<Longrightarrow> concat (take k ds) = take (k * es) (concat ds)"
proof (induction ds arbitrary: k)
  case (Cons d ds)
  then show ?case by (cases k) simp_all
qed simp

text \<open>A bulk write reads no byte beyond its \<open>k\<close> elements.\<close>

lemma run_write_take:
  assumes "ring_shape r" "unat k \<le> rcap r" "list_all (\<lambda>d. length d = resz r) ds"
  shows "run_write r (of_nat i) k (concat (take (unat k) ds)) = run_write r (of_nat i) k (concat ds)"
proof -
  have "(rcap r - i mod rcap r) * resz r + (unat k - (rcap r - i mod rcap r)) * resz r = unat k * resz r"
    if "\<not> unat k \<le> rcap r - i mod rcap r"
    using that by (simp flip: add_mult_distrib)
  moreover have "(rcap r - i mod rcap r) * resz r \<le> unat k * resz r"
    if "\<not> unat k \<le> rcap r - i mod rcap r"
    using that by (intro mult_le_mono1) simp
  ultimately show ?thesis
    unfolding run_write_eq [OF assms(1,2)] wrap_copy_def concat_take [OF assms(3)]
    by (simp add: memread_take)
qed

lemma solo_push:
  assumes "pcs s t = PHead True [d]" "ring_lf_push (rg s) d = Some (b, r')"
  shows "pcs (solo 6 t s) t = PDone (of_bool b) \<and> rg (solo 6 t s) = r'"
  using solo_prod [OF assms(1) refl] assms(2)
  by (auto simp: ring_lf_push_def prod_grant_def prod_write_def Let_def split: if_splits)

lemma solo_pop:
  assumes "pcs s t = CHead True 1" "ring_lf_pop (rg s) = Some (v, r')"
  shows "pcs (solo 6 t s) t = CDone (of_bool (v \<noteq> None)) (cons_rsv s)
      (case v of None \<Rightarrow> [] | Some x \<Rightarrow> x) \<and> rg (solo 6 t s) = r'"
  using solo_cons [OF assms(1) refl] assms(2)
  by (auto simp: ring_lf_pop_def cons_grant_def Let_def split: if_splits)

lemma solo_dequeue_burst:
  assumes "pcs s t = CHead False n" "n \<noteq> 0" "ring_lf_dequeue_burst (rg s) n = Some (k, out, r')"
  shows "pcs (solo 6 t s) t = CDone k (cons_rsv s) out \<and> rg (solo 6 t s) = r'"
  using solo_cons [OF assms(1) refl] assms(2,3)
  by (auto simp: ring_lf_dequeue_burst_def cons_grant_def Let_def split: if_splits)

lemma solo_enqueue_burst:
  assumes at: "ring_at (rg s) m p" and pc: "pcs s t = PHead False ds"
    and v: "valid_elems (rg s) False ds"
    and eq: "ring_lf_enqueue_burst (rg s) (concat ds) (of_nat (length ds)) = Some (k, r')"
  shows "pcs (solo 6 t s) t = PDone (unat k) \<and> rg (solo 6 t s) = r'"
proof -
  note D = ring_atD [OF at]
  have l: "unat (of_nat (length ds) :: u32) = length ds" "(of_nat (length ds) :: u32) \<noteq> 0"
    using v of_nat_eq_u32 [of 0 "length ds"]
    by (auto simp: valid_elems_def unsigned_of_nat take_bit_nat_eq_self)
  have g: "prod_grant False (rg s) (prod_head (rg s)) (of_nat (length ds)) = k"
    using eq l(2) by (auto simp: ring_lf_enqueue_burst_def prod_grant_def Let_def split: if_splits)
  have free: "unat (ring_capacity (rg s) - (of_nat p - of_nat m)) = rcap (rg s) - (p - m)"
    using D(6-8) by (simp add: unat_sub word_le_nat_alt rcap_def)
  have k: "unat k \<le> length ds" "unat k \<le> rcap (rg s)"
    using g D l(1) free by (auto simp: prod_grant_def Let_def word_less_nat_alt split: if_splits)
  have "run_write (rg s) (of_nat p) k (concat (take (unat k) ds)) = run_write (rg s) (of_nat p) k (concat ds)"
    using v by (intro run_write_take [OF D(1) k(2)]) (simp add: valid_elems_def)
  then show ?thesis
    using solo_prod [OF pc g k(1)] D(2,3) eq g l k(1)
    by (auto simp: ring_lf_enqueue_burst_def prod_grant_def prod_write_def Let_def split: if_splits)
qed

text \<open>
  C19. Run without interference, the step machine computes the sequential operations: six
  steps of one thread give the result and the ring of \<open>ring_lf_push\<close>, \<open>ring_lf_pop\<close>,
  \<open>ring_lf_enqueue_burst\<close> and \<open>ring_lf_dequeue_burst\<close>.
\<close>

theorem solo_agrees:
  assumes "ring_at (rg s) m p"
  shows "(pcs s t = PHead True [d] \<longrightarrow> ring_lf_push (rg s) d = Some (b, r') \<longrightarrow>
      pcs (solo 6 t s) t = PDone (of_bool b) \<and> rg (solo 6 t s) = r') \<and>
    (pcs s t = CHead True 1 \<longrightarrow> ring_lf_pop (rg s) = Some (v, r') \<longrightarrow>
      pcs (solo 6 t s) t = CDone (of_bool (v \<noteq> None)) (cons_rsv s) (case v of None \<Rightarrow> [] | Some x \<Rightarrow> x) \<and>
      rg (solo 6 t s) = r') \<and>
    (pcs s t = PHead False ds \<longrightarrow> valid_elems (rg s) False ds \<longrightarrow>
      ring_lf_enqueue_burst (rg s) (concat ds) (of_nat (length ds)) = Some (k, r') \<longrightarrow>
      pcs (solo 6 t s) t = PDone (unat k) \<and> rg (solo 6 t s) = r') \<and>
    (pcs s t = CHead False n \<longrightarrow> n \<noteq> 0 \<longrightarrow> ring_lf_dequeue_burst (rg s) n = Some (k, out, r') \<longrightarrow>
      pcs (solo 6 t s) t = CDone k (cons_rsv s) out \<and> rg (solo 6 t s) = r')"
  using solo_push solo_pop solo_dequeue_burst solo_enqueue_burst [OF assms] by blast

definition demo_call :: cring where
  "demo_call = goto 0 (PHead False [[7], [8], [9]]) (ring_start demo_ring)"

theorem solo_agrees_witness:
  "pcs (solo 6 0 demo_call) 0 = PDone 2 \<and>
   rg (solo 6 0 demo_call) = demo_ring\<lparr>prod_head := 2, prod_tail := 2, slots := [7, 8]\<rparr>"
proof -
  have at: "ring_at (rg demo_call) 0 0" by (simp add: demo_call_def ring_start_def demo_ring_at)
  have f: "pcs demo_call 0 = PHead False [[7], [8], [9]]"
    "valid_elems (rg demo_call) False [[7], [8], [9]]"
    by (simp_all add: demo_call_def demo_simps)
  have "ring_lf_enqueue_burst (rg demo_call) (concat [[7], [8], [9]]) (of_nat (length [[7], [8], [9 :: byte]]))
      = Some (2, demo_ring\<lparr>prod_head := 2, prod_tail := 2, slots := [7, 8]\<rparr>)"
    by (simp add: demo_call_def demo_simps ring_lf_enqueue_burst_def run_write_def)
  with f solo_agrees [OF at] show ?thesis by fastforce
qed

end
