(* ===== verification/Ring_Spsc.thy ===== *)
theory Ring_Spsc
  imports Ring_Queue
begin

text \<open>
  The cursor-cached single-producer/single-consumer operations
  (\<open>ring_spsc_push\<close>, \<open>ring_spsc_pop\<close>). With caches that are recent enough they satisfy the same
  queue contract as the plain operations; caches that lag by half a turn of the counter
  make the consumer read a slot that was never filled.
\<close>

section \<open>The cursor-cached variants\<close>

text \<open>
  The caches are lower bounds of the opposite cursor. They are usable as long as they lag
  less than a full turn (producer) or half a turn (consumer, whose test is signed) of the
  32-bit counter.
\<close>

definition spsc_ok :: "chan_ring_lf \<Rightarrow> bool" where
  "spsc_ok r \<longleftrightarrow> ring_ok r \<and>
     unat (cons_tail r - cached_cons_tail r) + length (ring_items r) < 2 ^ 32 \<and>
     unat (prod_tail r - cached_prod_tail r) < 2 ^ 31 + length (ring_items r)"

definition spsc_at :: "chan_ring_lf \<Rightarrow> nat \<Rightarrow> nat \<Rightarrow> nat \<Rightarrow> nat \<Rightarrow> bool" where
  "spsc_at r m n mc nc \<longleftrightarrow> ring_at r m n \<and>
     cached_cons_tail r = of_nat mc \<and> cached_prod_tail r = of_nat nc \<and>
     mc \<le> m \<and> n - mc < 2 ^ 32 \<and> nc \<le> n \<and> m < nc + 2 ^ 31"

lemma cursor_behind:
  fixes a b :: u32
  assumes "b = of_nat n" "unat (b - a) \<le> n"
  shows "a = of_nat (n - unat (b - a))"
proof -
  have "of_nat (n - unat (b - a)) = b - (b - a)"
    using assms by (simp add: of_nat_diff)
  then show ?thesis by simp
qed

lemma spsc_ok_iff: "spsc_ok r \<longleftrightarrow> (\<exists>m n mc nc. spsc_at r m n mc nc)"
proof
  assume ok: "spsc_ok r"
  then obtain m0 n0 where at0: "ring_at r m0 n0" and len: "length (ring_items r) = n0 - m0"
    by (auto simp: spsc_ok_def elim: ring_okE)
  define m n where mn: "m = m0 + 2 ^ 32" "n = n0 + 2 ^ 32"
  have "(of_nat (2 ^ 32) :: u32) = 0" by simp
  then have at: "ring_at r m n" using at0 by (simp add: ring_at_def mn)
  note D = ring_atD [OF at]
  define mc nc where c: "mc = m - unat (cons_tail r - cached_cons_tail r)"
    "nc = n - unat (prod_tail r - cached_prod_tail r)"
  have b: "unat (cons_tail r - cached_cons_tail r) < 2 ^ 32"
    "unat (prod_tail r - cached_prod_tail r) < 2 ^ 32"
    using unsigned_less [of "cons_tail r - cached_cons_tail r"]
      unsigned_less [of "prod_tail r - cached_prod_tail r"] by simp_all
  have "cached_cons_tail r = of_nat mc" "cached_prod_tail r = of_nat nc"
    unfolding c using D b by (auto intro!: cursor_behind simp: mn)
  moreover have "mc \<le> m" "n - mc < 2 ^ 32" "nc \<le> n" "m < nc + 2 ^ 31"
    using ok len b D(6) by (auto simp: spsc_ok_def c mn)
  ultimately have "spsc_at r m n mc nc" using at by (simp add: spsc_at_def)
  then show "\<exists>m n mc nc. spsc_at r m n mc nc" by blast
next
  assume "\<exists>m n mc nc. spsc_at r m n mc nc"
  then obtain m n mc nc where s: "spsc_at r m n mc nc" by blast
  then have at: "ring_at r m n" by (simp add: spsc_at_def)
  note D = ring_atD [OF at]
  have len: "length (ring_items r) = n - m" by (simp add: ring_at_items [OF at])
  have "unat (of_nat m - of_nat mc :: u32) = m - mc"
    using s D(6) by (intro of_nat_diff_u32) (auto simp: spsc_at_def)
  moreover have "unat (of_nat n - of_nat nc :: u32) = (n - nc) mod 2 ^ 32"
    using s by (simp add: spsc_at_def unsigned_of_nat take_bit_eq_mod flip: of_nat_diff)
  then have "unat (of_nat n - of_nat nc :: u32) \<le> n - nc" by simp
  ultimately show "spsc_ok r"
    using at s D(6) by (auto simp: spsc_ok_def spsc_at_def ring_ok_iff D(2-5) len)
qed

lemma spsc_atD:
  assumes "spsc_at r m n mc nc"
  shows "ring_at r m n" "cached_cons_tail r = of_nat mc" "cached_prod_tail r = of_nat nc"
    "mc \<le> m" "n - mc < 2 ^ 32" "nc \<le> n" "m < nc + 2 ^ 31"
  using assms by (simp_all add: spsc_at_def)

lemma stale_full_test:
  assumes "spsc_at r m n mc nc"
  shows "ring_capacity r \<le> of_nat n - of_nat mc \<longleftrightarrow> rcap r \<le> n - mc"
proof -
  note S = spsc_atD [OF assms] and D = ring_atD [OF spsc_atD(1) [OF assms]]
  have "unat (of_nat n - of_nat mc :: u32) = n - mc"
    using S(4,5) D(6) by (intro of_nat_diff_u32) auto
  then show ?thesis by (simp add: word_le_nat_alt rcap_def)
qed

lemma sint_cursor_diff:
  assumes "nc \<le> m + 2 ^ 31" "m < nc + 2 ^ 31"
  shows "0 \<le> sint (of_nat m - of_nat nc :: u32) \<longleftrightarrow> nc \<le> m"
proof -
  have e: "(of_nat m - of_nat nc :: u32) = of_int (int m - int nc)" by simp
  have "sint (of_nat m - of_nat nc :: u32) = signed_take_bit 31 (int m - int nc)"
    unfolding e by (subst signed_of_int) simp
  also have "\<dots> = int m - int nc"
    using assms by (intro signed_take_bit_int_eq_self) auto
  finally show ?thesis by simp
qed

text \<open>Reloading a cache keeps the ring and its contents.\<close>

lemma spsc_reload:
  assumes "spsc_at r m n mc nc"
  shows "spsc_at (r\<lparr>cached_cons_tail := cons_tail r\<rparr>) m n m nc"
    and "spsc_at (r\<lparr>cached_prod_tail := prod_tail r\<rparr>) m n mc n"
    and "ring_items (r\<lparr>cached_cons_tail := cons_tail r\<rparr>) = ring_items r"
    and "ring_items (r\<lparr>cached_prod_tail := prod_tail r\<rparr>) = ring_items r"
proof -
  note S = spsc_atD [OF assms] and D = ring_atD [OF spsc_atD(1) [OF assms]]
  show "spsc_at (r\<lparr>cached_cons_tail := cons_tail r\<rparr>) m n m nc"
    "spsc_at (r\<lparr>cached_prod_tail := prod_tail r\<rparr>) m n mc n"
    using S D by (auto simp: spsc_at_def ring_at_def)
  show "ring_items (r\<lparr>cached_cons_tail := cons_tail r\<rparr>) = ring_items r"
    "ring_items (r\<lparr>cached_prod_tail := prod_tail r\<rparr>) = ring_items r"
    by (simp_all add: ring_items_def)
qed

text \<open>The producer's commit, from any state in which its cache shows room.\<close>

lemma spsc_commit:
  assumes s: "spsc_at r m n mc nc" and room: "n - mc < rcap r" and d: "resz r \<le> length data"
  defines "r' \<equiv> (slot_write r (of_nat n) data)\<lparr>prod_tail := of_nat n + 1, prod_head := of_nat n + 1\<rparr>"
  shows "spsc_ok r'" "ring_items r' = ring_items r @ [take (resz r) data]"
    "rcap r' = rcap r" "resz r' = resz r"
proof -
  note S = spsc_atD [OF s] and D = ring_atD [OF spsc_atD(1) [OF s]]
  have nm: "n - m < rcap r" using room S(4) by linarith
  have at': "ring_at r' m (Suc n)"
    using D nm slot_write_ticket(1) [OF D(1) d] by (auto simp: ring_at_def r'_def)
  have "spsc_at r' m (Suc n) mc nc"
    using at' S room ring_shape_cap(3) [OF D(1)] by (simp add: spsc_at_def r'_def)
  then show "spsc_ok r'" by (auto simp: spsc_ok_iff)
  have "ring_slot r' = ring_slot (slot_write r (of_nat n) data)" by (simp add: r'_def)
  then show "ring_items r' = ring_items r @ [take (resz r) data]"
    using slot_write_next [OF S(1) nm d] D(6)
    by (simp add: ring_at_items [OF at'] ring_at_items [OF S(1)])
  show "rcap r' = rcap r" "resz r' = resz r" by (simp_all add: r'_def)
qed

lemma ring_spsc_push_ok:
  assumes ok: "spsc_ok r" and d: "resz r \<le> length data"
  shows "\<exists>r'. ring_spsc_push r data = (length (ring_items r) < rcap r, r') \<and> spsc_ok r' \<and>
    rcap r' = rcap r \<and> resz r' = resz r \<and>
    ring_items r' = ring_items r @ (if length (ring_items r) < rcap r then [take (resz r) data] else [])"
proof -
  from ok obtain m n mc nc where s: "spsc_at r m n mc nc" by (auto simp: spsc_ok_iff)
  note S = spsc_atD [OF s] and D = ring_atD [OF spsc_atD(1) [OF s]]
  have len: "length (ring_items r) = n - m" by (simp add: ring_at_items [OF S(1)])
  let ?r = "r\<lparr>cached_cons_tail := cons_tail r\<rparr>"
  note s' = spsc_reload(1) [OF s]
  consider (cached) "n - mc < rcap r" | (room) "rcap r \<le> n - mc" "n - m < rcap r"
    | (full) "rcap r \<le> n - mc" "n - m = rcap r"
    using D(6,7) by fastforce
  then show ?thesis
  proof cases
    case cached
    then show ?thesis
      using spsc_commit [OF s cached d] stale_full_test [OF s] len S(4)
      by (simp add: ring_spsc_push_def Let_def D(2-5) S(2))
  next
    case room
    then show ?thesis
      using spsc_commit [OF s', of data] stale_full_test [OF s] stale_full_test [OF s'] len d
      by (simp add: ring_spsc_push_def Let_def D(2-5) S(2) spsc_reload(3) [OF s, unfolded D])
  next
    case full
    have "spsc_ok ?r" using s' by (auto simp: spsc_ok_iff)
    then show ?thesis
      using full stale_full_test [OF s] stale_full_test [OF s'] len spsc_reload(3) [OF s]
      by (simp add: ring_spsc_push_def Let_def D(2-5) S(2))
  qed
qed

lemma spsc_consume:
  assumes s: "spsc_at r m n mc nc" and some: "m < nc"
  defines "r' \<equiv> r\<lparr>cons_tail := of_nat m + 1, cons_head := of_nat m + 1\<rparr>"
  shows "spsc_ok r'" "ring_items r = slot_read r (of_nat m) # ring_items r'"
    "rcap r' = rcap r" "resz r' = resz r"
proof -
  note S = spsc_atD [OF s] and D = ring_atD [OF spsc_atD(1) [OF s]]
  have mn: "m < n" using some S(6) by linarith
  have r': "r' = r\<lparr>cons_head := of_nat (m + 1), cons_tail := of_nat (m + 1)\<rparr>"
    by (simp add: r'_def add.commute)
  have at': "ring_at r' (m + 1) n" and items: "ring_items r' = drop 1 (ring_items r)"
    using cons_advance [OF S(1), of 1] mn unfolding r' by simp_all
  have "spsc_at r' (m + 1) n mc nc"
    using at' S some by (auto simp: spsc_at_def r')
  then show "spsc_ok r'" by (auto simp: spsc_ok_iff)
  show "ring_items r = slot_read r (of_nat m) # ring_items r'"
    using mn by (simp add: items ring_at_items [OF S(1)] upt_conv_Cons slot_read_ticket [OF D(1)])
  show "rcap r' = rcap r" "resz r' = resz r" by (simp_all add: r'_def)
qed

lemma ring_spsc_pop_ok:
  assumes ok: "spsc_ok r"
  shows "\<exists>r'. ring_spsc_pop r =
      ((case ring_items r of [] \<Rightarrow> None | x # _ \<Rightarrow> Some x), r') \<and> spsc_ok r' \<and>
    rcap r' = rcap r \<and> resz r' = resz r \<and> ring_items r' = tl (ring_items r)"
proof -
  from ok obtain m n mc nc where s: "spsc_at r m n mc nc" by (auto simp: spsc_ok_iff)
  note S = spsc_atD [OF s] and D = ring_atD [OF spsc_atD(1) [OF s]]
  let ?r = "r\<lparr>cached_prod_tail := prod_tail r\<rparr>"
  note s' = spsc_reload(2) [OF s]
  have test: "0 \<le> sint (of_nat m - of_nat x :: u32) \<longleftrightarrow> x \<le> m" if "x = nc \<or> x = n" for x
    using that S(6,7) D(6,7) ring_shape_cap(2) [OF D(1)] by (intro sint_cursor_diff) auto
  consider (cached) "m < nc" | (some) "nc \<le> m" "m < n" | (none) "nc \<le> m" "m = n"
    using D(6) by fastforce
  then show ?thesis
  proof cases
    case cached
    with spsc_consume [OF s] test [of nc] show ?thesis
      by (simp add: ring_spsc_pop_def Let_def D(2-5) S(3))
  next
    case some
    with spsc_consume [OF s'] test [of nc] test [of n] spsc_reload(4) [OF s, unfolded D(3)]
    show ?thesis by (simp add: ring_spsc_pop_def Let_def D(2-5) S(3))
  next
    case none
    have "spsc_ok ?r" using s' by (auto simp: spsc_ok_iff)
    with none test [of nc] test [of n] spsc_reload(4) [OF s] show ?thesis
      by (simp add: ring_spsc_pop_def Let_def D(2-5) S(3) ring_at_items [OF S(1)])
  qed
qed

section \<open>The contract\<close>

interpretation sp: bounded_fifo spsc_ok ring_items rcap "\<lambda>r x. length x = resz r"
  "\<lambda>r x. Some (ring_spsc_push r x)" "\<lambda>r. Some (ring_spsc_pop r)"
proof unfold_locales
  fix r :: chan_ring_lf and x :: "byte list"
  assume ok: "spsc_ok r"
  show "length (ring_items r) \<le> rcap r"
    using ok by (auto simp: spsc_ok_def intro: ring_items_bounded)
  show "\<exists>r'. Some (ring_spsc_pop r) = Some (case ring_items r of [] \<Rightarrow> None | y # _ \<Rightarrow> Some y, r') \<and>
      spsc_ok r' \<and> rcap r' = rcap r \<and> (\<lambda>x. length x = resz r') = (\<lambda>x. length x = resz r) \<and>
      ring_items r' = tl (ring_items r)"
    using ring_spsc_pop_ok [OF ok] by auto
  assume "length x = resz r"
  then show "\<exists>r'. Some (ring_spsc_push r x) = Some (length (ring_items r) < rcap r, r') \<and> spsc_ok r' \<and>
      rcap r' = rcap r \<and> (\<lambda>x. length x = resz r') = (\<lambda>x. length x = resz r) \<and>
      ring_items r' = (if length (ring_items r) < rcap r then ring_items r @ [x] else ring_items r)"
    using ring_spsc_push_ok [OF ok, of x] by auto
qed

end
