(* ===== verification/Ring_Init.thy ===== *)
theory Ring_Init
  imports Ring_Spsc
begin

text \<open>
  \<open>next_pow2\<close> and \<open>ring_lf_init\<close>: the allocated capacity is the least power of two that
  is at least the requested one, for every request up to \<open>2 ^ 31\<close>; what happens beyond.
\<close>

section \<open>Initialisation\<close>

text \<open>The smear of \<open>next_pow2\<close> sets every bit below the highest one.\<close>

definition smear :: "u32 \<Rightarrow> u32" where
  "smear n0 =
     (let n1 = n0 OR drop_bit 1 n0; n2 = n1 OR drop_bit 2 n1; n3 = n2 OR drop_bit 4 n2;
          n4 = n3 OR drop_bit 8 n3
      in n4 OR drop_bit 16 n4)"

lemma bit_or_drop:
  assumes "\<And>i. bit (y :: u32) i \<longleftrightarrow> (\<exists>d < w. bit (x :: u32) (i + d))"
  shows "bit (y OR drop_bit w y) i \<longleftrightarrow> (\<exists>d < w + w. bit x (i + d))"
proof -
  have "bit (y OR drop_bit w y) i \<longleftrightarrow> (\<exists>d < w. bit x (i + d)) \<or> (\<exists>d < w. bit x (w + i + d))"
    by (simp add: bit_or_iff bit_drop_bit_eq assms)
  also have "\<dots> \<longleftrightarrow> (\<exists>d < w + w. bit x (i + d))" (is "?l \<longleftrightarrow> ?r")
  proof
    assume ?l
    then show ?r
    proof
      assume "\<exists>d < w. bit x (w + i + d)"
      then obtain d where "d < w" "bit x (i + (w + d))" by (auto simp: ac_simps)
      then show ?r by (intro exI [of _ "w + d"]) auto
    qed (meson trans_less_add1)
  next
    assume ?r
    then obtain d where d: "d < w + w" "bit x (i + d)" by auto
    then show ?l
    proof (cases "d < w")
      case False
      then have "d - w < w" "bit x (w + i + (d - w))" using d by (auto simp: ac_simps)
      then show ?l by blast
    qed auto
  qed
  finally show ?thesis .
qed

lemma bit_smear: "bit (smear x) i \<longleftrightarrow> (\<exists>d < 32. bit x (i + d))"
proof -
  define n1 n2 n3 n4 where n: "n1 = x OR drop_bit 1 x" "n2 = n1 OR drop_bit 2 n1"
    "n3 = n2 OR drop_bit 4 n2" "n4 = n3 OR drop_bit 8 n3"
  have b1: "bit n1 i \<longleftrightarrow> (\<exists>d < 2. bit x (i + d))" for i
    using bit_or_drop [of x 1 x i] by (simp add: n numeral_2_eq_2)
  have b2: "bit n2 i \<longleftrightarrow> (\<exists>d < 4. bit x (i + d))" for i
    using bit_or_drop [of n1 2 x i, OF b1] by (simp add: n)
  have b3: "bit n3 i \<longleftrightarrow> (\<exists>d < 8. bit x (i + d))" for i
    using bit_or_drop [of n2 4 x i, OF b2] by (simp add: n)
  have b4: "bit n4 i \<longleftrightarrow> (\<exists>d < 16. bit x (i + d))" for i
    using bit_or_drop [of n3 8 x i, OF b3] by (simp add: n)
  have "smear x = n4 OR drop_bit 16 n4" by (simp add: smear_def n Let_def)
  then show ?thesis using bit_or_drop [of n4 16 x i, OF b4] by simp
qed

text \<open>For every argument up to \<open>2 ^ 31\<close> the result is the next power of two.\<close>

lemma highest_bit:
  assumes "(x :: u32) \<noteq> 0"
  obtains k where "k < 32" "bit x k" "\<And>j. k < j \<Longrightarrow> \<not> bit x j" "2 ^ k \<le> unat x" "unat x < 2 ^ (k + 1)"
proof -
  define k where "k = Max {i. i < 32 \<and> bit x i}"
  have "\<exists>i. bit x i" using assms by (metis bit_eq_iff bit_0_eq bot_apply bot_bool_def)
  then have ne: "{i. i < 32 \<and> bit x i} \<noteq> {}" using bit_imp_le_length [of x] by fastforce
  have "k \<in> {i. i < 32 \<and> bit x i}" unfolding k_def by (rule Max_in) (use ne in auto)
  then have k: "k < 32" "bit x k" by auto
  have top: "\<not> bit x j" if "k < j" for j
  proof
    assume "bit x j"
    moreover from this have "j < 32" using bit_imp_le_length [of x j] by simp
    ultimately have "j \<le> k" unfolding k_def by (intro Max_ge) auto
    with that show False by simp
  qed
  have "take_bit (k + 1) x = x"
    by (rule bit_eqI) (use top in \<open>force simp: bit_take_bit_iff not_less_eq\<close>)
  then have "take_bit (k + 1) (unat x) = unat x" by (metis unsigned_take_bit_eq)
  then have hi: "unat x < 2 ^ (k + 1)" by (metis take_bit_nat_less_exp)
  have "bit (unat x) k" using k by (simp add: bit_unsigned_iff)
  then have "2 ^ k \<le> unat x" by (metis bit_iff_odd div_less even_zero linorder_not_le)
  then show ?thesis using k top hi by (intro that)
qed

lemma next_pow2_bounds:
  assumes "0 < unat n" "unat n \<le> 2 ^ 31"
  shows "\<exists>k < 32. next_pow2 n = 2 ^ k \<and> unat n \<le> 2 ^ k \<and> (k = 0 \<or> 2 ^ (k - 1) < unat n)"
proof (cases "n = 1")
  case True
  then show ?thesis by (intro exI [of _ 0]) (simp add: next_pow2_def)
next
  case False
  have n1: "unat (n - 1) = unat n - 1" using assms by (metis unat_minus_one unat_gt_0)
  have "n - 1 \<noteq> 0" using False by simp
  then obtain k where k: "k < 32" "bit (n - 1) k" "\<And>j. k < j \<Longrightarrow> \<not> bit (n - 1) j"
    "2 ^ k \<le> unat (n - 1)" "unat (n - 1) < 2 ^ (k + 1)" by (rule highest_bit) blast
  have "(2::nat) ^ k < 2 ^ 31" using k(4) n1 assms by linarith
  then have k31: "k < 31" by (rule power_less_imp_less_exp [rotated]) simp
  have "smear (n - 1) = mask (k + 1)"
  proof (rule bit_eqI)
    fix i assume "possible_bit TYPE(u32) i"
    then have "i < 32" by (simp add: possible_bit_def)
    moreover have "i \<le> k" if "bit (n - 1) (i + d)" for d
      using k(3) [of "i + d"] that by linarith
    moreover have "\<exists>d < 32. bit (n - 1) (i + d)" if "i \<le> k"
      using k(1,2) that by (intro exI [of _ "k - i"]) auto
    ultimately show "bit (smear (n - 1)) i \<longleftrightarrow> bit (mask (k + 1) :: u32) i"
      by (auto simp: bit_smear bit_mask_iff less_Suc_eq_le)
  qed
  then have "smear (n - 1) + 1 = 2 ^ (k + 1)" by (simp add: mask_eq_exp_minus_1)
  moreover have "n \<noteq> 0" using assms by auto
  then have "next_pow2 n = smear (n - 1) + 1" by (simp add: next_pow2_def smear_def Let_def)
  ultimately show ?thesis
    using k(4,5) n1 assms k31 by (intro exI [of _ "k + 1"]) auto
qed

text \<open>The allocator: a non-null result has the requested size.\<close>

definition malloc_spec :: "(u64 \<Rightarrow> byte list option) \<Rightarrow> bool" where
  "malloc_spec malloc \<longleftrightarrow> (\<forall>n mem. malloc n = Some mem \<longrightarrow> length mem = unat n)"

text \<open>The requests for which nothing overflows.\<close>

definition init_fits :: "u64 \<Rightarrow> u64 \<Rightarrow> bool" where
  "init_fits cap elem_size \<longleftrightarrow> 0 < unat cap \<and> unat cap \<le> 2 ^ 31 \<and> 0 < unat elem_size \<and>
     unat (next_pow2 (ucast cap)) * unat elem_size < 2 ^ 64"

lemma unat_ucast_fits: "unat (cap :: u64) < 2 ^ 32 \<Longrightarrow> unat (ucast cap :: u32) = unat cap"
  by (simp add: unsigned_ucast_eq take_bit_nat_eq_self)

lemma unat_product_fits:
  assumes "unat (a :: u32) * unat (es :: u64) < 2 ^ 64"
  shows "unat (ucast a * es) = unat a * unat es"
proof -
  have "unat a < 2 ^ LENGTH(32)" by (rule unsigned_less)
  then have "unat (ucast a :: u64) = unat a" by (simp add: unsigned_ucast_eq take_bit_nat_eq_self)
  with assms show ?thesis by (simp add: unat_word_ariths)
qed

lemma ring_lf_init_ok:
  assumes m: "malloc_spec malloc" and fit: "init_fits cap es"
    and init: "ring_lf_init malloc cap es = Some r"
  shows "ring_at r 0 0 \<and> spsc_ok r \<and> ring_items r = [] \<and> resz r = unat es \<and>
    unat cap \<le> rcap r \<and> rcap r < 2 * unat cap"
proof -
  let ?a = "next_pow2 (ucast cap)"
  have c: "unat (ucast cap :: u32) = unat cap"
    using fit by (intro unat_ucast_fits) (simp add: init_fits_def)
  obtain k where k: "k < 32" "?a = 2 ^ k" "unat cap \<le> 2 ^ k" "k = 0 \<or> 2 ^ (k - 1) < unat cap"
    using next_pow2_bounds [of "ucast cap"] fit by (auto simp: c init_fits_def)
  have "es \<noteq> 0" "cap \<noteq> 0" using fit by (auto simp: init_fits_def)
  with init obtain mem where mem: "malloc (ucast ?a * es) = Some mem" and
    r: "r = \<lparr>prod_head = 0, prod_tail = 0, cached_cons_tail = 0, cons_head = 0, cons_tail = 0,
      cached_prod_tail = 0, ring_mask = ?a - 1, ring_capacity = ?a, ring_elem_size = es, slots = mem\<rparr>"
    by (auto simp: ring_lf_init_def Let_def split: option.splits)
  have len: "length mem = unat ?a * unat es"
    using m mem fit unat_product_fits [of ?a es] by (simp add: malloc_spec_def init_fits_def)
  have cap: "rcap r = 2 ^ k" "resz r = unat es"
    using k(1) by (simp_all add: r rcap_def resz_def k(2) unat_pow2)
  have "ring_shape r"
    using fit len k(1) cap unfolding ring_shape_def
    by (auto simp: r k(2) init_fits_def unat_pow2 intro!: bexI [of _ k])
  then have at: "ring_at r 0 0" by (simp add: ring_at_def r)
  moreover have "ring_items r = []" by (simp add: ring_items_def r)
  moreover from this at have "spsc_ok r" by (simp add: spsc_ok_def r ring_ok_def ring_at_def)
  moreover have "(2::nat) ^ k < 2 * unat cap"
    using k(4) fit by (cases k) (auto simp: init_fits_def)
  ultimately show ?thesis using k(3) cap by simp
qed

lemma ring_at_ok: "ring_at r m n \<Longrightarrow> ring_ok r"
  using ring_ok_iff by blast

text \<open>
  C5. A ring created for \<open>cap\<close> elements (at most \<open>2 ^ 31\<close>, and a byte size that fits in
  64 bits) refines a bounded FIFO queue whose capacity is the least power of two at least
  \<open>cap\<close>: every sequence of \<open>ring_lf_push\<close> and \<open>ring_lf_pop\<close> returns, with exactly the
  replies of the abstract queue, and leaves the abstract contents in the slots.
\<close>

theorem ring_lf_refines_fifo:
  assumes "malloc_spec malloc" "init_fits cap es" "ring_lf_init malloc cap es = Some r"
    and "list_all (op_valid (\<lambda>x. length x = unat es)) ops"
  shows "\<exists>c rs r'. unat cap \<le> c \<and> c < 2 * unat cap \<and>
    fifo_run ring_lf_push ring_lf_pop r ops = Some (rs, r') \<and>
    spec_run c [] ops = (rs, ring_items r') \<and> taken rs @ ring_items r' = accepted ops rs"
proof -
  note R = ring_lf_init_ok [OF assms(1-3)]
  have "ring_ok r" using R ring_at_ok by blast
  with lf.run_refines [of r ops] R assms(4) obtain rs r' where
    "fifo_run ring_lf_push ring_lf_pop r ops = Some (rs, r')" "spec_run (rcap r) [] ops = (rs, ring_items r')"
    by auto
  with R spec_run_fifo [of "rcap r" "[]" ops rs "ring_items r'"] show ?thesis by auto
qed

text \<open>A ring of three one-byte elements: the capacity becomes four.\<close>

definition demo_malloc :: "u64 \<Rightarrow> byte list option" where
  "demo_malloc n = Some (replicate (unat n) 0)"

definition fresh_ring :: chan_ring_lf where
  "fresh_ring =
     \<lparr>prod_head = 0, prod_tail = 0, cached_cons_tail = 0, cons_head = 0, cons_tail = 0,
      cached_prod_tail = 0, ring_mask = 3, ring_capacity = 4, ring_elem_size = 1,
      slots = [0, 0, 0, 0]\<rparr>"

lemma next_pow2_3: "next_pow2 3 = 4"
  by (simp add: next_pow2_def)

lemma replicate_4: "replicate 4 x = [x, x, x, x]"
  by (simp add: numeral_eq_Suc)

lemma fresh_ring_init:
  "malloc_spec demo_malloc" "init_fits 3 1" "ring_lf_init demo_malloc 3 1 = Some fresh_ring"
  by (simp_all add: malloc_spec_def demo_malloc_def init_fits_def next_pow2_3 ring_lf_init_def
      fresh_ring_def replicate_4)

lemma fresh_ring_ok: "ring_ok fresh_ring" "ring_items fresh_ring = []" "resz fresh_ring = 1" "rcap fresh_ring = 4"
  using ring_lf_init_ok [OF fresh_ring_init] ring_at_ok by (auto simp: fresh_ring_def rcap_def)

theorem ring_lf_refines_fifo_witness:
  "\<exists>c rs r'. (3 :: nat) \<le> c \<and> c < 6 \<and>
     fifo_run ring_lf_push ring_lf_pop fresh_ring [Enq [7], Enq [8], Deq, Enq [9]] = Some (rs, r') \<and>
     taken rs @ ring_items r' = accepted [Enq [7], Enq [8], Deq, Enq [9]] rs"
  using ring_lf_refines_fifo [OF fresh_ring_init, of "[Enq [7], Enq [8], Deq, Enq [9]]"] by fastforce

text \<open>
  C10. The cursor-cached operations of a single-producer/single-consumer ring refine the
  same bounded FIFO queue: reading the opposite cursor only when the cache does not
  already grant room or data never changes a reply.
\<close>

theorem ring_spsc_refines_fifo:
  assumes "malloc_spec malloc" "init_fits cap es" "ring_lf_init malloc cap es = Some r"
    and "list_all (op_valid (\<lambda>x. length x = unat es)) ops"
  shows "\<exists>rs r1 r2.
    fifo_run (\<lambda>r x. Some (ring_spsc_push r x)) (\<lambda>r. Some (ring_spsc_pop r)) r ops = Some (rs, r1) \<and>
    fifo_run ring_lf_push ring_lf_pop r ops = Some (rs, r2) \<and> ring_items r1 = ring_items r2"
proof -
  note R = ring_lf_init_ok [OF assms(1-3)]
  have "ring_ok r" using R ring_at_ok by blast
  with R lf.run_refines [of r ops] sp.run_refines [of r ops] assms(4) show ?thesis by force
qed

theorem ring_spsc_refines_fifo_witness:
  "\<exists>rs r1 r2.
     fifo_run (\<lambda>r x. Some (ring_spsc_push r x)) (\<lambda>r. Some (ring_spsc_pop r)) fresh_ring
       [Enq [7], Deq, Deq, Enq [9]] = Some (rs, r1) \<and>
     fifo_run ring_lf_push ring_lf_pop fresh_ring [Enq [7], Deq, Deq, Enq [9]] = Some (rs, r2) \<and>
     ring_items r1 = ring_items r2"
  using ring_spsc_refines_fifo [OF fresh_ring_init, of "[Enq [7], Deq, Deq, Enq [9]]"] by fastforce

section \<open>Requests that do not fit\<close>

lemma next_pow2_wraps:
  assumes "2 ^ 31 < unat (n :: u32)"
  shows "next_pow2 n = 0"
proof -
  have n0: "n \<noteq> 0" using assms by auto
  have "bit (n - 1) 31"
  proof -
    have lt: "unat n < 2 ^ LENGTH(32)" by (rule unsigned_less)
    have "unat (n - 1) = unat n - 1" using n0 by (rule unat_minus_one)
    then have "2 ^ 31 \<le> unat (n - 1)" "unat (n - 1) < 2 * 2 ^ 31" using assms lt by simp_all
    then have "unat (n - 1) div 2 ^ 31 = 1" by (intro div_nat_eqI) simp_all
    then have "bit (unat (n - 1)) 31" by (simp add: bit_iff_odd)
    then show ?thesis by (simp add: bit_unsigned_iff)
  qed
  then have "\<exists>d < 32. bit (n - 1) (i + d)" if "i < 32" for i
    using that by (intro exI [of _ "31 - i"]) simp
  then have "smear (n - 1) = -1"
    by (intro bit_eqI) (simp add: bit_smear possible_bit_def)
  then show ?thesis using n0 by (simp add: next_pow2_def smear_def Let_def)
qed

text \<open>
  C40. A capacity request between \<open>2 ^ 31\<close> and \<open>2 ^ 32\<close> wraps: \<open>next_pow2\<close> returns
  \<open>0\<close>, \<open>malloc(0)\<close> is called, and the ring has capacity \<open>0\<close>: \<open>ring_lf_push\<close> reports
  full for every argument, forever.
\<close>

theorem ring_lf_init_zero_capacity:
  assumes "2 ^ 31 < unat cap" "unat cap < 2 ^ 32" "es \<noteq> 0" "malloc 0 = Some mem"
  shows "\<exists>r. ring_lf_init malloc cap es = Some r \<and> ring_capacity r = 0 \<and>
    (\<forall>d. ring_lf_push r d = Some (False, r))"
proof -
  have "cap \<noteq> 0" using assms(1) by auto
  moreover have "next_pow2 (ucast cap) = 0"
    using assms(1,2) by (intro next_pow2_wraps) (simp add: unat_ucast_fits)
  ultimately show ?thesis using assms(3,4) by (simp add: ring_lf_init_def ring_lf_push_def)
qed

theorem ring_lf_init_zero_capacity_witness:
  "\<exists>r. ring_lf_init demo_malloc 2147483649 1 = Some r \<and> ring_capacity r = 0 \<and>
     (\<forall>d. ring_lf_push r d = Some (False, r))"
proof -
  have "demo_malloc 0 = Some []" by (simp add: demo_malloc_def)
  then show ?thesis using ring_lf_init_zero_capacity [of 2147483649 1 demo_malloc "[]"] by simp
qed

text \<open>
  The request is truncated to 32 bits before it is rounded: a request of exactly
  \<open>2 ^ 32\<close> elements gives a ring of one slot, and the byte size of the slot array is a
  64-bit product that can wrap: four elements of \<open>2 ^ 62\<close> bytes give an empty array with
  four slots, so that the first push writes outside it.
\<close>

lemma ring_lf_init_truncates:
  "map_option ring_capacity (ring_lf_init demo_malloc (2 ^ 32) 1) = Some 1 \<and>
   map_option (\<lambda>r. (ring_capacity r, length (slots r))) (ring_lf_init demo_malloc 4 (2 ^ 62)) = Some (4, 0)"
proof -
  have "next_pow2 4 = 4" "next_pow2 0 = 1" by (simp_all add: next_pow2_def)
  moreover have "next_pow2 4294967296 = 1"
  proof -
    have "(4294967296 :: u32) = 0" by code_simp
    then show ?thesis by (simp only: \<open>next_pow2 0 = 1\<close>)
  qed
  ultimately show ?thesis by (simp add: ring_lf_init_def demo_malloc_def)
qed

end
