(* ===== verification/Ring_Stale.thy ===== *)
theory Ring_Stale
  imports Ring_Init
begin

text \<open>
  The bulk operations end to end, and what mixing plain and cursor-cached operations can do: a consumer of a
  single-consumer ring that takes \<open>2 ^ 31\<close> elements through the plain operations (bulk
  receive, select, the locked slow path) leaves its cache half a turn behind, and its next
  cached pop takes an element from an empty ring.
\<close>

section \<open>Bulk transfer\<close>

text \<open>
  C20. Bulk transfer: \<open>ring_lf_enqueue_burst\<close> accepts as many elements as fit, in order,
  and a following \<open>ring_lf_dequeue_burst\<close> returns the oldest elements, those before the
  burst first, split over the end of the slot array or not.
\<close>

theorem ring_burst_roundtrip:
  assumes "ring_ok r" "unat n * resz r \<le> length data"
    and k_def: "k = min (unat n) (rcap r - length (ring_items r))"
    and j_def: "j = min (unat m) (length (ring_items r) + k)"
  shows "\<exists>r1 out r2. ring_lf_enqueue_burst r data n = Some (of_nat k, r1) \<and>
    ring_lf_dequeue_burst r1 m = Some (of_nat j, out, r2) \<and> ring_ok r2 \<and>
    chunks (resz r) j out = take j (ring_items r @ chunks (resz r) k data) \<and>
    ring_items r2 = drop j (ring_items r @ chunks (resz r) k data)"
proof -
  have "k * resz r \<le> unat n * resz r" unfolding k_def by (intro mult_le_mono1) simp
  then have "k * resz r \<le> length data" using assms(2) by (rule le_trans)
  then obtain r1 where r1: "ring_lf_enqueue_burst r data n = Some (of_nat k, r1)" "ring_ok r1"
    "resz r1 = resz r" "ring_items r1 = ring_items r @ chunks (resz r) k data"
    using ring_lf_enqueue_burst_ok [OF assms(1), of k n data] by (auto simp: k_def)
  moreover have "j = min (unat m) (length (ring_items r1))" by (simp add: r1(4) j_def)
  ultimately show ?thesis using ring_lf_dequeue_burst_ok [OF r1(2), of j m] by auto
qed

theorem ring_burst_roundtrip_witness:
  "\<exists>r1 out r2. ring_lf_enqueue_burst fresh_ring [1, 2, 3, 4, 5, 6] 6 = Some (4, r1) \<and>
     ring_lf_dequeue_burst r1 3 = Some (3, out, r2) \<and>
     chunks 1 3 out = [[1], [2], [3]] \<and> ring_items r2 = [[4]]"
proof -
  have c: "chunks 1 4 [1, 2, 3, 4, 5, 6 :: byte] = [[1], [2], [3], [4]]"
    by code_simp
  show ?thesis
    using ring_burst_roundtrip [OF fresh_ring_ok(1), of 6 "[1, 2, 3, 4, 5, 6]" 4 3 3]
    unfolding fresh_ring_ok c by fastforce
qed

section \<open>Half a turn behind\<close>

definition plain_cycle :: "byte list \<Rightarrow> chan_ring_lf \<Rightarrow> chan_ring_lf option" where
  "plain_cycle d r =
     (case ring_lf_push r d of None \<Rightarrow> None | Some (_, r1) \<Rightarrow> map_option snd (ring_lf_pop r1))"

fun plain_cycles :: "nat \<Rightarrow> byte list \<Rightarrow> chan_ring_lf \<Rightarrow> chan_ring_lf option" where
  "plain_cycles 0 d r = Some r"
| "plain_cycles (Suc i) d r =
     (case plain_cycle d r of None \<Rightarrow> None | Some r' \<Rightarrow> plain_cycles i d r')"

lemma plain_cycle_at:
  assumes at: "ring_at r m m" and d: "length d = resz r"
  shows "\<exists>r'. plain_cycle d r = Some r' \<and> ring_at r' (Suc m) (Suc m) \<and> resz r' = resz r \<and>
    cached_prod_tail r' = cached_prod_tail r"
proof -
  note D = ring_atD [OF at]
  have room: "m - m \<noteq> rcap r" using ring_shape_cap(1) [OF D(1)] by simp
  define r1 where
    "r1 = (slot_write r (of_nat m) d)\<lparr>prod_head := of_nat (Suc m), prod_tail := of_nat (Suc m)\<rparr>"
  have p: "ring_lf_push r d = Some (True, r1)"
    using ring_lf_push_at [OF at, of d] d room by (simp add: r1_def)
  have "ring_at r1 m (Suc m)"
    using D room d slot_write_ticket(1) [OF D(1), of d m] by (auto simp: ring_at_def r1_def)
  note D1 = ring_atD [OF this] and adv = cons_advance [OF this, of 1]
  have ne: "prod_tail r1 \<noteq> cons_head r1"
    using of_nat_eq_u32 [of m "Suc m"] by (simp only: D1(3,4)) simp
  then have "ring_lf_pop r1 =
      Some (Some (slot_read r1 (of_nat m)), r1\<lparr>cons_head := of_nat (m + 1), cons_tail := of_nat (m + 1)\<rparr>)"
    by (simp add: ring_lf_pop_def Let_def D1(4,5) add.commute)
  with adv(1) p show ?thesis by (simp add: plain_cycle_def) (simp add: r1_def)
qed

lemma plain_cycles_at:
  assumes "ring_at r m m" "length d = resz r"
  shows "\<exists>r'. plain_cycles i d r = Some r' \<and> ring_at r' (m + i) (m + i) \<and>
    cached_prod_tail r' = cached_prod_tail r"
  using assms
proof (induction i arbitrary: r m)
  case (Suc i)
  from plain_cycle_at [OF Suc.prems] obtain r1 where r1: "plain_cycle d r = Some r1"
    "ring_at r1 (Suc m) (Suc m)" "resz r1 = resz r" "cached_prod_tail r1 = cached_prod_tail r" by blast
  with Suc.IH [OF r1(2)] Suc.prems show ?case by simp
qed auto

text \<open>
  C38. Contrary to the comment that a stale cache is always safe, a cache that is
  \<open>2 ^ 31\<close> elements behind is not: after that many elements pass through the plain
  operations the ring is empty, and \<open>ring_spsc_pop\<close> nevertheless succeeds.
\<close>

theorem spsc_stale_cache_phantom:
  assumes "malloc_spec malloc" "init_fits cap es" "ring_lf_init malloc cap es = Some r"
    and "length d = unat es"
  shows "\<exists>r'. plain_cycles (2 ^ 31) d r = Some r' \<and> ring_items r' = [] \<and> ring_empty r' \<and>
    (\<exists>x. fst (ring_spsc_pop r') = Some x)"
proof -
  note R = ring_lf_init_ok [OF assms(1-3)]
  have c0: "cached_prod_tail r = 0"
    using assms(3) by (auto simp: ring_lf_init_def Let_def split: if_splits option.splits)
  from R have at: "ring_at r 0 0" and es: "length d = resz r" using assms(4) by simp_all
  from plain_cycles_at [OF at es, of "2 ^ 31"] obtain r' where
    r': "plain_cycles (2 ^ 31) d r = Some r'" "ring_at r' (2 ^ 31) (2 ^ 31)" "cached_prod_tail r' = 0"
    by (auto simp: c0)
  note D = ring_atD [OF r'(2)]
  have items: "ring_items r' = []" by (simp add: ring_at_items [OF r'(2)])
  have "sint (cons_head r' - cached_prod_tail r') < 0" by (simp add: D(4) r'(3))
  then have "\<exists>x. fst (ring_spsc_pop r') = Some x" by (simp add: ring_spsc_pop_def Let_def)
  with r'(1) items ring_observers(3) [OF ring_at_ok [OF r'(2)]] show ?thesis by blast
qed

theorem spsc_stale_cache_phantom_witness:
  "\<exists>r'. plain_cycles (2 ^ 31) [7] fresh_ring = Some r' \<and> ring_items r' = [] \<and>
     (\<exists>x. fst (ring_spsc_pop r') = Some x)"
proof -
  have "length [7 :: byte] = unat (1 :: u64)" by simp
  from spsc_stale_cache_phantom [OF fresh_ring_init this] show ?thesis by blast
qed

end
