(* ===== verification/Chan_Types.thy ===== *)
theory Chan_Types
  imports Ring_Lf
begin

text \<open>
  The data of the library: error codes and select cases of \<open>include/libchan.h\<close>, and the
  waiter, wait queue and channel structures of \<open>src/libchan_internal.h\<close>. Pointers are
  addresses into maps: waiters live in a heap, user buffers in a memory of byte arrays,
  parks and the shared states of selects in maps of their own, and channels in a map by address.
\<close>

section \<open>Public types\<close>

datatype chan_err =
  CHAN_OK | CHAN_ERR_CLOSED | CHAN_ERR_TIMEOUT | CHAN_ERR_WOULDBLOCK | CHAN_ERR_INVALID | CHAN_ERR_NOMEM

datatype chan_op = CHAN_OP_SEND | CHAN_OP_RECV

text \<open>Addresses of user buffers, channels and threads.\<close>

type_synonym baddr = nat
type_synonym caddr = nat
type_synonym tid = nat

record chan_select_case =
  case_ch :: caddr
  case_op :: chan_op
  case_data :: baddr
  case_result :: chan_err

section \<open>Waiters and wait queues\<close>

text \<open>
  A blocked \<open>chan_send\<close> or \<open>chan_recv\<close> has one waiter on its stack (\<open>self\<close>); a blocked
  select has one stub per case.
\<close>

datatype waddr = Self tid | Stub tid nat

text \<open>A waiter's own park, or the park shared by the stubs of a select.\<close>

datatype park_ptr = OwnPark waddr | SharedPark tid

record chan_waiter =
  wnext :: "waddr option"
  wdata :: baddr
  wop :: chan_op
  wresult :: chan_err
  case_idx :: u64
  wake_park :: park_ptr
  select_state :: "tid option"

type_synonym wheap = "waddr \<Rightarrow> chan_waiter"

record chan_waitq =
  q_head :: "waddr option"
  q_tail :: "waddr option"

section \<open>Channels\<close>

text \<open>
  \<open>lock\<close> is the thread that holds the mutex. \<open>freed\<close> is an auxiliary flag: the memory was
  given back by \<open>chan_free\<close>.
\<close>

record chan =
  elem_size :: u64
  capacity :: u64
  spsc :: bool
  lock :: "tid option"
  ring :: chan_ring_lf
  send_waiter_cnt :: int
  recv_waiter_cnt :: int
  send_waiters :: chan_waitq
  recv_waiters :: chan_waitq
  closed :: bool
  refcount :: int
  freed :: bool

section \<open>The shared state\<close>

text \<open>
  \<open>parks p\<close> is the word of a park (true once signalled) and \<open>sel_state t\<close> the shared state
  of the select that thread \<open>t\<close> blocks in (true for \<open>WAITER_WOKEN\<close>).
\<close>

record world =
  chans :: "caddr \<Rightarrow> chan"
  heap :: wheap
  parks :: "park_ptr \<Rightarrow> bool"
  sel_state :: "tid \<Rightarrow> bool"
  mem :: "baddr \<Rightarrow> byte list"

definition set_chan :: "caddr \<Rightarrow> chan \<Rightarrow> world \<Rightarrow> world" where
  "set_chan c ch w = w\<lparr>chans := (chans w)(c := ch)\<rparr>"

text \<open>\<open>memcpy(dst, src, ch->elem_size)\<close> between two user buffers.\<close>

definition copy_elem :: "u64 \<Rightarrow> baddr \<Rightarrow> baddr \<Rightarrow> (baddr \<Rightarrow> byte list) \<Rightarrow> baddr \<Rightarrow> byte list" where
  "copy_elem es dst src m = m(dst := memcpy (m dst) 0 (memread (m src) 0 (unat es)))"

text \<open>The element a receive writes to its output buffer.\<close>

definition store_elem :: "baddr \<Rightarrow> byte list \<Rightarrow> (baddr \<Rightarrow> byte list) \<Rightarrow> baddr \<Rightarrow> byte list" where
  "store_elem dst x m = m(dst := memcpy (m dst) 0 x)"

end
