(* ===== verification/Waitq.thy ===== *)
theory Waitq
  imports Chan_Types
begin

text \<open>
  The intrusive FIFO wait queues of \<open>src/libchan_internal.h\<close> on a heap of waiters:
  push at the tail, push at the front, pop, removal from the middle, and the claiming
  variants that skip select stubs another channel has already woken. \<open>wq h q xs\<close> relates
  the pointers to the list of queued waiters; every operation is proved to act on that
  list and to leave all other waiters' links alone.
\<close>

section \<open>Operations\<close>

abbreviation set_next :: "waddr \<Rightarrow> waddr option \<Rightarrow> wheap \<Rightarrow> wheap" where
  "set_next w p h \<equiv> h(w := (h w)\<lparr>wnext := p\<rparr>)"

definition waitq_push :: "chan_waitq \<Rightarrow> waddr \<Rightarrow> wheap \<Rightarrow> chan_waitq \<times> wheap" where
  "waitq_push q w h =
     (let h1 = set_next w None h
      in case q_tail q of
           Some t \<Rightarrow> (q\<lparr>q_tail := Some w\<rparr>, set_next t (Some w) h1)
         | None \<Rightarrow> (q\<lparr>q_head := Some w, q_tail := Some w\<rparr>, h1))"

definition waitq_push_front :: "chan_waitq \<Rightarrow> waddr \<Rightarrow> wheap \<Rightarrow> chan_waitq \<times> wheap" where
  "waitq_push_front q w h =
     (let h1 = set_next w (q_head q) h;
          q1 = (if q_head q = None then q\<lparr>q_tail := Some w\<rparr> else q)
      in (q1\<lparr>q_head := Some w\<rparr>, h1))"

definition waitq_pop :: "chan_waitq \<Rightarrow> wheap \<Rightarrow> waddr option \<times> chan_waitq \<times> wheap" where
  "waitq_pop q h =
     (case q_head q of
        None \<Rightarrow> (None, q, h)
      | Some w \<Rightarrow>
          (let q1 = q\<lparr>q_head := wnext (h w)\<rparr>;
               q2 = (if q_head q1 = None then q1\<lparr>q_tail := None\<rparr> else q1)
           in (Some w, q2, set_next w None h)))"

definition waitq_unlink ::
    "chan_waitq \<Rightarrow> waddr option \<Rightarrow> waddr \<Rightarrow> wheap \<Rightarrow> chan_waitq \<times> wheap" where
  "waitq_unlink q prev cur h =
     (let (q1, h1) =
            (case prev of
               Some p \<Rightarrow> (q, set_next p (wnext (h cur)) h)
             | None \<Rightarrow> (q\<lparr>q_head := wnext (h cur)\<rparr>, h));
          q2 = (if q_tail q1 = Some cur then q1\<lparr>q_tail := prev\<rparr> else q1)
      in (q2, set_next cur None h1))"

text \<open>The scan of \<open>waitq_remove\<close>; a cyclic list would keep it running forever.\<close>

partial_function (option) waitq_remove_from ::
    "chan_waitq \<Rightarrow> waddr \<Rightarrow> wheap \<Rightarrow> waddr option \<Rightarrow> waddr option \<Rightarrow> (bool \<times> chan_waitq \<times> wheap) option" where
  "waitq_remove_from q target h prev cur =
     (case cur of
        None \<Rightarrow> Some (False, q, h)
      | Some c \<Rightarrow>
          (if c = target then Some (True, waitq_unlink q prev c h)
           else waitq_remove_from q target h (Some c) (wnext (h c))))"

definition waitq_remove :: "chan_waitq \<Rightarrow> waddr \<Rightarrow> wheap \<Rightarrow> (bool \<times> chan_waitq \<times> wheap) option" where
  "waitq_remove q target h = waitq_remove_from q target h None (q_head q)"

definition waitq_empty :: "chan_waitq \<Rightarrow> bool" where
  "waitq_empty q = (q_head q = None)"

text \<open>
  \<open>waiter_try_claim\<close>: a regular waiter is always claimable, a stub once, by whoever moves
  the shared state of its select from waiting to woken.
\<close>

definition waiter_try_claim :: "waddr \<Rightarrow> wheap \<Rightarrow> (tid \<Rightarrow> bool) \<Rightarrow> bool \<times> (tid \<Rightarrow> bool)" where
  "waiter_try_claim w h sel =
     (case select_state (h w) of
        None \<Rightarrow> (True, sel)
      | Some t \<Rightarrow> (if sel t then (False, sel) else (True, sel(t := True))))"

partial_function (option) waitq_pop_sender ::
    "chan_waitq \<Rightarrow> wheap \<Rightarrow> (tid \<Rightarrow> bool) \<Rightarrow> (waddr option \<times> chan_waitq \<times> wheap \<times> (tid \<Rightarrow> bool)) option" where
  "waitq_pop_sender q h sel =
     (case waitq_pop q h of
        (None, q1, h1) \<Rightarrow> Some (None, q1, h1, sel)
      | (Some w, q1, h1) \<Rightarrow>
          (case waiter_try_claim w h1 sel of
             (ok, sel1) \<Rightarrow> if ok then Some (Some w, q1, h1, sel1) else waitq_pop_sender q1 h1 sel1))"

text \<open>\<open>waitq_pop_receiver\<close> has the same text.\<close>

definition waitq_pop_receiver ::
    "chan_waitq \<Rightarrow> wheap \<Rightarrow> (tid \<Rightarrow> bool) \<Rightarrow> (waddr option \<times> chan_waitq \<times> wheap \<times> (tid \<Rightarrow> bool)) option" where
  "waitq_pop_receiver q h sel = waitq_pop_sender q h sel"

text \<open>\<open>waiter_init\<close>: all fields are set, the park is fresh and is the one to signal.\<close>

definition waiter_init :: "waddr \<Rightarrow> baddr \<Rightarrow> chan_op \<Rightarrow> world \<Rightarrow> world" where
  "waiter_init a data oper w =
     w\<lparr>heap := (heap w)(a :=
         \<lparr>wnext = None, wdata = data, wop = oper, wresult = CHAN_OK, case_idx = -1,
          wake_park = OwnPark a, select_state = None\<rparr>),
       parks := (parks w)(OwnPark a := False)\<rparr>"

text \<open>Setting the result of a dequeued waiter and signalling its park.\<close>

definition waiter_finish :: "waddr \<Rightarrow> chan_err \<Rightarrow> world \<Rightarrow> world" where
  "waiter_finish a res w =
     w\<lparr>heap := (heap w)(a := (heap w a)\<lparr>wresult := res\<rparr>),
       parks := (parks w)(wake_park (heap w a) := True)\<rparr>"

section \<open>The queued waiters as a list\<close>

fun wlinks :: "wheap \<Rightarrow> waddr option \<Rightarrow> waddr list \<Rightarrow> bool" where
  "wlinks h p [] \<longleftrightarrow> p = None"
| "wlinks h p (x # xs) \<longleftrightarrow> p = Some x \<and> wlinks h (wnext (h x)) xs"

definition wq :: "wheap \<Rightarrow> chan_waitq \<Rightarrow> waddr list \<Rightarrow> bool" where
  "wq h q xs \<longleftrightarrow> distinct xs \<and> wlinks h (q_head q) xs \<and>
     q_tail q = (if xs = [] then None else Some (last xs))"

text \<open>Two heaps agree on everything but the links.\<close>

definition same_fields :: "wheap \<Rightarrow> wheap \<Rightarrow> bool" where
  "same_fields h h' \<longleftrightarrow> (\<forall>a. (h' a)\<lparr>wnext := None\<rparr> = (h a)\<lparr>wnext := None\<rparr>)"

lemma wlinks_frame:
  "wlinks h p xs \<Longrightarrow> (\<And>x. x \<in> set xs \<Longrightarrow> wnext (h' x) = wnext (h x)) \<Longrightarrow> wlinks h' p xs"
  by (induction h p xs rule: wlinks.induct) auto

lemma wq_frame:
  "wq h q xs \<Longrightarrow> (\<And>x. x \<in> set xs \<Longrightarrow> wnext (h' x) = wnext (h x)) \<Longrightarrow> wq h' q xs"
  by (auto simp: wq_def intro: wlinks_frame)

lemma wlinks_append:
  "wlinks h p (xs @ ys) \<longleftrightarrow>
     (if xs = [] then wlinks h p ys
      else wlinks (h(last xs := (h (last xs))\<lparr>wnext := None\<rparr>)) p xs \<and> wlinks h (wnext (h (last xs))) ys)"
  if "distinct xs"
  using that
proof (induction h p xs rule: wlinks.induct)
  case (2 h p x xs)
  then show ?case by (cases xs) auto
qed simp

lemma wq_empty_iff: "wq h q xs \<Longrightarrow> waitq_empty q \<longleftrightarrow> xs = []"
  by (cases xs) (auto simp: wq_def waitq_empty_def)

lemma same_fields_refl [simp]: "same_fields h h"
  by (simp add: same_fields_def)

lemma same_fields_trans: "same_fields h h1 \<Longrightarrow> same_fields h1 h2 \<Longrightarrow> same_fields h h2"
  by (simp add: same_fields_def)

lemma same_fields_set_next [simp]: "same_fields h (set_next w p h)"
  by (simp add: same_fields_def)

lemma same_fieldsD:
  assumes "same_fields h h'"
  shows "wdata (h' a) = wdata (h a)" "wop (h' a) = wop (h a)" "wresult (h' a) = wresult (h a)"
    "wake_park (h' a) = wake_park (h a)" "select_state (h' a) = select_state (h a)"
  using assms unfolding same_fields_def
  by (metis chan_waiter.select_convs chan_waiter.surjective chan_waiter.update_convs(1))+

section \<open>Correctness of the operations\<close>

lemma waitq_push_ok:
  assumes q: "wq h q xs" and w: "w \<notin> set xs" and eq: "waitq_push q w h = (q', h')"
  shows "wq h' q' (xs @ [w]) \<and> same_fields h h' \<and> (\<forall>a. a \<notin> insert w (set xs) \<longrightarrow> h' a = h a)"
proof (cases "xs = []")
  case True
  with q eq show ?thesis by (auto simp: wq_def waitq_push_def Let_def)
next
  case False
  then have t: "q_tail q = Some (last xs)" "last xs \<noteq> w" "last xs \<in> set xs"
    using q w by (auto simp: wq_def)
  then have h': "h' = set_next (last xs) (Some w) (set_next w None h)" "q' = q\<lparr>q_tail := Some w\<rparr>"
    using eq by (simp_all add: waitq_push_def Let_def)
  have "wlinks h (q_head q) (xs @ [])" "distinct xs" using q by (simp_all add: wq_def)
  then have "wlinks (h(last xs := (h (last xs))\<lparr>wnext := None\<rparr>)) (q_head q) xs"
    using False wlinks_append [of xs h "q_head q" "[]"] by simp
  then have "wlinks (h'(last xs := (h' (last xs))\<lparr>wnext := None\<rparr>)) (q_head q) xs"
    by (rule wlinks_frame) (use w t in \<open>auto simp: h'\<close>)
  then have "wlinks h' (q_head q) (xs @ [w])"
    using wlinks_append [of xs h' "q_head q" "[w]"] \<open>distinct xs\<close> False t by (simp add: h')
  then show ?thesis
    using q w t by (auto simp: wq_def h' same_fields_def)
qed

lemma waitq_push_front_ok:
  assumes "wq h q xs" "w \<notin> set xs" "waitq_push_front q w h = (q', h')"
  shows "wq h' q' (w # xs) \<and> same_fields h h' \<and> (\<forall>a. a \<noteq> w \<longrightarrow> h' a = h a)"
proof -
  have h': "h' = set_next w (q_head q) h"
    and q': "q' = (if q_head q = None then q\<lparr>q_tail := Some w\<rparr> else q)\<lparr>q_head := Some w\<rparr>"
    using assms(3) by (simp_all add: waitq_push_front_def Let_def)
  have "wlinks h (q_head q) xs" using assms(1) by (simp add: wq_def)
  then have "wlinks h' (q_head q) xs" by (rule wlinks_frame) (use assms(2) in \<open>auto simp: h'\<close>)
  with assms(1,2) show ?thesis by (cases xs) (simp_all add: wq_def q' h')
qed

lemma waitq_pop_ok:
  assumes q: "wq h q xs"
  shows "\<exists>q' h'. waitq_pop q h = ((case xs of [] \<Rightarrow> None | x # _ \<Rightarrow> Some x), q', h') \<and>
    wq h' q' (tl xs) \<and> same_fields h h' \<and> (\<forall>a. a \<notin> set (take 1 xs) \<longrightarrow> h' a = h a)"
proof (cases xs)
  case Nil
  with q show ?thesis by (auto simp: wq_def waitq_pop_def)
next
  case (Cons x ys)
  then have l: "q_head q = Some x" "wlinks h (wnext (h x)) ys" "distinct (x # ys)"
    using q by (auto simp: wq_def)
  then have "wlinks (set_next x None h) (wnext (h x)) ys"
    by (intro wlinks_frame [OF l(2)]) auto
  then show ?thesis using q l Cons by (cases ys) (auto simp: waitq_pop_def wq_def Let_def)
qed

lemma wlinks_split:
  assumes "distinct ys" "ys \<noteq> []" "wlinks h p (ys @ zs)"
  shows "wlinks (set_next (last ys) None h) p ys" "wlinks h (wnext (h (last ys))) zs"
  using assms wlinks_append [OF assms(1), of h p zs] by auto

lemma wlinks_join:
  assumes "distinct ys" "ys \<noteq> []" "wlinks (set_next (last ys) None h) p ys"
    and "wlinks h (wnext (h (last ys))) zs"
  shows "wlinks h p (ys @ zs)"
  using assms wlinks_append [OF assms(1), of h p zs] by auto

lemma waitq_unlink_ok:
  assumes q: "wq h q (ys @ c # zs)" and prev: "prev = (if ys = [] then None else Some (last ys))"
    and eq: "waitq_unlink q prev c h = (q', h')"
  shows "wq h' q' (ys @ zs) \<and> same_fields h h' \<and> (\<forall>a. a \<notin> set (ys @ c # zs) \<longrightarrow> h' a = h a)"
proof (cases "ys = []")
  case True
  then have l: "wlinks h (wnext (h c)) zs" "distinct (c # zs)" "q_tail q = Some (last (c # zs))"
    using q by (auto simp: wq_def)
  have "wlinks (set_next c None h) (wnext (h c)) zs"
    by (rule wlinks_frame [OF l(1)]) (use l(2) in auto)
  then show ?thesis using l eq True prev by (cases zs) (auto simp: waitq_unlink_def wq_def)
next
  case False
  have d: "distinct (ys @ c # zs)" and lk: "wlinks h (q_head q) (ys @ c # zs)"
    and tl: "q_tail q = Some (last (c # zs))"
    using q by (auto simp: wq_def)
  have dy: "distinct ys" "c \<notin> set ys" "c \<notin> set zs" "last ys \<in> set ys" "last ys \<notin> set zs" "last ys \<noteq> c"
    using d last_in_set [OF False] by auto
  have h': "h' = set_next c None (set_next (last ys) (wnext (h c)) h)"
    and q': "q' = (if last (c # zs) = c then q\<lparr>q_tail := Some (last ys)\<rparr> else q)"
    using eq False prev tl by (simp_all add: waitq_unlink_def)
  note sp = wlinks_split [OF dy(1) False lk]
  have "wlinks (set_next (last ys) None h') (q_head q) ys"
    by (rule wlinks_frame [OF sp(1)]) (use dy in \<open>auto simp: h'\<close>)
  moreover have "wlinks h' (wnext (h c)) zs"
    by (rule wlinks_frame [of h]) (use sp(2) dy in \<open>auto simp: h'\<close>)
  ultimately have "wlinks h' (q_head q) (ys @ zs)"
    using dy by (intro wlinks_join [OF dy(1) False]) (simp_all add: h')
  moreover have "q_tail q' = Some (last (ys @ zs))"
    using tl dy False by (cases zs rule: rev_cases) (auto simp: q')
  ultimately show ?thesis
    using d dy False by (auto simp: wq_def q' h' same_fields_def)
qed

lemma waitq_remove_from_ok:
  assumes "wq h q (ys @ zs)" "w \<notin> set ys" "prev = (if ys = [] then None else Some (last ys))"
    and "wlinks h cur zs"
  shows "\<exists>q' h'. waitq_remove_from q w h prev cur = Some (w \<in> set zs, q', h') \<and>
    wq h' q' (ys @ remove1 w zs) \<and> same_fields h h' \<and> (\<forall>a. a \<notin> set (ys @ zs) \<longrightarrow> h' a = h a)"
  using assms
proof (induction zs arbitrary: ys prev cur)
  case Nil
  then show ?case by (subst waitq_remove_from.simps) auto
next
  case (Cons z zs)
  show ?case
  proof (cases "z = w")
    case False
    have "\<exists>q' h'. waitq_remove_from q w h (Some z) (wnext (h z)) = Some (w \<in> set zs, q', h') \<and>
      wq h' q' ((ys @ [z]) @ remove1 w zs) \<and> same_fields h h' \<and>
      (\<forall>a. a \<notin> set ((ys @ [z]) @ zs) \<longrightarrow> h' a = h a)"
      using Cons.prems False by (intro Cons.IH) auto
    with Cons.prems False show ?thesis by (subst waitq_remove_from.simps) auto
  next
    case True
    obtain q' h' where u: "waitq_unlink q prev z h = (q', h')" by fastforce
    with waitq_unlink_ok [OF Cons.prems(1,3)] Cons.prems(4) True show ?thesis
      by (subst waitq_remove_from.simps) auto
  qed
qed

lemma waitq_remove_ok:
  assumes "wq h q xs"
  shows "\<exists>q' h'. waitq_remove q w h = Some (w \<in> set xs, q', h') \<and> wq h' q' (remove1 w xs) \<and>
    same_fields h h' \<and> (\<forall>a. a \<notin> set xs \<longrightarrow> h' a = h a)"
  using waitq_remove_from_ok [of h q "[]" xs w None "q_head q"] assms
  by (auto simp: waitq_remove_def wq_def)

text \<open>Which waiter the claiming pop returns, on the list.\<close>

fun claim_first :: "(waddr \<Rightarrow> tid option) \<Rightarrow> (tid \<Rightarrow> bool) \<Rightarrow> waddr list \<Rightarrow>
    waddr option \<times> waddr list \<times> (tid \<Rightarrow> bool)" where
  "claim_first ss sel [] = (None, [], sel)"
| "claim_first ss sel (x # xs) =
     (case ss x of
        None \<Rightarrow> (Some x, xs, sel)
      | Some t \<Rightarrow> if sel t then claim_first ss sel xs else (Some x, xs, sel(t := True)))"

lemma waitq_pop_sender_ok:
  assumes "wq h q xs" "claim_first (\<lambda>a. select_state (h a)) sel xs = (r, ys, sel')"
  shows "\<exists>q' h'. waitq_pop_sender q h sel = Some (r, q', h', sel') \<and> wq h' q' ys \<and>
    same_fields h h' \<and> (\<forall>a. a \<notin> set xs \<longrightarrow> h' a = h a)"
  using assms
proof (induction xs arbitrary: h q)
  case Nil
  then show ?case using waitq_pop_ok [OF Nil.prems(1)] by (subst waitq_pop_sender.simps) auto
next
  case (Cons x xs)
  from waitq_pop_ok [OF Cons.prems(1)] obtain q1 h1 where
    p: "waitq_pop q h = (Some x, q1, h1)" "wq h1 q1 xs" "same_fields h h1"
      "\<And>a. a \<noteq> x \<Longrightarrow> h1 a = h a"
    by auto
  note ss = same_fieldsD(5) [OF p(3)]
  show ?case
  proof (cases "fst (waiter_try_claim x h1 sel)")
    case True
    with Cons.prems(2) p ss show ?thesis
      by (subst waitq_pop_sender.simps)
        (auto simp: waiter_try_claim_def split: option.splits if_splits)
  next
    case False
    then obtain t where t: "select_state (h x) = Some t" "sel t"
      by (auto simp: waiter_try_claim_def ss split: option.splits if_splits)
    then have "claim_first (\<lambda>a. select_state (h1 a)) sel xs = (r, ys, sel')"
      using Cons.prems(2) ss by simp
    from Cons.IH [OF p(2) this] obtain q' h' where "waitq_pop_sender q1 h1 sel = Some (r, q', h', sel')"
      "wq h' q' ys" "same_fields h1 h'" "\<forall>a. a \<notin> set xs \<longrightarrow> h' a = h1 a" by blast
    with t p ss show ?thesis
      by (subst waitq_pop_sender.simps) (auto simp: waiter_try_claim_def intro: same_fields_trans)
  qed
qed

section \<open>Closing a queue\<close>

text \<open>\<open>waitq_close_all\<close>: every claimable waiter gets \<open>CHAN_ERR_CLOSED\<close> and is woken.\<close>

partial_function (option) waitq_close_all :: "chan_waitq \<Rightarrow> world \<Rightarrow> (chan_waitq \<times> world) option" where
  "waitq_close_all q w =
     (case waitq_pop q (heap w) of
        (None, q1, h1) \<Rightarrow> Some (q1, w\<lparr>heap := h1\<rparr>)
      | (Some a, q1, h1) \<Rightarrow>
          (case waiter_try_claim a h1 (sel_state w) of
             (ok, sel1) \<Rightarrow>
               waitq_close_all q1
                 (if ok then waiter_finish a CHAN_ERR_CLOSED (w\<lparr>heap := h1, sel_state := sel1\<rparr>)
                  else w\<lparr>heap := h1, sel_state := sel1\<rparr>)))"

declare waitq_remove_from.simps [code] waitq_pop_sender.simps [code] waitq_close_all.simps [code]

text \<open>A regular waiter that signals its own park.\<close>

definition regular :: "wheap \<Rightarrow> waddr \<Rightarrow> bool" where
  "regular h a \<longleftrightarrow> select_state (h a) = None \<and> wake_park (h a) = OwnPark a"

lemma waiter_finish_simps [simp]:
  "chans (waiter_finish a e w) = chans w" "mem (waiter_finish a e w) = mem w"
  "sel_state (waiter_finish a e w) = sel_state w"
  "wnext (heap (waiter_finish a e w) b) = wnext (heap w b)"
  "select_state (heap (waiter_finish a e w) b) = select_state (heap w b)"
  "wake_park (heap (waiter_finish a e w) b) = wake_park (heap w b)"
  "wdata (heap (waiter_finish a e w) b) = wdata (heap w b)"
  "wresult (heap (waiter_finish a e w) b) = (if b = a then e else wresult (heap w b))"
  "parks (waiter_finish a e w) p = (p = wake_park (heap w a) \<or> parks w p)"
  by (auto simp: waiter_finish_def)

text \<open>The waiters \<open>xs\<close> finished with result \<open>e\<close>, and nothing else but their links changed.\<close>

definition finished :: "waddr set \<Rightarrow> chan_err \<Rightarrow> world \<Rightarrow> world \<Rightarrow> bool" where
  "finished xs e w w' \<longleftrightarrow>
     chans w' = chans w \<and> mem w' = mem w \<and> sel_state w' = sel_state w \<and>
     (\<forall>a. wresult (heap w' a) = (if a \<in> xs then e else wresult (heap w a))) \<and>
     (\<forall>a. select_state (heap w' a) = select_state (heap w a)) \<and>
     (\<forall>a. wake_park (heap w' a) = wake_park (heap w a)) \<and>
     (\<forall>a. wdata (heap w' a) = wdata (heap w a)) \<and>
     (\<forall>a. a \<notin> xs \<longrightarrow> wnext (heap w' a) = wnext (heap w a)) \<and>
     (\<forall>p. parks w' p \<longleftrightarrow> parks w p \<or> p \<in> OwnPark ` xs)"

lemma finished_insert:
  assumes "regular (heap w) x" "same_fields (heap w) h1" "\<And>a. a \<noteq> x \<Longrightarrow> h1 a = heap w a"
    and "finished xs e (waiter_finish x e (w\<lparr>heap := h1\<rparr>)) w'"
  shows "finished (insert x xs) e w w'"
  using assms(1,3,4) same_fieldsD [OF assms(2)] by (auto simp: finished_def regular_def)

lemma waitq_close_all_ok:
  assumes "wq (heap w) q xs" "\<forall>a \<in> set xs. regular (heap w) a"
  shows "\<exists>q' w'. waitq_close_all q w = Some (q', w') \<and> wq (heap w') q' [] \<and>
    finished (set xs) CHAN_ERR_CLOSED w w'"
  using assms
proof (induction xs arbitrary: q w)
  case Nil
  then show ?case
    using waitq_pop_ok [OF Nil.prems(1)] by (subst waitq_close_all.simps) (auto simp: finished_def)
next
  case (Cons x xs)
  from waitq_pop_ok [OF Cons.prems(1)] obtain q1 h1 where
    p: "waitq_pop q (heap w) = (Some x, q1, h1)" "wq h1 q1 xs" "same_fields (heap w) h1"
      "\<And>a. a \<noteq> x \<Longrightarrow> h1 a = heap w a"
    by auto
  note sf = same_fieldsD [OF p(3)]
  let ?w1 = "waiter_finish x CHAN_ERR_CLOSED (w\<lparr>heap := h1\<rparr>)"
  have x: "regular (heap w) x" using Cons.prems(2) by simp
  then have step: "waitq_close_all q w = waitq_close_all q1 ?w1"
    using p(1) sf by (subst waitq_close_all.simps) (simp add: waiter_try_claim_def regular_def)
  have "wq (heap ?w1) q1 xs" by (rule wq_frame [OF p(2)]) simp
  moreover have "\<forall>a \<in> set xs. regular (heap ?w1) a"
    using Cons.prems(2) by (simp add: regular_def sf)
  ultimately obtain q' w' where "waitq_close_all q1 ?w1 = Some (q', w')" "wq (heap w') q' []"
    "finished (set xs) CHAN_ERR_CLOSED ?w1 w'"
    using Cons.IH by blast
  with finished_insert [OF x p(3,4)] step show ?case by auto
qed

end
