(* ===== verification/Chan_Ops.thy ===== *)
theory Chan_Ops
  imports Waitq
begin

text \<open>
  Channel operations on the shared state: the ring and queue helpers of
  \<open>src/libchan_internal.h\<close> applied to a channel, and the life cycle of
  \<open>src/chan_core.c\<close> (create, retain, destroy, observers). The blocking operations are step
  machines built from these helpers.
\<close>

section \<open>Helpers on one channel\<close>

abbreviation upd_chan :: "caddr \<Rightarrow> (chan \<Rightarrow> chan) \<Rightarrow> world \<Rightarrow> world" where
  "upd_chan c f w \<equiv> w\<lparr>chans := (chans w)(c := f (chans w c))\<rparr>"

definition ring_push :: "caddr \<Rightarrow> baddr \<Rightarrow> world \<Rightarrow> (bool \<times> world) option" where
  "ring_push c data w =
     map_option (\<lambda>(ok, r). (ok, upd_chan c (\<lambda>ch. ch\<lparr>ring := r\<rparr>) w))
       (ring_lf_push (ring (chans w c)) (mem w data))"

definition ring_pop :: "caddr \<Rightarrow> baddr \<Rightarrow> world \<Rightarrow> (bool \<times> world) option" where
  "ring_pop c out w =
     map_option
       (\<lambda>(x, r).
          (let w1 = upd_chan c (\<lambda>ch. ch\<lparr>ring := r\<rparr>) w
           in case x of None \<Rightarrow> (False, w1) | Some v \<Rightarrow> (True, w1\<lparr>mem := store_elem out v (mem w)\<rparr>)))
       (ring_lf_pop (ring (chans w c)))"

text \<open>The cursor-cached operations of a single-producer/single-consumer channel.\<close>

definition ring_push_dispatch :: "caddr \<Rightarrow> baddr \<Rightarrow> world \<Rightarrow> (bool \<times> world) option" where
  "ring_push_dispatch c data w =
     (if spsc (chans w c)
      then (let (ok, r) = ring_spsc_push (ring (chans w c)) (mem w data)
            in Some (ok, upd_chan c (\<lambda>ch. ch\<lparr>ring := r\<rparr>) w))
      else ring_push c data w)"

definition ring_pop_dispatch :: "caddr \<Rightarrow> baddr \<Rightarrow> world \<Rightarrow> (bool \<times> world) option" where
  "ring_pop_dispatch c out w =
     (if spsc (chans w c)
      then (let (x, r) = ring_spsc_pop (ring (chans w c));
                w1 = upd_chan c (\<lambda>ch. ch\<lparr>ring := r\<rparr>) w
            in Some (case x of None \<Rightarrow> (False, w1)
                     | Some v \<Rightarrow> (True, w1\<lparr>mem := store_elem out v (mem w)\<rparr>)))
      else ring_pop c out w)"

definition push_sender :: "caddr \<Rightarrow> waddr \<Rightarrow> world \<Rightarrow> world" where
  "push_sender c a w =
     (let (q, h) = waitq_push (send_waiters (chans w c)) a (heap w)
      in upd_chan c (\<lambda>ch. ch\<lparr>send_waiters := q\<rparr>) (w\<lparr>heap := h\<rparr>))"

definition push_receiver :: "caddr \<Rightarrow> waddr \<Rightarrow> world \<Rightarrow> world" where
  "push_receiver c a w =
     (let (q, h) = waitq_push (recv_waiters (chans w c)) a (heap w)
      in upd_chan c (\<lambda>ch. ch\<lparr>recv_waiters := q\<rparr>) (w\<lparr>heap := h\<rparr>))"

definition push_sender_front :: "caddr \<Rightarrow> waddr \<Rightarrow> world \<Rightarrow> world" where
  "push_sender_front c a w =
     (let (q, h) = waitq_push_front (send_waiters (chans w c)) a (heap w)
      in upd_chan c (\<lambda>ch. ch\<lparr>send_waiters := q\<rparr>) (w\<lparr>heap := h\<rparr>))"

definition push_receiver_front :: "caddr \<Rightarrow> waddr \<Rightarrow> world \<Rightarrow> world" where
  "push_receiver_front c a w =
     (let (q, h) = waitq_push_front (recv_waiters (chans w c)) a (heap w)
      in upd_chan c (\<lambda>ch. ch\<lparr>recv_waiters := q\<rparr>) (w\<lparr>heap := h\<rparr>))"

definition remove_sender :: "caddr \<Rightarrow> waddr \<Rightarrow> world \<Rightarrow> (bool \<times> world) option" where
  "remove_sender c a w =
     map_option (\<lambda>(b, q, h). (b, upd_chan c (\<lambda>ch. ch\<lparr>send_waiters := q\<rparr>) (w\<lparr>heap := h\<rparr>)))
       (waitq_remove (send_waiters (chans w c)) a (heap w))"

definition remove_receiver :: "caddr \<Rightarrow> waddr \<Rightarrow> world \<Rightarrow> (bool \<times> world) option" where
  "remove_receiver c a w =
     map_option (\<lambda>(b, q, h). (b, upd_chan c (\<lambda>ch. ch\<lparr>recv_waiters := q\<rparr>) (w\<lparr>heap := h\<rparr>)))
       (waitq_remove (recv_waiters (chans w c)) a (heap w))"

definition pop_sender :: "caddr \<Rightarrow> world \<Rightarrow> (waddr option \<times> world) option" where
  "pop_sender c w =
     map_option
       (\<lambda>(a, q, h, sel).
          (a, upd_chan c (\<lambda>ch. ch\<lparr>send_waiters := q\<rparr>) (w\<lparr>heap := h, sel_state := sel\<rparr>)))
       (waitq_pop_sender (send_waiters (chans w c)) (heap w) (sel_state w))"

definition pop_receiver :: "caddr \<Rightarrow> world \<Rightarrow> (waddr option \<times> world) option" where
  "pop_receiver c w =
     map_option
       (\<lambda>(a, q, h, sel).
          (a, upd_chan c (\<lambda>ch. ch\<lparr>recv_waiters := q\<rparr>) (w\<lparr>heap := h, sel_state := sel\<rparr>)))
       (waitq_pop_receiver (recv_waiters (chans w c)) (heap w) (sel_state w))"

text \<open>Taking and giving back the channel mutex; \<open>chan_lock\<close> waits while another thread holds it.\<close>

definition chan_lock :: "tid \<Rightarrow> caddr \<Rightarrow> world \<Rightarrow> world option" where
  "chan_lock t c w =
     (if lock (chans w c) = None then Some (upd_chan c (\<lambda>ch. ch\<lparr>lock := Some t\<rparr>) w) else None)"

definition chan_unlock :: "caddr \<Rightarrow> world \<Rightarrow> world" where
  "chan_unlock c w = upd_chan c (\<lambda>ch. ch\<lparr>lock := None\<rparr>) w"

definition add_send_cnt :: "caddr \<Rightarrow> int \<Rightarrow> world \<Rightarrow> world" where
  "add_send_cnt c d w = upd_chan c (\<lambda>ch. ch\<lparr>send_waiter_cnt := send_waiter_cnt ch + d\<rparr>) w"

definition add_recv_cnt :: "caddr \<Rightarrow> int \<Rightarrow> world \<Rightarrow> world" where
  "add_recv_cnt c d w = upd_chan c (\<lambda>ch. ch\<lparr>recv_waiter_cnt := recv_waiter_cnt ch + d\<rparr>) w"

definition chan_park_wake :: "park_ptr \<Rightarrow> world \<Rightarrow> world" where
  "chan_park_wake p w = w\<lparr>parks := (parks w)(p := True)\<rparr>"

definition set_result :: "waddr \<Rightarrow> chan_err \<Rightarrow> world \<Rightarrow> world" where
  "set_result a e w = w\<lparr>heap := (heap w)(a := (heap w a)\<lparr>wresult := e\<rparr>)\<rparr>"

text \<open>The number of lock-free attempts before an operation takes the lock.\<close>

definition LIBCHAN_FASTPATH_SPIN :: nat where
  "LIBCHAN_FASTPATH_SPIN = 64"

section \<open>The lost-wakeup helpers, one iteration at a time\<close>

text \<open>
  An iteration of \<open>chan_deliver_ring_to_receivers_locked\<close> tests the ring and dequeues a
  receiver (\<open>deliver_test\<close>: the loop ends when there is none), then pops the oldest element
  into that receiver's buffer (\<open>deliver_move\<close>: the loop ends when a concurrent pop took the
  element, and the receiver goes back to the front). \<open>chan_admit_senders_to_ring\<close> is
  symmetric.
\<close>

definition deliver_test :: "caddr \<Rightarrow> world \<Rightarrow> (waddr option \<times> world) option" where
  "deliver_test c w = (if ring_empty (ring (chans w c)) then Some (None, w) else pop_receiver c w)"

definition deliver_move :: "caddr \<Rightarrow> waddr \<Rightarrow> world \<Rightarrow> (bool \<times> world) option" where
  "deliver_move c r w =
     (case ring_pop c (wdata (heap w r)) w of
        None \<Rightarrow> None
      | Some (ok, w1) \<Rightarrow>
          Some (if ok then (True, waiter_finish r CHAN_OK w1) else (False, push_receiver_front c r w1)))"

definition admit_test :: "caddr \<Rightarrow> world \<Rightarrow> (waddr option \<times> world) option" where
  "admit_test c w = (if ring_full (ring (chans w c)) then Some (None, w) else pop_sender c w)"

definition admit_move :: "caddr \<Rightarrow> waddr \<Rightarrow> world \<Rightarrow> (bool \<times> world) option" where
  "admit_move c s w =
     (case ring_push c (wdata (heap w s)) w of
        None \<Rightarrow> None
      | Some (ok, w1) \<Rightarrow>
          Some (if ok then (True, waiter_finish s CHAN_OK w1) else (False, push_sender_front c s w1)))"

section \<open>Life cycle\<close>

text \<open>
  \<open>chan_create_impl\<close>: \<open>calloc_ok\<close> tells whether the channel object could be allocated;
  \<open>malloc\<close> allocates the slots. The ring of an unbuffered channel stays zeroed.
\<close>

definition zero_ring :: chan_ring_lf where
  "zero_ring = \<lparr>prod_head = 0, prod_tail = 0, cached_cons_tail = 0, cons_head = 0, cons_tail = 0,
     cached_prod_tail = 0, ring_mask = 0, ring_capacity = 0, ring_elem_size = 0, slots = []\<rparr>"

definition empty_waitq :: chan_waitq where
  "empty_waitq = \<lparr>q_head = None, q_tail = None\<rparr>"

definition chan_create_impl ::
    "bool \<Rightarrow> (u64 \<Rightarrow> byte list option) \<Rightarrow> u64 \<Rightarrow> u64 \<Rightarrow> bool \<Rightarrow> chan option" where
  "chan_create_impl calloc_ok malloc esize cap sp =
     (if esize = 0 then None
      else if \<not> calloc_ok then None
      else
        (case (if 0 < cap then ring_lf_init malloc cap esize else Some zero_ring) of
           None \<Rightarrow> None
         | Some r \<Rightarrow>
             Some \<lparr>elem_size = esize, capacity = cap, spsc = (sp \<and> 0 < cap), lock = None, ring = r,
                   send_waiter_cnt = 0, recv_waiter_cnt = 0, send_waiters = empty_waitq,
                   recv_waiters = empty_waitq, closed = False, refcount = 1, freed = False\<rparr>))"

definition chan_create ::
    "bool \<Rightarrow> (u64 \<Rightarrow> byte list option) \<Rightarrow> u64 \<Rightarrow> u64 \<Rightarrow> chan option" where
  "chan_create calloc_ok malloc esize cap = chan_create_impl calloc_ok malloc esize cap False"

definition chan_create_spsc ::
    "bool \<Rightarrow> (u64 \<Rightarrow> byte list option) \<Rightarrow> u64 \<Rightarrow> u64 \<Rightarrow> chan option" where
  "chan_create_spsc calloc_ok malloc esize cap = chan_create_impl calloc_ok malloc esize cap True"

definition chan_free :: "caddr \<Rightarrow> world \<Rightarrow> world option" where
  "chan_free c w =
     (case waitq_close_all (send_waiters (chans w c)) w of
        None \<Rightarrow> None
      | Some (qs, w1) \<Rightarrow>
          (case waitq_close_all (recv_waiters (chans w1 c)) w1 of
             None \<Rightarrow> None
           | Some (qr, w2) \<Rightarrow>
               Some (upd_chan c (\<lambda>ch. ch\<lparr>send_waiters := qs, recv_waiters := qr, freed := True\<rparr>) w2)))"

definition chan_retain :: "caddr option \<Rightarrow> world \<Rightarrow> caddr option \<times> world" where
  "chan_retain cp w =
     (case cp of None \<Rightarrow> (None, w)
      | Some c \<Rightarrow> (Some c, upd_chan c (\<lambda>ch. ch\<lparr>refcount := refcount ch + 1\<rparr>) w))"

text \<open>
  \<open>chan_destroy\<close>: \<open>None\<close> when the lock is held by another thread and the last reference
  has to wait for it.
\<close>

definition chan_destroy :: "tid \<Rightarrow> caddr option \<Rightarrow> world \<Rightarrow> world option" where
  "chan_destroy t cp w =
     (case cp of None \<Rightarrow> Some w
      | Some c \<Rightarrow>
          (let w1 = upd_chan c (\<lambda>ch. ch\<lparr>refcount := refcount ch - 1\<rparr>) w
           in if refcount (chans w c) = 1
              then (case chan_lock t c w1 of None \<Rightarrow> None | Some w2 \<Rightarrow> chan_free c (chan_unlock c w2))
              else Some w1))"

definition chan_is_closed :: "caddr option \<Rightarrow> world \<Rightarrow> bool" where
  "chan_is_closed cp w = (case cp of None \<Rightarrow> True | Some c \<Rightarrow> closed (chans w c))"

definition chan_len :: "caddr option \<Rightarrow> world \<Rightarrow> u64" where
  "chan_len cp w =
     (case cp of None \<Rightarrow> 0
      | Some c \<Rightarrow> if capacity (chans w c) = 0 then 0 else ucast (ring_lf_count (ring (chans w c))))"

definition chan_cap :: "caddr option \<Rightarrow> world \<Rightarrow> u64" where
  "chan_cap cp w = (case cp of None \<Rightarrow> 0 | Some c \<Rightarrow> capacity (chans w c))"

text \<open>\<open>chan_strerror\<close> on the integer an enum value is; unknown codes have a message too.\<close>

definition err_code :: "chan_err \<Rightarrow> int" where
  "err_code e =
     (case e of CHAN_OK \<Rightarrow> 0 | CHAN_ERR_CLOSED \<Rightarrow> 1 | CHAN_ERR_TIMEOUT \<Rightarrow> 2
      | CHAN_ERR_WOULDBLOCK \<Rightarrow> 3 | CHAN_ERR_INVALID \<Rightarrow> 4 | CHAN_ERR_NOMEM \<Rightarrow> 5)"

definition chan_strerror :: "int \<Rightarrow> string" where
  "chan_strerror err =
     (if err = err_code CHAN_OK then ''ok''
      else if err = err_code CHAN_ERR_CLOSED then ''channel closed''
      else if err = err_code CHAN_ERR_TIMEOUT then ''timeout''
      else if err = err_code CHAN_ERR_WOULDBLOCK then ''would block''
      else if err = err_code CHAN_ERR_INVALID then ''invalid argument''
      else if err = err_code CHAN_ERR_NOMEM then ''out of memory''
      else ''unknown error'')"

end
