(* ===== verification/Chan_Send.thy ===== *)
theory Chan_Send
  imports Chan_Ops
begin

text \<open>
  \<open>chan_send_impl\<close> of \<open>src/chan_send.c\<close> as a step machine. One step is one access to the
  lock-free state (a load of \<open>closed\<close> or of a waiter count, a ring operation) or one stretch
  of a critical section between two such accesses; a step that needs the mutex is disabled
  while another thread holds it, and a parked thread is disabled until it is signalled.
\<close>

section \<open>Program points\<close>

text \<open>Where the delivery loop continues: return, or go on to park.\<close>

datatype deliver_k = DRet | DFull

datatype send_pc =
    S_closed nat
  | S_scnt nat
  | S_rcnt nat
  | S_push nat
  | S_check
  | S_deliver
  | S_lock
  | S_test deliver_k
  | S_move deliver_k waddr
  | S_register
  | S_recheck
  | S_wake waddr
  | S_park
  | S_timeout
  | S_backstop
  | S_park2
  | S_dec chan_err
  | S_return

type_synonym send_out = "world \<times> (send_pc + chan_err)"

abbreviation go_on :: "send_pc \<Rightarrow> world \<Rightarrow> send_out option" where
  "go_on pc w \<equiv> Some (w, Inl pc)"

abbreviation ret :: "chan_err \<Rightarrow> world \<Rightarrow> send_out option" where
  "ret e w \<equiv> Some (w, Inr e)"

section \<open>Entry and fast path\<close>

text \<open>Argument checks and the choice of path.\<close>

definition send_entry :: "caddr option \<Rightarrow> baddr option \<Rightarrow> world \<Rightarrow> send_pc + chan_err" where
  "send_entry cp dp w =
     (case (cp, dp) of
        (Some c, Some d) \<Rightarrow>
          (if spsc (chans w c) \<or> 0 < capacity (chans w c) then Inl (S_closed 0) else Inl S_lock)
      | _ \<Rightarrow> Inr CHAN_ERR_INVALID)"

text \<open>
  The spin loop. A single-producer channel skips both waiter counts and uses the
  cursor-cached push.
\<close>

definition send_fast :: "caddr \<Rightarrow> baddr \<Rightarrow> send_pc \<Rightarrow> world \<Rightarrow> send_out option" where
  "send_fast c d pc w =
     (case pc of
        S_closed i \<Rightarrow>
          (if closed (chans w c) then go_on S_lock w
           else if spsc (chans w c) then go_on (S_push i) w else go_on (S_scnt i) w)
      | S_scnt i \<Rightarrow> (if send_waiter_cnt (chans w c) \<noteq> 0 then go_on S_lock w else go_on (S_rcnt i) w)
      | S_rcnt i \<Rightarrow> (if recv_waiter_cnt (chans w c) \<noteq> 0 then go_on S_lock w else go_on (S_push i) w)
      | S_push i \<Rightarrow>
          (case ring_push_dispatch c d w of
             None \<Rightarrow> None
           | Some (ok, w1) \<Rightarrow>
               if ok then go_on S_check w1
               else if LIBCHAN_FASTPATH_SPIN \<le> i then go_on S_lock w1
               else go_on (S_closed (Suc i)) w1)
      | S_check \<Rightarrow>
          (if recv_waiter_cnt (chans w c) \<noteq> 0 then go_on S_deliver w else ret CHAN_OK w)
      | _ \<Rightarrow> None)"

section \<open>The delivery loop\<close>

definition deliver_exit :: "deliver_k \<Rightarrow> caddr \<Rightarrow> world \<Rightarrow> send_out option" where
  "deliver_exit k c w =
     (case k of DRet \<Rightarrow> ret CHAN_OK (chan_unlock c w) | DFull \<Rightarrow> go_on S_register w)"

definition send_deliver :: "tid \<Rightarrow> caddr \<Rightarrow> send_pc \<Rightarrow> world \<Rightarrow> send_out option" where
  "send_deliver t c pc w =
     (case pc of
        S_deliver \<Rightarrow>
          (case chan_lock t c w of None \<Rightarrow> None | Some w1 \<Rightarrow> go_on (S_test DRet) w1)
      | S_test k \<Rightarrow>
          (case deliver_test c w of
             None \<Rightarrow> None
           | Some (None, w1) \<Rightarrow> deliver_exit k c w1
           | Some (Some r, w1) \<Rightarrow> go_on (S_move k r) w1)
      | S_move k r \<Rightarrow>
          (case deliver_move c r w of
             None \<Rightarrow> None
           | Some (ok, w1) \<Rightarrow> if ok then go_on (S_test k) w1 else deliver_exit k c w1)
      | _ \<Rightarrow> None)"

section \<open>The locked slow path\<close>

text \<open>Unbuffered: hand the element to a waiting receiver, or queue up and park.\<close>

definition send_rendezvous :: "tid \<Rightarrow> caddr \<Rightarrow> baddr \<Rightarrow> int \<Rightarrow> world \<Rightarrow> send_out option" where
  "send_rendezvous t c d timeout_ns w =
     (case pop_receiver c w of
        None \<Rightarrow> None
      | Some (Some r, w1) \<Rightarrow>
          (let w2 = w1\<lparr>mem := copy_elem (elem_size (chans w1 c)) (wdata (heap w1 r)) d (mem w1)\<rparr>;
               w3 = set_result r CHAN_OK w2
           in go_on (S_wake r) (chan_unlock c w3))
      | Some (None, w1) \<Rightarrow>
          (if timeout_ns = 0 then ret CHAN_ERR_WOULDBLOCK (chan_unlock c w1)
           else
             (let w2 = waiter_init (Self t) d CHAN_OP_SEND w1;
                  w3 = add_send_cnt c 1 w2;
                  w4 = push_sender c (Self t) w3
              in go_on S_park (chan_unlock c w4))))"

text \<open>
  Buffered: push, then deliver to parked receivers; when the ring is full deliver first,
  register, and try the push again before parking.
\<close>

definition send_slow :: "tid \<Rightarrow> caddr \<Rightarrow> baddr \<Rightarrow> int \<Rightarrow> send_pc \<Rightarrow> world \<Rightarrow> send_out option" where
  "send_slow t c d timeout_ns pc w =
     (case pc of
        S_lock \<Rightarrow>
          (case chan_lock t c w of
             None \<Rightarrow> None
           | Some w1 \<Rightarrow>
               if closed (chans w1 c) then ret CHAN_ERR_CLOSED (chan_unlock c w1)
               else if capacity (chans w1 c) = 0 then send_rendezvous t c d timeout_ns w1
               else
                 (case ring_push c d w1 of
                    None \<Rightarrow> None
                  | Some (ok, w2) \<Rightarrow> go_on (S_test (if ok then DRet else DFull)) w2))
      | S_register \<Rightarrow>
          (if timeout_ns = 0 then ret CHAN_ERR_WOULDBLOCK (chan_unlock c w)
           else
             (let w1 = waiter_init (Self t) d CHAN_OP_SEND w;
                  w2 = add_send_cnt c 1 w1
              in go_on S_recheck (push_sender c (Self t) w2)))
      | S_recheck \<Rightarrow>
          (case ring_push c d w of
             None \<Rightarrow> None
           | Some (True, w1) \<Rightarrow>
               (case remove_sender c (Self t) w1 of
                  None \<Rightarrow> None
                | Some (_, w2) \<Rightarrow> go_on (S_test DRet) (add_send_cnt c (-1) w2))
           | Some (False, w1) \<Rightarrow> go_on S_park (chan_unlock c w1))
      | S_wake r \<Rightarrow> ret CHAN_OK (chan_park_wake (wake_park (heap w r)) w)
      | _ \<Rightarrow> None)"

section \<open>Parking\<close>

text \<open>
  \<open>chan_park_wait\<close> returns true once the park is signalled; the event \<open>expire\<close> makes it
  return false, which a wait without timeout never does. An infinite wait on a
  single-producer channel first waits for the bounded backstop.
\<close>

definition send_park :: "tid \<Rightarrow> caddr \<Rightarrow> baddr \<Rightarrow> int \<Rightarrow> bool \<Rightarrow> send_pc \<Rightarrow> world \<Rightarrow> send_out option" where
  "send_park t c d timeout_ns expire pc w =
     (case pc of
        S_park \<Rightarrow>
          (let backstop = (spsc (chans w c) \<and> timeout_ns < 0)
           in if expire
              then (if backstop then go_on S_backstop w
                    else if 0 < timeout_ns then go_on S_timeout w else None)
              else if parks w (OwnPark (Self t)) then go_on S_return w else None)
      | S_backstop \<Rightarrow>
          (case chan_lock t c w of
             None \<Rightarrow> None
           | Some w1 \<Rightarrow>
               (case remove_sender c (Self t) w1 of
                  None \<Rightarrow> None
                | Some (False, w2) \<Rightarrow> go_on S_return (chan_unlock c w2)
                | Some (True, w2) \<Rightarrow>
                    if closed (chans w2 c)
                    then go_on S_return (chan_unlock c (set_result (Self t) CHAN_ERR_CLOSED w2))
                    else
                      (case ring_push c d w2 of
                         None \<Rightarrow> None
                       | Some (True, w3) \<Rightarrow> go_on S_return (chan_unlock c (set_result (Self t) CHAN_OK w3))
                       | Some (False, w3) \<Rightarrow> go_on S_park2 (chan_unlock c (push_sender c (Self t) w3)))))
      | S_park2 \<Rightarrow> (if \<not> expire \<and> parks w (OwnPark (Self t)) then go_on S_return w else None)
      | S_timeout \<Rightarrow>
          (case chan_lock t c w of
             None \<Rightarrow> None
           | Some w1 \<Rightarrow>
               (case remove_sender c (Self t) w1 of
                  None \<Rightarrow> None
                | Some (still_queued, w2) \<Rightarrow>
                    go_on (S_dec (if capacity (chans w c) = 0 \<or> still_queued then CHAN_ERR_TIMEOUT
                                  else wresult (heap w2 (Self t)))) (chan_unlock c w2)))
      | S_return \<Rightarrow> ret (wresult (heap w (Self t))) (add_send_cnt c (-1) w)
      | S_dec e \<Rightarrow> ret e (add_send_cnt c (-1) w)
      | _ \<Rightarrow> None)"

text \<open>The whole machine of \<open>chan_send_impl\<close>.\<close>

definition chan_send_step ::
    "tid \<Rightarrow> caddr \<Rightarrow> baddr \<Rightarrow> int \<Rightarrow> bool \<Rightarrow> send_pc \<Rightarrow> world \<Rightarrow> send_out option" where
  "chan_send_step t c d timeout_ns expire pc w =
     (case pc of
        S_closed i \<Rightarrow> send_fast c d pc w
      | S_scnt i \<Rightarrow> send_fast c d pc w
      | S_rcnt i \<Rightarrow> send_fast c d pc w
      | S_push i \<Rightarrow> send_fast c d pc w
      | S_check \<Rightarrow> send_fast c d pc w
      | S_deliver \<Rightarrow> send_deliver t c pc w
      | S_test k \<Rightarrow> send_deliver t c pc w
      | S_move k r \<Rightarrow> send_deliver t c pc w
      | S_lock \<Rightarrow> send_slow t c d timeout_ns pc w
      | S_register \<Rightarrow> send_slow t c d timeout_ns pc w
      | S_recheck \<Rightarrow> send_slow t c d timeout_ns pc w
      | S_wake r \<Rightarrow> send_slow t c d timeout_ns pc w
      | _ \<Rightarrow> send_park t c d timeout_ns expire pc w)"

section \<open>Bulk send\<close>

text \<open>
  \<open>chan_try_send_burst\<close> up to its wake check: the number of elements sent, and whether
  parked receivers have to be served (\<open>chan_deliver_ring_to_receivers\<close>). \<open>n\<close> is clamped
  to 32 bits.
\<close>

definition try_send_burst ::
    "caddr option \<Rightarrow> baddr option \<Rightarrow> u64 \<Rightarrow> world \<Rightarrow> (u32 \<times> bool \<times> world) option" where
  "try_send_burst cp dp n w =
     (case (cp, dp) of
        (Some c, Some d) \<Rightarrow>
          (if n = 0 then Some (0, False, w)
           else if capacity (chans w c) = 0 then Some (0, False, w)
           else if closed (chans w c) then Some (0, False, w)
           else
             (let want = (if 0xFFFFFFFF < n then 0xFFFFFFFF else ucast n) :: u32
              in case ring_lf_enqueue_burst (ring (chans w c)) (mem w d) want of
                   None \<Rightarrow> None
                 | Some (got, r) \<Rightarrow>
                     (let w1 = upd_chan c (\<lambda>ch. ch\<lparr>ring := r\<rparr>) w
                      in Some (got, got \<noteq> 0 \<and> recv_waiter_cnt (chans w1 c) \<noteq> 0, w1))))
      | _ \<Rightarrow> Some (0, False, w))"

end
