(* ===== verification/Chan_Recv.thy ===== *)
theory Chan_Recv
  imports Chan_Ops
begin

text \<open>
  \<open>chan_recv_impl\<close> of \<open>src/chan_recv.c\<close> as a step machine, at the same granularity as
  \<open>Chan_Send\<close>: one lock-free access, or one stretch of a critical section between two ring
  operations, per step.
\<close>

section \<open>Program points\<close>

datatype recv_pc =
    R_scnt nat
  | R_rcnt nat
  | R_pop nat
  | R_closed nat
  | R_check
  | R_admit
  | R_test
  | R_move waddr
  | R_lock
  | R_help
  | R_empty
  | R_recheck
  | R_wake waddr
  | R_park
  | R_timeout
  | R_backstop
  | R_park2
  | R_dec chan_err
  | R_return

type_synonym recv_out = "world \<times> (recv_pc + chan_err)"

abbreviation rgo :: "recv_pc \<Rightarrow> world \<Rightarrow> recv_out option" where
  "rgo pc w \<equiv> Some (w, Inl pc)"

abbreviation rret :: "chan_err \<Rightarrow> world \<Rightarrow> recv_out option" where
  "rret e w \<equiv> Some (w, Inr e)"

section \<open>Entry and fast path\<close>

definition recv_entry :: "caddr option \<Rightarrow> baddr option \<Rightarrow> world \<Rightarrow> recv_pc + chan_err" where
  "recv_entry cp outp w =
     (case (cp, outp) of
        (Some c, Some out) \<Rightarrow>
          (if spsc (chans w c) then Inl (R_pop 0)
           else if 0 < capacity (chans w c) then Inl (R_scnt 0) else Inl R_lock)
      | _ \<Rightarrow> Inr CHAN_ERR_INVALID)"

text \<open>The spin loop: pop first, and look at \<open>closed\<close> only when the ring is empty.\<close>

definition recv_fast :: "caddr \<Rightarrow> baddr \<Rightarrow> recv_pc \<Rightarrow> world \<Rightarrow> recv_out option" where
  "recv_fast c out pc w =
     (case pc of
        R_scnt i \<Rightarrow> (if send_waiter_cnt (chans w c) \<noteq> 0 then rgo R_lock w else rgo (R_rcnt i) w)
      | R_rcnt i \<Rightarrow> (if recv_waiter_cnt (chans w c) \<noteq> 0 then rgo R_lock w else rgo (R_pop i) w)
      | R_pop i \<Rightarrow>
          (case ring_pop_dispatch c out w of
             None \<Rightarrow> None
           | Some (ok, w1) \<Rightarrow> if ok then rgo R_check w1 else rgo (R_closed i) w1)
      | R_closed i \<Rightarrow>
          (if closed (chans w c) then rgo R_lock w
           else if LIBCHAN_FASTPATH_SPIN \<le> i then rgo R_lock w
           else if spsc (chans w c) then rgo (R_pop (Suc i)) w else rgo (R_scnt (Suc i)) w)
      | R_check \<Rightarrow> (if send_waiter_cnt (chans w c) \<noteq> 0 then rgo R_admit w else rret CHAN_OK w)
      | _ \<Rightarrow> None)"

section \<open>The admission loop\<close>

definition recv_admit :: "tid \<Rightarrow> caddr \<Rightarrow> recv_pc \<Rightarrow> world \<Rightarrow> recv_out option" where
  "recv_admit t c pc w =
     (case pc of
        R_admit \<Rightarrow> (case chan_lock t c w of None \<Rightarrow> None | Some w1 \<Rightarrow> rgo R_test w1)
      | R_test \<Rightarrow>
          (case admit_test c w of
             None \<Rightarrow> None
           | Some (None, w1) \<Rightarrow> rret CHAN_OK (chan_unlock c w1)
           | Some (Some s, w1) \<Rightarrow> rgo (R_move s) w1)
      | R_move s \<Rightarrow>
          (case admit_move c s w of
             None \<Rightarrow> None
           | Some (ok, w1) \<Rightarrow> if ok then rgo R_test w1 else rret CHAN_OK (chan_unlock c w1))
      | _ \<Rightarrow> None)"

section \<open>The locked slow path\<close>

text \<open>Take the element of a waiting sender directly (the lock is released, the sender woken).\<close>

definition recv_from_sender :: "caddr \<Rightarrow> baddr \<Rightarrow> waddr \<Rightarrow> world \<Rightarrow> recv_out option" where
  "recv_from_sender c out s w =
     (let w1 = w\<lparr>mem := copy_elem (elem_size (chans w c)) out (wdata (heap w s)) (mem w)\<rparr>
      in rgo (R_wake s) (chan_unlock c (set_result s CHAN_OK w1)))"

definition recv_register :: "tid \<Rightarrow> caddr \<Rightarrow> baddr \<Rightarrow> world \<Rightarrow> world" where
  "recv_register t c out w =
     push_receiver c (Self t) (add_recv_cnt c 1 (waiter_init (Self t) out CHAN_OP_RECV w))"

text \<open>Unbuffered: take from a waiting sender, or fail, or queue up and park.\<close>

definition recv_rendezvous :: "tid \<Rightarrow> caddr \<Rightarrow> baddr \<Rightarrow> int \<Rightarrow> world \<Rightarrow> recv_out option" where
  "recv_rendezvous t c out timeout_ns w =
     (case pop_sender c w of
        None \<Rightarrow> None
      | Some (Some s, w1) \<Rightarrow> recv_from_sender c out s w1
      | Some (None, w1) \<Rightarrow>
          (if closed (chans w1 c) then rret CHAN_ERR_CLOSED (chan_unlock c w1)
           else if timeout_ns = 0 then rret CHAN_ERR_WOULDBLOCK (chan_unlock c w1)
           else rgo R_park (chan_unlock c (recv_register t c out w1))))"

text \<open>
  Buffered: drain the ring even after close, and put a waiting sender's element in the
  freed slot; on an empty ring take a waiting sender's element directly, or fail, or
  register and try the ring again before parking.
\<close>

definition recv_slow :: "tid \<Rightarrow> caddr \<Rightarrow> baddr \<Rightarrow> int \<Rightarrow> recv_pc \<Rightarrow> world \<Rightarrow> recv_out option" where
  "recv_slow t c out timeout_ns pc w =
     (case pc of
        R_lock \<Rightarrow>
          (case chan_lock t c w of
             None \<Rightarrow> None
           | Some w1 \<Rightarrow>
               if capacity (chans w1 c) = 0 then recv_rendezvous t c out timeout_ns w1
               else
                 (case ring_pop c out w1 of
                    None \<Rightarrow> None
                  | Some (ok, w2) \<Rightarrow> rgo (if ok then R_help else R_empty) w2))
      | R_help \<Rightarrow>
          (case pop_sender c w of
             None \<Rightarrow> None
           | Some (None, w1) \<Rightarrow> rret CHAN_OK (chan_unlock c w1)
           | Some (Some s, w1) \<Rightarrow>
               (case ring_push c (wdata (heap w1 s)) w1 of
                  None \<Rightarrow> None
                | Some (True, w2) \<Rightarrow> rgo (R_wake s) (chan_unlock c (set_result s CHAN_OK w2))
                | Some (False, w2) \<Rightarrow> rret CHAN_OK (chan_unlock c (push_sender_front c s w2))))
      | R_empty \<Rightarrow>
          (case pop_sender c w of
             None \<Rightarrow> None
           | Some (Some s, w1) \<Rightarrow> recv_from_sender c out s w1
           | Some (None, w1) \<Rightarrow>
               if closed (chans w1 c) then rret CHAN_ERR_CLOSED (chan_unlock c w1)
               else if timeout_ns = 0 then rret CHAN_ERR_WOULDBLOCK (chan_unlock c w1)
               else rgo R_recheck (recv_register t c out w1))
      | R_recheck \<Rightarrow>
          (case ring_pop c out w of
             None \<Rightarrow> None
           | Some (True, w1) \<Rightarrow>
               (case remove_receiver c (Self t) w1 of
                  None \<Rightarrow> None
                | Some (_, w2) \<Rightarrow> rret CHAN_OK (chan_unlock c (add_recv_cnt c (-1) w2)))
           | Some (False, w1) \<Rightarrow> rgo R_park (chan_unlock c w1))
      | R_wake s \<Rightarrow> rret CHAN_OK (chan_park_wake (wake_park (heap w s)) w)
      | _ \<Rightarrow> None)"

section \<open>Parking\<close>

definition recv_park :: "tid \<Rightarrow> caddr \<Rightarrow> baddr \<Rightarrow> int \<Rightarrow> bool \<Rightarrow> recv_pc \<Rightarrow> world \<Rightarrow> recv_out option" where
  "recv_park t c out timeout_ns expire pc w =
     (case pc of
        R_park \<Rightarrow>
          (let backstop = (spsc (chans w c) \<and> timeout_ns < 0)
           in if expire
              then (if backstop then rgo R_backstop w
                    else if 0 < timeout_ns then rgo R_timeout w else None)
              else if parks w (OwnPark (Self t)) then rgo R_return w else None)
      | R_backstop \<Rightarrow>
          (case chan_lock t c w of
             None \<Rightarrow> None
           | Some w1 \<Rightarrow>
               (case remove_receiver c (Self t) w1 of
                  None \<Rightarrow> None
                | Some (False, w2) \<Rightarrow> rgo R_return (chan_unlock c w2)
                | Some (True, w2) \<Rightarrow>
                    (case ring_pop c out w2 of
                       None \<Rightarrow> None
                     | Some (True, w3) \<Rightarrow> rgo R_return (chan_unlock c (set_result (Self t) CHAN_OK w3))
                     | Some (False, w3) \<Rightarrow>
                         if closed (chans w3 c)
                         then rgo R_return (chan_unlock c (set_result (Self t) CHAN_ERR_CLOSED w3))
                         else rgo R_park2 (chan_unlock c (push_receiver c (Self t) w3)))))
      | R_park2 \<Rightarrow> (if \<not> expire \<and> parks w (OwnPark (Self t)) then rgo R_return w else None)
      | R_timeout \<Rightarrow>
          (case chan_lock t c w of
             None \<Rightarrow> None
           | Some w1 \<Rightarrow>
               (case remove_receiver c (Self t) w1 of
                  None \<Rightarrow> None
                | Some (still_queued, w2) \<Rightarrow>
                    rgo (R_dec (if capacity (chans w c) = 0 \<or> still_queued then CHAN_ERR_TIMEOUT
                                else wresult (heap w2 (Self t)))) (chan_unlock c w2)))
      | R_return \<Rightarrow> rret (wresult (heap w (Self t))) (add_recv_cnt c (-1) w)
      | R_dec e \<Rightarrow> rret e (add_recv_cnt c (-1) w)
      | _ \<Rightarrow> None)"

text \<open>The whole machine of \<open>chan_recv_impl\<close>.\<close>

definition chan_recv_step ::
    "tid \<Rightarrow> caddr \<Rightarrow> baddr \<Rightarrow> int \<Rightarrow> bool \<Rightarrow> recv_pc \<Rightarrow> world \<Rightarrow> recv_out option" where
  "chan_recv_step t c out timeout_ns expire pc w =
     (case pc of
        R_scnt i \<Rightarrow> recv_fast c out pc w
      | R_rcnt i \<Rightarrow> recv_fast c out pc w
      | R_pop i \<Rightarrow> recv_fast c out pc w
      | R_closed i \<Rightarrow> recv_fast c out pc w
      | R_check \<Rightarrow> recv_fast c out pc w
      | R_admit \<Rightarrow> recv_admit t c pc w
      | R_test \<Rightarrow> recv_admit t c pc w
      | R_move s \<Rightarrow> recv_admit t c pc w
      | R_lock \<Rightarrow> recv_slow t c out timeout_ns pc w
      | R_help \<Rightarrow> recv_slow t c out timeout_ns pc w
      | R_empty \<Rightarrow> recv_slow t c out timeout_ns pc w
      | R_recheck \<Rightarrow> recv_slow t c out timeout_ns pc w
      | R_wake s \<Rightarrow> recv_slow t c out timeout_ns pc w
      | _ \<Rightarrow> recv_park t c out timeout_ns expire pc w)"

section \<open>Bulk receive\<close>

text \<open>
  \<open>chan_try_recv_burst\<close> up to its wake check: the number of elements received, and whether
  parked senders have to be admitted. It keeps draining a closed channel.
\<close>

definition try_recv_burst ::
    "caddr option \<Rightarrow> baddr option \<Rightarrow> u64 \<Rightarrow> world \<Rightarrow> (u32 \<times> bool \<times> world) option" where
  "try_recv_burst cp outp n w =
     (case (cp, outp) of
        (Some c, Some out) \<Rightarrow>
          (if n = 0 then Some (0, False, w)
           else if capacity (chans w c) = 0 then Some (0, False, w)
           else
             (let want = (if 0xFFFFFFFF < n then 0xFFFFFFFF else ucast n) :: u32
              in case ring_lf_dequeue_burst (ring (chans w c)) want of
                   None \<Rightarrow> None
                 | Some (got, xs, r) \<Rightarrow>
                     (let w1 = upd_chan c (\<lambda>ch. ch\<lparr>ring := r\<rparr>) (w\<lparr>mem := store_elem out xs (mem w)\<rparr>)
                      in Some (got, got \<noteq> 0 \<and> send_waiter_cnt (chans w1 c) \<noteq> 0, w1))))
      | _ \<Rightarrow> Some (0, False, w))"

end
