(* ===== verification/Chan_Select.thy ===== *)
theory Chan_Select
  imports Chan_Ops
begin

text \<open>
  \<open>src/select.c\<close>: the lock order, the readiness test and the execution of one case under
  the locks, the lock-free fast path with its round-robin start, and the slow path in its
  three stretches: first pass and registration of the stubs under all locks, the wait, and
  the cleanup under all locks.
\<close>

section \<open>Lock order\<close>

text \<open>
  The insertion sort of case indices by channel address: \<open>order[j] = order[j-1]; j--\<close>
  while the predecessor has the larger address.
\<close>

fun sort_inner :: "(nat \<Rightarrow> caddr) \<Rightarrow> nat \<Rightarrow> nat \<Rightarrow> nat list \<Rightarrow> nat list" where
  "sort_inner addr key 0 order = order[0 := key]"
| "sort_inner addr key (Suc j) order =
     (if addr key < addr (order ! j) then sort_inner addr key j (order[Suc j := order ! j])
      else order[Suc j := key])"

definition sort_order :: "chan_select_case list \<Rightarrow> nat list" where
  "sort_order cases =
     foldl (\<lambda>order i. sort_inner (\<lambda>k. case_ch (cases ! k)) (order ! i) i order)
       [0..<length cases] [1..<length cases]"

definition sort_order_2 :: "chan_select_case list \<Rightarrow> nat list" where
  "sort_order_2 cases = (if case_ch (cases ! 0) \<le> case_ch (cases ! 1) then [0, 1] else [1, 0])"

definition select_order :: "chan_select_case list \<Rightarrow> nat list" where
  "select_order cases = (if length cases = 2 then sort_order_2 cases else sort_order cases)"

text \<open>The channels \<open>lock_all\<close> locks, in order: equal neighbours are locked once.\<close>

definition lock_list :: "chan_select_case list \<Rightarrow> nat list \<Rightarrow> caddr list" where
  "lock_list cases order =
     map (\<lambda>i. case_ch (cases ! (order ! i)))
       (filter (\<lambda>i. \<not> (0 < i \<and> case_ch (cases ! (order ! i)) = case_ch (cases ! (order ! (i - 1)))))
          [0..<length order])"

fun lock_all :: "tid \<Rightarrow> caddr list \<Rightarrow> world \<Rightarrow> world option" where
  "lock_all t [] w = Some w"
| "lock_all t (c # cs) w = (case chan_lock t c w of None \<Rightarrow> None | Some w1 \<Rightarrow> lock_all t cs w1)"

fun unlock_all :: "caddr list \<Rightarrow> world \<Rightarrow> world" where
  "unlock_all [] w = w"
| "unlock_all (c # cs) w = unlock_all cs (chan_unlock c w)"

section \<open>One case under the locks\<close>

definition case_ready :: "chan_select_case \<Rightarrow> world \<Rightarrow> bool" where
  "case_ready cs w =
     (let ch = chans w (case_ch cs)
      in case case_op cs of
           CHAN_OP_SEND \<Rightarrow>
             (if closed ch then False
              else if capacity ch = 0 then \<not> waitq_empty (recv_waiters ch)
              else \<not> ring_full (ring ch) \<or> \<not> waitq_empty (recv_waiters ch))
         | CHAN_OP_RECV \<Rightarrow>
             (if capacity ch = 0 then \<not> waitq_empty (send_waiters ch) \<or> closed ch
              else \<not> ring_empty (ring ch) \<or> \<not> waitq_empty (send_waiters ch) \<or> closed ch))"

text \<open>Hand an element to a dequeued receiver, or take it from a dequeued sender, and wake it.\<close>

definition give_to :: "caddr \<Rightarrow> baddr \<Rightarrow> waddr \<Rightarrow> world \<Rightarrow> world" where
  "give_to c data r w =
     waiter_finish r CHAN_OK
       (w\<lparr>mem := copy_elem (elem_size (chans w c)) (wdata (heap w r)) data (mem w)\<rparr>)"

definition take_from :: "caddr \<Rightarrow> baddr \<Rightarrow> waddr \<Rightarrow> world \<Rightarrow> world" where
  "take_from c data s w =
     waiter_finish s CHAN_OK
       (w\<lparr>mem := copy_elem (elem_size (chans w c)) data (wdata (heap w s)) (mem w)\<rparr>)"

text \<open>
  A send case. On a buffered channel the result of \<open>ring_push\<close> is ignored, and a receiver
  dequeued afterwards is woken without a copy, as in the code.
\<close>

definition execute_send :: "caddr \<Rightarrow> baddr \<Rightarrow> world \<Rightarrow> (chan_err \<times> world) option" where
  "execute_send c data w =
     (if capacity (chans w c) = 0 then
        (case pop_receiver c w of
           None \<Rightarrow> None
         | Some (None, w1) \<Rightarrow> Some (CHAN_ERR_WOULDBLOCK, w1)
         | Some (Some r, w1) \<Rightarrow> Some (CHAN_OK, give_to c data r w1))
      else
        (let direct =
               (if \<not> waitq_empty (recv_waiters (chans w c)) \<and> ring_empty (ring (chans w c))
                then pop_receiver c w else Some (None, w))
         in case direct of
              None \<Rightarrow> None
            | Some (Some r, w1) \<Rightarrow> Some (CHAN_OK, give_to c data r w1)
            | Some (None, w1) \<Rightarrow>
                (case ring_push c data w1 of
                   None \<Rightarrow> None
                 | Some (_, w2) \<Rightarrow>
                     (case pop_receiver c w2 of
                        None \<Rightarrow> None
                      | Some (None, w3) \<Rightarrow> Some (CHAN_OK, w3)
                      | Some (Some r, w3) \<Rightarrow> Some (CHAN_OK, waiter_finish r CHAN_OK w3)))))"

definition execute_recv :: "caddr \<Rightarrow> baddr \<Rightarrow> world \<Rightarrow> (chan_err \<times> world) option" where
  "execute_recv c data w =
     (if 0 < capacity (chans w c) \<and> \<not> ring_empty (ring (chans w c)) then
        (case ring_pop c data w of
           None \<Rightarrow> None
         | Some (_, w1) \<Rightarrow>
             (case pop_sender c w1 of
                None \<Rightarrow> None
              | Some (None, w2) \<Rightarrow> Some (CHAN_OK, w2)
              | Some (Some s, w2) \<Rightarrow>
                  (case ring_push c (wdata (heap w2 s)) w2 of
                     None \<Rightarrow> None
                   | Some (_, w3) \<Rightarrow> Some (CHAN_OK, waiter_finish s CHAN_OK w3))))
      else
        (case pop_sender c w of
           None \<Rightarrow> None
         | Some (Some s, w1) \<Rightarrow> Some (CHAN_OK, take_from c data s w1)
         | Some (None, w1) \<Rightarrow>
             Some (if closed (chans w1 c) then CHAN_ERR_CLOSED else CHAN_ERR_WOULDBLOCK, w1)))"

definition execute_case_locked :: "chan_select_case \<Rightarrow> world \<Rightarrow> (chan_err \<times> world) option" where
  "execute_case_locked cs w =
     (case case_op cs of
        CHAN_OP_SEND \<Rightarrow> execute_send (case_ch cs) (case_data cs) w
      | CHAN_OP_RECV \<Rightarrow> execute_recv (case_ch cs) (case_data cs) w)"

section \<open>The lock-free fast path\<close>

abbreviation set_res :: "nat \<Rightarrow> chan_err \<Rightarrow> chan_select_case list \<Rightarrow> chan_select_case list" where
  "set_res i e cases \<equiv> cases[i := (cases ! i)\<lparr>case_result := e\<rparr>]"

text \<open>Step 1: the first closed and drained receive case, in index order.\<close>

definition closed_case :: "chan_select_case \<Rightarrow> world \<Rightarrow> bool" where
  "closed_case cs w =
     (let ch = chans w (case_ch cs)
      in case_op cs = CHAN_OP_RECV \<and> closed ch \<and> send_waiter_cnt ch = 0 \<and> recv_waiter_cnt ch = 0 \<and>
         ring_empty (ring ch))"

text \<open>
  Step 2: the first case from the round-robin start whose channel has no registered waiter
  and whose ring operation succeeds; a send case on a closed channel wins with
  \<open>CHAN_ERR_CLOSED\<close>.
\<close>

fun select_try_from ::
    "chan_select_case list \<Rightarrow> nat list \<Rightarrow> world \<Rightarrow>
       ((nat \<times> chan_err) option \<times> world) option" where
  "select_try_from cases [] w = Some (None, w)"
| "select_try_from cases (i # is) w =
     (let cs = cases ! i; c = case_ch cs; ch = chans w c
      in if capacity ch = 0 \<or> send_waiter_cnt ch \<noteq> 0 \<or> recv_waiter_cnt ch \<noteq> 0
         then select_try_from cases is w
         else
           (case case_op cs of
              CHAN_OP_SEND \<Rightarrow>
                (if closed ch then Some (Some (i, CHAN_ERR_CLOSED), w)
                 else
                   (case ring_push c (case_data cs) w of
                      None \<Rightarrow> None
                    | Some (ok, w1) \<Rightarrow>
                        if ok then Some (Some (i, CHAN_OK), w1) else select_try_from cases is w1))
            | CHAN_OP_RECV \<Rightarrow>
                (case ring_pop c (case_data cs) w of
                   None \<Rightarrow> None
                 | Some (ok, w1) \<Rightarrow>
                     if ok then Some (Some (i, CHAN_OK), w1) else select_try_from cases is w1)))"

text \<open>\<open>rr\<close> is the thread-local round-robin counter, a \<open>size_t\<close>.\<close>

definition chan_select_fast ::
    "chan_select_case list \<Rightarrow> u64 \<Rightarrow> world \<Rightarrow>
       (nat option \<times> chan_select_case list \<times> u64 \<times> world) option" where
  "chan_select_fast cases rr w =
     (let n = length cases
      in case filter (\<lambda>i. closed_case (cases ! i) w) [0..<n] of
           i # _ \<Rightarrow> Some (Some i, set_res i CHAN_ERR_CLOSED cases, rr, w)
         | [] \<Rightarrow>
             (let start = unat rr mod n
              in case select_try_from cases (map (\<lambda>j. (start + j) mod n) [0..<n]) w of
                   None \<Rightarrow> None
                 | Some (None, w1) \<Rightarrow> Some (None, cases, rr + 1, w1)
                 | Some (Some (i, e), w1) \<Rightarrow> Some (Some i, set_res i e cases, rr + 1, w1)))"

section \<open>The slow path\<close>

text \<open>The thread-local random generator; \<open>self\<close> is the truncated \<open>pthread_self()\<close>.\<close>

definition xorshift32 :: "u32 \<Rightarrow> u32" where
  "xorshift32 x =
     (let x1 = x XOR push_bit 13 x; x2 = x1 XOR drop_bit 17 x1 in x2 XOR push_bit 5 x2)"

definition rng_next :: "u32 \<Rightarrow> u32 \<Rightarrow> u32" where
  "rng_next self rng_state = xorshift32 (if rng_state = 0 then self OR 1 else rng_state)"

text \<open>The stub of case \<open>i\<close>.\<close>

definition stub_init :: "tid \<Rightarrow> nat \<Rightarrow> chan_select_case \<Rightarrow> world \<Rightarrow> world" where
  "stub_init t i cs w =
     w\<lparr>heap := (heap w)(Stub t i :=
         \<lparr>wnext = None, wdata = case_data cs, wop = case_op cs, wresult = CHAN_ERR_WOULDBLOCK,
          case_idx = of_nat i, wake_park = SharedPark t, select_state = Some t\<rparr>)\<rparr>"

definition stub_push :: "tid \<Rightarrow> nat \<Rightarrow> chan_select_case \<Rightarrow> world \<Rightarrow> world" where
  "stub_push t i cs w =
     (let w1 = stub_init t i cs w
      in case case_op cs of CHAN_OP_SEND \<Rightarrow> push_sender (case_ch cs) (Stub t i) w1
         | CHAN_OP_RECV \<Rightarrow> push_receiver (case_ch cs) (Stub t i) w1)"

definition stubs_register :: "tid \<Rightarrow> chan_select_case list \<Rightarrow> world \<Rightarrow> world" where
  "stubs_register t cases w =
     fold (\<lambda>i. stub_push t i (cases ! i)) [0..<length cases]
       (w\<lparr>sel_state := (sel_state w)(t := False), parks := (parks w)(SharedPark t := False)\<rparr>)"

datatype select_out =
    Sel_done int
  | Sel_parked

text \<open>
  The first stretch under the locks: execute one of the ready cases, or report that none
  is ready, or register a stub for every case and park. The result carries the case array,
  the generator state and the shared state.
\<close>

definition select_locked ::
    "tid \<Rightarrow> u32 \<Rightarrow> chan_select_case list \<Rightarrow> int \<Rightarrow> u32 \<Rightarrow> world \<Rightarrow>
       (select_out \<times> chan_select_case list \<times> u32 \<times> world) option" where
  "select_locked t self cases timeout_ns rng_state w =
     (let locks = lock_list cases (select_order cases)
      in case lock_all t locks w of
           None \<Rightarrow> None
         | Some w1 \<Rightarrow>
             (let ready = filter (\<lambda>i. case_ready (cases ! i) w1) [0..<length cases]
              in if ready \<noteq> [] then
                   (let rng1 = (if length ready = 1 then rng_state else rng_next self rng_state);
                        winner = (if length ready = 1 then ready ! 0
                                  else ready ! (unat rng1 mod length ready))
                    in case execute_case_locked (cases ! winner) w1 of
                         None \<Rightarrow> None
                       | Some (e, w2) \<Rightarrow>
                           Some (Sel_done (int winner), set_res winner e cases, rng1,
                             unlock_all locks w2))
                 else if timeout_ns = 0 then
                   Some (Sel_done (-1), map (\<lambda>cs. cs\<lparr>case_result := CHAN_ERR_WOULDBLOCK\<rparr>) cases,
                     rng_state, unlock_all locks w1)
                 else
                   Some (Sel_parked, cases, rng_state, unlock_all locks (stubs_register t cases w1))))"

text \<open>
  The cleanup: a stub whose result changed has won, every other stub is removed from its
  queue. The scan keeps the last winner.
\<close>

fun cleanup_from ::
    "tid \<Rightarrow> nat list \<Rightarrow> nat option \<Rightarrow> chan_select_case list \<Rightarrow> world \<Rightarrow>
       (nat option \<times> chan_select_case list \<times> world) option" where
  "cleanup_from t [] winner cases w = Some (winner, cases, w)"
| "cleanup_from t (i # is) winner cases w =
     (if wresult (heap w (Stub t i)) \<noteq> CHAN_ERR_WOULDBLOCK
      then cleanup_from t is (Some i) (set_res i (wresult (heap w (Stub t i))) cases) w
      else
        (case (case case_op (cases ! i) of
                 CHAN_OP_SEND \<Rightarrow> remove_sender (case_ch (cases ! i)) (Stub t i) w
               | CHAN_OP_RECV \<Rightarrow> remove_receiver (case_ch (cases ! i)) (Stub t i) w) of
           None \<Rightarrow> None
         | Some (_, w1) \<Rightarrow> cleanup_from t is winner cases w1))"

definition select_cleanup ::
    "tid \<Rightarrow> bool \<Rightarrow> chan_select_case list \<Rightarrow> world \<Rightarrow> (int \<times> chan_select_case list \<times> world) option" where
  "select_cleanup t woken cases w =
     (let locks = lock_list cases (select_order cases)
      in case lock_all t locks w of
           None \<Rightarrow> None
         | Some w1 \<Rightarrow>
             (case cleanup_from t [0..<length cases] None cases w1 of
                None \<Rightarrow> None
              | Some (winner, cases1, w2) \<Rightarrow>
                  (let w3 = unlock_all locks w2
                   in case winner of
                        Some i \<Rightarrow>
                          if woken then Some (int i, cases1, w3)
                          else Some (-1, map (\<lambda>cs. cs\<lparr>case_result := CHAN_ERR_TIMEOUT\<rparr>) cases1, w3)
                      | None \<Rightarrow>
                          Some (-1, map (\<lambda>cs. cs\<lparr>case_result := CHAN_ERR_TIMEOUT\<rparr>) cases1, w3))))"

end
