(* ===== verification/Chan_Sys.thy ===== *)
theory Chan_Sys
  imports Chan_Send Chan_Recv Chan_Select
begin

text \<open>
  The library as one system: \<open>chan_close\<close> as a step machine, and threads that call the
  public operations and interleave their steps on the shared state. A select interleaves at
  the granularity of its stretches: the fast path, the two stretches under all locks, and
  the wait.
\<close>

section \<open>Closing\<close>

datatype close_pc = C_lock | C_drain

text \<open>
  \<open>chan_close\<close>: blocked senders fail; each blocked receiver gets an element of the ring if
  there is one and fails otherwise.
\<close>

definition chan_close_step :: "tid \<Rightarrow> caddr \<Rightarrow> close_pc \<Rightarrow> world \<Rightarrow> (world \<times> (close_pc + chan_err)) option" where
  "chan_close_step t c pc w =
     (case pc of
        C_lock \<Rightarrow>
          (case chan_lock t c w of
             None \<Rightarrow> None
           | Some w1 \<Rightarrow>
               if closed (chans w1 c) then Some (chan_unlock c w1, Inr CHAN_ERR_CLOSED)
               else
                 (let w2 = upd_chan c (\<lambda>ch. ch\<lparr>closed := True\<rparr>) w1
                  in case waitq_close_all (send_waiters (chans w2 c)) w2 of
                       None \<Rightarrow> None
                     | Some (q, w3) \<Rightarrow>
                         Some (upd_chan c (\<lambda>ch. ch\<lparr>send_waiters := q\<rparr>) w3, Inl C_drain)))
      | C_drain \<Rightarrow>
          (case waitq_pop (recv_waiters (chans w c)) (heap w) of
             (None, q, h) \<Rightarrow>
               Some (chan_unlock c (upd_chan c (\<lambda>ch. ch\<lparr>recv_waiters := q\<rparr>) (w\<lparr>heap := h\<rparr>)), Inr CHAN_OK)
           | (Some r, q, h) \<Rightarrow>
               (let w1 = upd_chan c (\<lambda>ch. ch\<lparr>recv_waiters := q\<rparr>) (w\<lparr>heap := h\<rparr>)
                in case waiter_try_claim r h (sel_state w1) of
                     (claimed, sel) \<Rightarrow>
                       (let w2 = w1\<lparr>sel_state := sel\<rparr>
                        in if \<not> claimed then Some (w2, Inl C_drain)
                           else if 0 < capacity (chans w2 c) then
                             (case ring_pop c (wdata (heap w2 r)) w2 of
                                None \<Rightarrow> None
                              | Some (ok, w3) \<Rightarrow>
                                  Some (waiter_finish r (if ok then CHAN_OK else CHAN_ERR_CLOSED) w3,
                                    Inl C_drain))
                           else Some (waiter_finish r CHAN_ERR_CLOSED w2, Inl C_drain)))))"

section \<open>Threads\<close>

datatype select_pc = Sel_fast | Sel_lock | Sel_wait | Sel_clean bool

text \<open>
  What a thread is doing. A bulk operation goes on with the delivery or admission loop and
  returns its count.
\<close>

datatype tpc =
    Idle
  | Sending caddr baddr int send_pc
  | Receiving caddr baddr int recv_pc
  | Closing caddr close_pc
  | Selecting "chan_select_case list" int select_pc
  | SendBurst caddr u32 send_pc
  | RecvBurst caddr u32 recv_pc
  | Finished chan_err
  | FinishedN u32
  | FinishedSel int "chan_select_case list"

text \<open>\<open>rr\<close>, \<open>rng\<close> and \<open>pself\<close> are the thread-local counters of select and the thread id it seeds with.\<close>

record sys =
  sw :: world
  tpcs :: "tid \<Rightarrow> tpc"
  rr :: "tid \<Rightarrow> u64"
  rng :: "tid \<Rightarrow> u32"
  pself :: "tid \<Rightarrow> u32"

abbreviation at :: "tid \<Rightarrow> world \<Rightarrow> tpc \<Rightarrow> sys \<Rightarrow> sys" where
  "at t w pc s \<equiv> s\<lparr>sw := w, tpcs := (tpcs s)(t := pc)\<rparr>"

definition select_step :: "tid \<Rightarrow> bool \<Rightarrow> chan_select_case list \<Rightarrow> int \<Rightarrow> select_pc \<Rightarrow> sys \<Rightarrow> sys option" where
  "select_step t expire cases timeout_ns pc s =
     (case pc of
        Sel_fast \<Rightarrow>
          (case chan_select_fast cases (rr s t) (sw s) of
             None \<Rightarrow> None
           | Some (res, cases1, rr1, w) \<Rightarrow>
               Some ((at t w (case res of Some i \<Rightarrow> FinishedSel (int i) cases1
                              | None \<Rightarrow> Selecting cases1 timeout_ns Sel_lock) s)
                       \<lparr>rr := (rr s)(t := rr1)\<rparr>))
      | Sel_lock \<Rightarrow>
          (case select_locked t (pself s t) cases timeout_ns (rng s t) (sw s) of
             None \<Rightarrow> None
           | Some (out, cases1, rng1, w) \<Rightarrow>
               Some ((at t w (case out of Sel_done i \<Rightarrow> FinishedSel i cases1
                              | Sel_parked \<Rightarrow> Selecting cases1 timeout_ns Sel_wait) s)
                       \<lparr>rng := (rng s)(t := rng1)\<rparr>))
      | Sel_wait \<Rightarrow>
          (if expire then (if 0 < timeout_ns then Some (at t (sw s) (Selecting cases timeout_ns (Sel_clean False)) s) else None)
           else if parks (sw s) (SharedPark t)
           then Some (at t (sw s) (Selecting cases timeout_ns (Sel_clean True)) s) else None)
      | Sel_clean woken \<Rightarrow>
          (case select_cleanup t woken cases (sw s) of
             None \<Rightarrow> None
           | Some (i, cases1, w) \<Rightarrow> Some (at t w (FinishedSel i cases1) s)))"

text \<open>
  One step of thread \<open>t\<close>; \<open>None\<close> when it is blocked, or has nothing to do. \<open>expire\<close> lets
  the timed wait the thread is in run out.
\<close>

definition sys_step :: "tid \<Rightarrow> bool \<Rightarrow> sys \<Rightarrow> sys option" where
  "sys_step t expire s =
     (case tpcs s t of
        Sending c d timeout_ns pc \<Rightarrow>
          map_option (\<lambda>(w, out). at t w (case out of Inl pc1 \<Rightarrow> Sending c d timeout_ns pc1
                                         | Inr e \<Rightarrow> Finished e) s)
            (chan_send_step t c d timeout_ns expire pc (sw s))
      | Receiving c out timeout_ns pc \<Rightarrow>
          map_option (\<lambda>(w, res). at t w (case res of Inl pc1 \<Rightarrow> Receiving c out timeout_ns pc1
                                         | Inr e \<Rightarrow> Finished e) s)
            (chan_recv_step t c out timeout_ns expire pc (sw s))
      | Closing c pc \<Rightarrow>
          map_option (\<lambda>(w, res). at t w (case res of Inl pc1 \<Rightarrow> Closing c pc1 | Inr e \<Rightarrow> Finished e) s)
            (chan_close_step t c pc (sw s))
      | Selecting cases timeout_ns pc \<Rightarrow> select_step t expire cases timeout_ns pc s
      | SendBurst c got pc \<Rightarrow>
          map_option (\<lambda>(w, out). at t w (case out of Inl pc1 \<Rightarrow> SendBurst c got pc1
                                         | Inr _ \<Rightarrow> FinishedN got) s)
            (send_deliver t c pc (sw s))
      | RecvBurst c got pc \<Rightarrow>
          map_option (\<lambda>(w, out). at t w (case out of Inl pc1 \<Rightarrow> RecvBurst c got pc1
                                         | Inr _ \<Rightarrow> FinishedN got) s)
            (recv_admit t c pc (sw s))
      | _ \<Rightarrow> None)"

section \<open>The public operations\<close>

definition resting :: "tpc \<Rightarrow> bool" where
  "resting pc =
     (case pc of Idle \<Rightarrow> True | Finished _ \<Rightarrow> True | FinishedN _ \<Rightarrow> True | FinishedSel _ _ \<Rightarrow> True
      | _ \<Rightarrow> False)"

definition chan_send_timeout :: "tid \<Rightarrow> caddr option \<Rightarrow> baddr option \<Rightarrow> int \<Rightarrow> sys \<Rightarrow> sys" where
  "chan_send_timeout t cp dp ns s =
     at t (sw s) (case send_entry cp dp (sw s) of Inr e \<Rightarrow> Finished e
                  | Inl pc \<Rightarrow> Sending (the cp) (the dp) ns pc) s"

definition chan_send :: "tid \<Rightarrow> caddr option \<Rightarrow> baddr option \<Rightarrow> sys \<Rightarrow> sys" where
  "chan_send t cp dp s = chan_send_timeout t cp dp (-1) s"

definition chan_try_send :: "tid \<Rightarrow> caddr option \<Rightarrow> baddr option \<Rightarrow> sys \<Rightarrow> sys" where
  "chan_try_send t cp dp s = chan_send_timeout t cp dp 0 s"

definition chan_recv_timeout :: "tid \<Rightarrow> caddr option \<Rightarrow> baddr option \<Rightarrow> int \<Rightarrow> sys \<Rightarrow> sys" where
  "chan_recv_timeout t cp outp ns s =
     at t (sw s) (case recv_entry cp outp (sw s) of Inr e \<Rightarrow> Finished e
                  | Inl pc \<Rightarrow> Receiving (the cp) (the outp) ns pc) s"

definition chan_recv :: "tid \<Rightarrow> caddr option \<Rightarrow> baddr option \<Rightarrow> sys \<Rightarrow> sys" where
  "chan_recv t cp outp s = chan_recv_timeout t cp outp (-1) s"

definition chan_try_recv :: "tid \<Rightarrow> caddr option \<Rightarrow> baddr option \<Rightarrow> sys \<Rightarrow> sys" where
  "chan_try_recv t cp outp s = chan_recv_timeout t cp outp 0 s"

definition chan_close :: "tid \<Rightarrow> caddr option \<Rightarrow> sys \<Rightarrow> sys" where
  "chan_close t cp s =
     at t (sw s) (case cp of None \<Rightarrow> Finished CHAN_ERR_INVALID | Some c \<Rightarrow> Closing c C_lock) s"

definition chan_select_timeout :: "tid \<Rightarrow> chan_select_case list \<Rightarrow> int \<Rightarrow> sys \<Rightarrow> sys" where
  "chan_select_timeout t cases ns s =
     at t (sw s) (if cases = [] then FinishedSel (-1) cases else Selecting cases ns Sel_fast) s"

definition chan_select :: "tid \<Rightarrow> chan_select_case list \<Rightarrow> sys \<Rightarrow> sys" where
  "chan_select t cases s = chan_select_timeout t cases (-1) s"

definition chan_select_try :: "tid \<Rightarrow> chan_select_case list \<Rightarrow> sys \<Rightarrow> sys" where
  "chan_select_try t cases s = chan_select_timeout t cases 0 s"

definition chan_try_send_burst :: "tid \<Rightarrow> caddr option \<Rightarrow> baddr option \<Rightarrow> u64 \<Rightarrow> sys \<Rightarrow> sys option" where
  "chan_try_send_burst t cp dp n s =
     map_option (\<lambda>(got, wake, w).
         at t w (if wake then SendBurst (the cp) got S_deliver else FinishedN got) s)
       (try_send_burst cp dp n (sw s))"

definition chan_try_recv_burst :: "tid \<Rightarrow> caddr option \<Rightarrow> baddr option \<Rightarrow> u64 \<Rightarrow> sys \<Rightarrow> sys option" where
  "chan_try_recv_burst t cp outp n s =
     map_option (\<lambda>(got, wake, w).
         at t w (if wake then RecvBurst (the cp) got R_admit else FinishedN got) s)
       (try_recv_burst cp outp n (sw s))"

section \<open>Runs\<close>

text \<open>A call, or a step of a thread.\<close>

datatype call =
    CSend "caddr option" "baddr option" int
  | CRecv "caddr option" "baddr option" int
  | CClose "caddr option"
  | CSelect "chan_select_case list" int
  | CSendBurst "caddr option" "baddr option" u64
  | CRecvBurst "caddr option" "baddr option" u64

datatype event = Call tid call | Step tid | Expire tid

definition do_call :: "tid \<Rightarrow> call \<Rightarrow> sys \<Rightarrow> sys option" where
  "do_call t cl s =
     (if \<not> resting (tpcs s t) then None
      else
        (case cl of
           CSend cp dp ns \<Rightarrow> Some (chan_send_timeout t cp dp ns s)
         | CRecv cp outp ns \<Rightarrow> Some (chan_recv_timeout t cp outp ns s)
         | CClose cp \<Rightarrow> Some (chan_close t cp s)
         | CSelect cases ns \<Rightarrow> Some (chan_select_timeout t cases ns s)
         | CSendBurst cp dp n \<Rightarrow> chan_try_send_burst t cp dp n s
         | CRecvBurst cp outp n \<Rightarrow> chan_try_recv_burst t cp outp n s))"

definition do_event :: "event \<Rightarrow> sys \<Rightarrow> sys option" where
  "do_event e s =
     (case e of Call t cl \<Rightarrow> do_call t cl s | Step t \<Rightarrow> sys_step t False s | Expire t \<Rightarrow> sys_step t True s)"

fun sys_exec :: "event list \<Rightarrow> sys \<Rightarrow> sys option" where
  "sys_exec [] s = Some s"
| "sys_exec (e # es) s = (case do_event e s of None \<Rightarrow> None | Some s1 \<Rightarrow> sys_exec es s1)"

inductive sys_reach :: "sys \<Rightarrow> sys \<Rightarrow> bool" for s0 where
  start: "sys_reach s0 s0"
| step: "sys_reach s0 s \<Longrightarrow> do_event e s = Some s' \<Longrightarrow> sys_reach s0 s'"

lemma sys_exec_reach: "sys_reach s0 s \<Longrightarrow> sys_exec es s = Some s' \<Longrightarrow> sys_reach s0 s'"
  by (induction es s rule: sys_exec.induct)
    (auto intro: sys_reach.step split: option.splits)

text \<open>Run thread \<open>t\<close> alone until it rests or blocks; \<open>None\<close> when it never does.\<close>

partial_function (option) finish :: "tid \<Rightarrow> sys \<Rightarrow> sys option" where
  "finish t s = (case sys_step t False s of None \<Rightarrow> Some s | Some s1 \<Rightarrow> finish t s1)"

declare finish.simps [code]

end
