(* ===== verification/Chan_Seq.thy ===== *)
theory Chan_Seq
  imports Chan_Sys Ring_Init
begin

text \<open>
  The contract of a channel used by one thread at a time: on a channel without waiters the
  non-blocking send and receive, run to completion, act as a bounded FIFO queue with a
  closed state. The interpretation at the end makes a channel a provider of the same queue
  contract as the ring.
\<close>

section \<open>Running one thread\<close>

definition runs :: "tid \<Rightarrow> sys \<Rightarrow> sys \<Rightarrow> bool" where
  "runs t s s' \<longleftrightarrow> (\<exists>n. sys_exec (replicate n (Step t)) s = Some s')"

lemma runs_refl [intro]: "runs t s s"
  unfolding runs_def by (rule exI [of _ 0]) simp

lemma runs_step: "sys_step t False s = Some s1 \<Longrightarrow> runs t s1 s2 \<Longrightarrow> runs t s s2"
  unfolding runs_def by (elim exE, rule_tac x = "Suc n" in exI) (simp add: do_event_def)

lemma sys_exec_append:
  "sys_exec (es @ fs) s = (case sys_exec es s of None \<Rightarrow> None | Some s1 \<Rightarrow> sys_exec fs s1)"
  by (induction es s rule: sys_exec.induct) (auto split: option.splits)

lemma runs_trans: "runs t s s1 \<Longrightarrow> runs t s1 s2 \<Longrightarrow> runs t s s2"
  unfolding runs_def
  by (elim exE, rule_tac x = "n + na" in exI) (simp add: replicate_add sys_exec_append)

lemma runs_reach: "runs t s s' \<Longrightarrow> sys_reach s0 s \<Longrightarrow> sys_reach s0 s'"
  unfolding runs_def using sys_exec_reach by blast

section \<open>Channels without waiters\<close>

definition chan_quiet :: "chan \<Rightarrow> bool" where
  "chan_quiet ch \<longleftrightarrow> lock ch = None \<and> send_waiter_cnt ch = 0 \<and> recv_waiter_cnt ch = 0 \<and>
     send_waiters ch = empty_waitq \<and> recv_waiters ch = empty_waitq \<and> 0 < capacity ch \<and>
     ring_ok (ring ch) \<and> (spsc ch \<longrightarrow> spsc_ok (ring ch)) \<and> resz (ring ch) = unat (elem_size ch)"

abbreviation items_of :: "chan \<Rightarrow> byte list list" where
  "items_of ch \<equiv> ring_items (ring ch)"

abbreviation set_ring :: "chan_ring_lf \<Rightarrow> chan \<Rightarrow> chan" where
  "set_ring r ch \<equiv> ch\<lparr>ring := r\<rparr>"

lemma quiet_set_ring:
  assumes "chan_quiet ch" "ring_ok r" "spsc ch \<Longrightarrow> spsc_ok r" "resz r = resz (ring ch)"
  shows "chan_quiet (set_ring r ch)"
  using assms by (simp add: chan_quiet_def)

lemma spsc_ok_ring: "spsc_ok r \<Longrightarrow> ring_ok r"
  by (simp add: spsc_ok_def)

lemma ring_lf_push_law:
  assumes "ring_ok r" "length x = resz r"
  shows "\<exists>r'. ring_lf_push r x = Some (length (ring_items r) < rcap r, r') \<and> ring_ok r' \<and>
    rcap r' = rcap r \<and> resz r' = resz r \<and>
    ring_items r' = (if length (ring_items r) < rcap r then ring_items r @ [x] else ring_items r)"
  using ring_lf_push_ok [OF assms(1), of x] ring_lf_push_full [OF assms(1), of x]
    ring_items_bounded [OF assms(1)] assms
  by (cases "length (ring_items r) < rcap r") auto

lemma ring_lf_pop_law:
  assumes "ring_ok r"
  shows "\<exists>r'. ring_lf_pop r = Some ((case ring_items r of [] \<Rightarrow> None | x # _ \<Rightarrow> Some x), r') \<and>
    ring_ok r' \<and> rcap r' = rcap r \<and> resz r' = resz r \<and> ring_items r' = tl (ring_items r)"
  using ring_lf_pop_empty [OF assms] ring_lf_pop_ok [OF assms] assms
  by (cases "ring_items r") auto

lemma push_dispatch_quiet:
  assumes q: "chan_quiet (chans w c)" and d: "length (mem w d) = resz (ring (chans w c))"
    and room: "room = (length (items_of (chans w c)) < rcap (ring (chans w c)))"
  shows "\<exists>r. ring_push_dispatch c d w = Some (room, upd_chan c (set_ring r) w) \<and>
    chan_quiet (set_ring r (chans w c)) \<and> rcap r = rcap (ring (chans w c)) \<and>
    ring_items r = (if room then items_of (chans w c) @ [mem w d] else items_of (chans w c))"
proof (cases "spsc (chans w c)")
  case True
  with q have "spsc_ok (ring (chans w c))" by (simp add: chan_quiet_def)
  from ring_spsc_push_ok [OF this, of "mem w d"] obtain r where
    "ring_spsc_push (ring (chans w c)) (mem w d) = (room, r)"
    "spsc_ok r" "rcap r = rcap (ring (chans w c))" "resz r = resz (ring (chans w c))"
    "ring_items r = items_of (chans w c) @ (if room then [mem w d] else [])"
    using d by (auto simp: room)
  with q True show ?thesis
    by (intro exI [of _ r] conjI quiet_set_ring) (auto simp: ring_push_dispatch_def spsc_ok_ring)
next
  case False
  from q have "ring_ok (ring (chans w c))" by (simp add: chan_quiet_def)
  from ring_lf_push_law [OF this d] q False show ?thesis
    by (auto simp: ring_push_dispatch_def ring_push_def room intro!: quiet_set_ring)
qed

text \<open>A receive of one element into a buffer, or nothing.\<close>

definition recv_mem :: "baddr \<Rightarrow> byte list list \<Rightarrow> (baddr \<Rightarrow> byte list) \<Rightarrow> baddr \<Rightarrow> byte list" where
  "recv_mem out xs m = (case xs of [] \<Rightarrow> m | x # _ \<Rightarrow> store_elem out x m)"

lemma pop_dispatch_quiet:
  assumes q: "chan_quiet (chans w c)"
  shows "\<exists>r. ring_pop_dispatch c out w = Some (items_of (chans w c) \<noteq> [],
      (upd_chan c (set_ring r) w)\<lparr>mem := recv_mem out (items_of (chans w c)) (mem w)\<rparr>) \<and>
    chan_quiet (set_ring r (chans w c)) \<and> rcap r = rcap (ring (chans w c)) \<and>
    ring_items r = tl (items_of (chans w c))"
proof (cases "spsc (chans w c)")
  case True
  with q have "spsc_ok (ring (chans w c))" by (simp add: chan_quiet_def)
  from ring_spsc_pop_ok [OF this] obtain r where
    "ring_spsc_pop (ring (chans w c)) = ((case items_of (chans w c) of [] \<Rightarrow> None | x # _ \<Rightarrow> Some x), r)"
    "spsc_ok r" "rcap r = rcap (ring (chans w c))" "resz r = resz (ring (chans w c))"
    "ring_items r = tl (items_of (chans w c))" by blast
  with q True show ?thesis
    by (intro exI [of _ r] conjI quiet_set_ring)
      (auto simp: ring_pop_dispatch_def recv_mem_def spsc_ok_ring split: list.splits)
next
  case False
  from q have "ring_ok (ring (chans w c))" by (simp add: chan_quiet_def)
  from ring_lf_pop_law [OF this] obtain r where
    "ring_lf_pop (ring (chans w c)) = Some ((case items_of (chans w c) of [] \<Rightarrow> None | x # _ \<Rightarrow> Some x), r)"
    "ring_ok r" "rcap r = rcap (ring (chans w c))" "resz r = resz (ring (chans w c))"
    "ring_items r = tl (items_of (chans w c))" by blast
  with q False show ?thesis
    by (intro exI [of _ r] conjI quiet_set_ring)
      (auto simp: ring_pop_dispatch_def ring_pop_def recv_mem_def Let_def split: list.splits)
qed

section \<open>Send\<close>

lemma sending_step:
  assumes "tpcs s t = Sending c d ns pc" "chan_send_step t c d ns False pc (sw s) = Some (w, out)"
    and "runs t (at t w (case out of Inl pc1 \<Rightarrow> Sending c d ns pc1 | Inr e \<Rightarrow> Finished e) s) s'"
  shows "runs t s s'"
  using assms by (intro runs_step [of t s]) (simp_all add: sys_step_def)

lemmas send_defs = chan_send_step_def send_fast_def send_slow_def send_deliver_def deliver_exit_def

lemma lock_unlock: "lock ch = None \<Longrightarrow> ch\<lparr>lock := None\<rparr> = ch"
  by (cases ch) simp

lemma upd_chan_ring_lock:
  "lock ch = None \<Longrightarrow> ch\<lparr>lock := None, ring := r\<rparr> = ch\<lparr>ring := r\<rparr>"
  by (cases ch) simp

text \<open>The ring has room: the fast path pushes and returns.\<close>

lemma send_room:
  assumes q: "chan_quiet (chans (sw s) c)" and op: "\<not> closed (chans (sw s) c)"
    and d: "length (mem (sw s) d) = resz (ring (chans (sw s) c))"
    and room: "length (items_of (chans (sw s) c)) < rcap (ring (chans (sw s) c))"
    and pc: "tpcs s t = Sending c d ns (S_closed i)"
  shows "\<exists>r. runs t s (at t (upd_chan c (set_ring r) (sw s)) (Finished CHAN_OK) s) \<and>
    chan_quiet (set_ring r (chans (sw s) c)) \<and> rcap r = rcap (ring (chans (sw s) c)) \<and>
    ring_items r = items_of (chans (sw s) c) @ [mem (sw s) d]"
proof -
  from push_dispatch_quiet [OF q d refl] room obtain r where
    r: "ring_push_dispatch c d (sw s) = Some (True, upd_chan c (set_ring r) (sw s))"
      "chan_quiet (set_ring r (chans (sw s) c))" "rcap r = rcap (ring (chans (sw s) c))"
      "ring_items r = items_of (chans (sw s) c) @ [mem (sw s) d]"
    by auto
  have cnt: "send_waiter_cnt (chans (sw s) c) = 0" "recv_waiter_cnt (chans (sw s) c) = 0"
    using q by (simp_all add: chan_quiet_def)
  let ?s' = "at t (upd_chan c (set_ring r) (sw s)) (Finished CHAN_OK) s"
  have push: "runs t (at t (sw s) (Sending c d ns (S_push i)) s) ?s'"
    by (rule sending_step, simp, simp add: send_defs r(1), simp)
      (rule sending_step, simp, simp add: send_defs cnt, auto)
  have "runs t s ?s'"
  proof (cases "spsc (chans (sw s) c)")
    case True
    show ?thesis
      by (rule sending_step [OF pc]) (simp add: send_defs op True, use push in simp)
  next
    case False
    show ?thesis
      by (rule sending_step [OF pc], simp add: send_defs op False, simp)
        (rule sending_step, simp, simp add: send_defs cnt, simp,
         rule sending_step, simp, simp add: send_defs cnt, use push in simp)
  qed
  with r show ?thesis by blast
qed

text \<open>A closed channel refuses.\<close>

lemma send_closed:
  assumes "lock (chans (sw s) c) = None" "closed (chans (sw s) c)"
    and pc: "tpcs s t = Sending c d ns (S_closed i)"
  shows "runs t s (at t (sw s) (Finished CHAN_ERR_CLOSED) s)"
  by (rule sending_step [OF pc], simp add: send_defs assms, simp)
    (rule sending_step, simp, simp add: send_defs chan_lock_def chan_unlock_def assms,
     auto simp: lock_unlock assms)

text \<open>The ring is full: one more round of the spin loop, or the lock.\<close>

lemma send_spin_once:
  assumes q: "chan_quiet (chans (sw s) c)" and op: "\<not> closed (chans (sw s) c)"
    and d: "length (mem (sw s) d) = resz (ring (chans (sw s) c))"
    and full: "\<not> length (items_of (chans (sw s) c)) < rcap (ring (chans (sw s) c))"
    and pc: "tpcs s t = Sending c d ns (S_closed i)"
  shows "\<exists>r. runs t s (at t (upd_chan c (set_ring r) (sw s))
      (Sending c d ns (if LIBCHAN_FASTPATH_SPIN \<le> i then S_lock else S_closed (Suc i))) s) \<and>
    chan_quiet (set_ring r (chans (sw s) c)) \<and> rcap r = rcap (ring (chans (sw s) c)) \<and>
    ring_items r = items_of (chans (sw s) c)"
proof -
  from push_dispatch_quiet [OF q d refl] full obtain r where
    r: "ring_push_dispatch c d (sw s) = Some (False, upd_chan c (set_ring r) (sw s))"
      "chan_quiet (set_ring r (chans (sw s) c))" "rcap r = rcap (ring (chans (sw s) c))"
      "ring_items r = items_of (chans (sw s) c)"
    by auto
  have cnt: "send_waiter_cnt (chans (sw s) c) = 0" "recv_waiter_cnt (chans (sw s) c) = 0"
    using q by (simp_all add: chan_quiet_def)
  define pc1 where "pc1 = (if LIBCHAN_FASTPATH_SPIN \<le> i then S_lock else S_closed (Suc i))"
  let ?s' = "at t (upd_chan c (set_ring r) (sw s)) (Sending c d ns pc1) s"
  have push: "runs t (at t (sw s) (Sending c d ns (S_push i)) s) ?s'"
  proof (rule sending_step)
    show "chan_send_step t c d ns False (S_push i) (sw (at t (sw s) (Sending c d ns (S_push i)) s))
        = Some (upd_chan c (set_ring r) (sw s), Inl pc1)"
      by (cases "LIBCHAN_FASTPATH_SPIN \<le> i") (simp_all add: send_defs r(1) pc1_def)
  qed (simp_all add: runs_refl)
  have "runs t s ?s'"
  proof (cases "spsc (chans (sw s) c)")
    case True
    show ?thesis
      by (rule sending_step [OF pc]) (simp add: send_defs op True, use push in simp)
  next
    case False
    show ?thesis
      by (rule sending_step [OF pc], simp add: send_defs op False, simp)
        (rule sending_step, simp, simp add: send_defs cnt, simp,
         rule sending_step, simp, simp add: send_defs cnt, use push in simp)
  qed
  with r show ?thesis unfolding pc1_def by blast
qed

lemma send_spin:
  assumes "chan_quiet (chans (sw s) c)" "\<not> closed (chans (sw s) c)"
    and "length (mem (sw s) d) = resz (ring (chans (sw s) c))"
    and "\<not> length (items_of (chans (sw s) c)) < rcap (ring (chans (sw s) c))"
    and "tpcs s t = Sending c d ns (S_closed i)" "i \<le> LIBCHAN_FASTPATH_SPIN"
  shows "\<exists>r. runs t s (at t (upd_chan c (set_ring r) (sw s)) (Sending c d ns S_lock) s) \<and>
    chan_quiet (set_ring r (chans (sw s) c)) \<and> rcap r = rcap (ring (chans (sw s) c)) \<and>
    ring_items r = items_of (chans (sw s) c)"
  using assms
proof (induction "LIBCHAN_FASTPATH_SPIN - i" arbitrary: i s)
  case 0
  then have le: "LIBCHAN_FASTPATH_SPIN \<le> i" by simp
  from send_spin_once [OF 0(2-6)] show ?case unfolding if_P [OF le] .
next
  case (Suc n)
  then have lt: "\<not> LIBCHAN_FASTPATH_SPIN \<le> i" by simp
  from send_spin_once [OF Suc.prems(1-5)] lt obtain r where
    r: "runs t s (at t (upd_chan c (set_ring r) (sw s)) (Sending c d ns (S_closed (Suc i))) s)"
      "chan_quiet (set_ring r (chans (sw s) c))" "rcap r = rcap (ring (chans (sw s) c))"
      "ring_items r = items_of (chans (sw s) c)"
    by auto
  let ?s1 = "at t (upd_chan c (set_ring r) (sw s)) (Sending c d ns (S_closed (Suc i))) s"
  have es: "resz r = resz (ring (chans (sw s) c))" using r(2) Suc.prems(1) by (simp add: chan_quiet_def)
  have "\<exists>r'. runs t ?s1 (at t (upd_chan c (set_ring r') (sw ?s1)) (Sending c d ns S_lock) ?s1) \<and>
    chan_quiet (set_ring r' (chans (sw ?s1) c)) \<and> rcap r' = rcap (ring (chans (sw ?s1) c)) \<and>
    ring_items r' = items_of (chans (sw ?s1) c)"
    using Suc.hyps(2) Suc.prems r lt es by (intro Suc.hyps(1)) auto
  then obtain r' where "runs t ?s1 (at t (upd_chan c (set_ring r') (sw s)) (Sending c d ns S_lock) s)"
    "chan_quiet (set_ring r' (chans (sw s) c))" "rcap r' = rcap r" "ring_items r' = ring_items r"
    by auto
  with r runs_trans [OF r(1)] show ?case by metis
qed

lemma waitq_pop_sender_empty: "waitq_pop_sender empty_waitq h sel = Some (None, empty_waitq, h, sel)"
  by (subst waitq_pop_sender.simps) (simp add: waitq_pop_def empty_waitq_def)

lemma chan_update_same:
  "lock ch = l \<Longrightarrow> ch\<lparr>lock := l\<rparr> = ch" "ring ch = r \<Longrightarrow> ch\<lparr>ring := r\<rparr> = ch"
  "recv_waiters ch = q \<Longrightarrow> ch\<lparr>recv_waiters := q\<rparr> = ch"
  "send_waiters ch = q \<Longrightarrow> ch\<lparr>send_waiters := q\<rparr> = ch"
  by auto

lemma pop_receiver_none:
  "recv_waiters (chans w c) = empty_waitq \<Longrightarrow> pop_receiver c w = Some (None, w)"
  by (simp add: pop_receiver_def waitq_pop_receiver_def waitq_pop_sender_empty chan_update_same)

lemma pop_sender_none:
  "send_waiters (chans w c) = empty_waitq \<Longrightarrow> pop_sender c w = Some (None, w)"
  by (simp add: pop_sender_def waitq_pop_sender_empty chan_update_same)

text \<open>The ring is full and the caller does not wait.\<close>

lemma send_full_locked:
  assumes q: "chan_quiet (chans (sw s) c)" and op: "\<not> closed (chans (sw s) c)"
    and d: "length (mem (sw s) d) = resz (ring (chans (sw s) c))"
    and full: "\<not> length (items_of (chans (sw s) c)) < rcap (ring (chans (sw s) c))"
    and pc: "tpcs s t = Sending c d 0 S_lock"
  shows "runs t s (at t (sw s) (Finished CHAN_ERR_WOULDBLOCK) s)"
proof -
  note Q = q [unfolded chan_quiet_def]
  have cap: "capacity (chans (sw s) c) \<noteq> 0" using Q by (simp add: word_neq_0_conv)
  let ?w1 = "upd_chan c (\<lambda>ch. ch\<lparr>lock := Some t\<rparr>) (sw s)"
  have "length (items_of (chans (sw s) c)) = rcap (ring (chans (sw s) c))"
    using full ring_items_bounded Q by fastforce
  then have "ring_lf_push (ring (chans (sw s) c)) (mem (sw s) d) = Some (False, ring (chans (sw s) c))"
    using Q d by (intro ring_lf_push_full) auto
  then have push: "ring_push c d ?w1 = Some (False, ?w1)"
    by (simp add: ring_push_def chan_update_same)
  have "0 < rcap (ring (chans (sw s) c))"
    using Q ring_shape_cap(1) by (simp add: ring_ok_def)
  then have ne: "\<not> ring_empty (ring (chans (sw s) c))"
    using full Q ring_observers(3) [of "ring (chans (sw s) c)"] by auto
  have test: "deliver_test c ?w1 = Some (None, ?w1)"
    using ne Q by (simp add: deliver_test_def pop_receiver_none)
  show ?thesis
  proof (rule sending_step [OF pc])
    show "chan_send_step t c d 0 False S_lock (sw s) = Some (?w1, Inl (S_test DFull))"
      using Q op push cap by (simp add: send_defs chan_lock_def)
  next
    have fin: "runs t (at t ?w1 (Sending c d 0 S_register) s) (at t (sw s) (Finished CHAN_ERR_WOULDBLOCK) s)"
      by (rule sending_step, simp, simp add: send_defs, use Q in \<open>simp add: chan_unlock_def chan_update_same runs_refl\<close>)
    show "runs t (at t ?w1 (case Inl (S_test DFull) of Inl pc1 \<Rightarrow> Sending c d 0 pc1 | Inr e \<Rightarrow> Finished e) s)
        (at t (sw s) (Finished CHAN_ERR_WOULDBLOCK) s)"
      by (rule sending_step [of _ t c d 0 "S_test DFull" ?w1 "Inl S_register"])
        (use fin in \<open>simp_all add: send_defs test\<close>)
  qed
qed

section \<open>Receive\<close>

lemma receiving_step:
  assumes "tpcs s t = Receiving c out ns pc" "chan_recv_step t c out ns False pc (sw s) = Some (w, res)"
    and "runs t (at t w (case res of Inl pc1 \<Rightarrow> Receiving c out ns pc1 | Inr e \<Rightarrow> Finished e) s) s'"
  shows "runs t s s'"
  using assms by (intro runs_step [of t s]) (simp_all add: sys_step_def)

lemmas recv_defs = chan_recv_step_def recv_fast_def recv_slow_def recv_admit_def

text \<open>From the start of a round to the pop.\<close>

definition recv_round :: "chan \<Rightarrow> nat \<Rightarrow> recv_pc" where
  "recv_round ch i = (if spsc ch then R_pop i else R_scnt i)"

lemma recv_to_pop:
  assumes "chan_quiet (chans (sw s) c)" and pc: "tpcs s t = Receiving c out ns (recv_round (chans (sw s) c) i)"
    and "runs t (at t (sw s) (Receiving c out ns (R_pop i)) s) s'"
  shows "runs t s s'"
proof (cases "spsc (chans (sw s) c)")
  case True
  then have "at t (sw s) (Receiving c out ns (R_pop i)) s = s" using pc by (simp add: recv_round_def fun_upd_idem)
  with assms(3) show ?thesis by simp
next
  case False
  have cnt: "send_waiter_cnt (chans (sw s) c) = 0" "recv_waiter_cnt (chans (sw s) c) = 0"
    using assms(1) by (simp_all add: chan_quiet_def)
  from False have "tpcs s t = Receiving c out ns (R_scnt i)" using pc by (simp add: recv_round_def)
  then show ?thesis
    by (rule receiving_step, simp add: recv_defs cnt)
      (simp, rule receiving_step, simp, simp add: recv_defs cnt, use assms(3) in simp)
qed

lemma recv_item:
  assumes q: "chan_quiet (chans (sw s) c)" and x: "items_of (chans (sw s) c) = x # xs"
    and pc: "tpcs s t = Receiving c out ns (recv_round (chans (sw s) c) i)"
  shows "\<exists>r. runs t s (at t ((upd_chan c (set_ring r) (sw s))\<lparr>mem := store_elem out x (mem (sw s))\<rparr>)
      (Finished CHAN_OK) s) \<and>
    chan_quiet (set_ring r (chans (sw s) c)) \<and> rcap r = rcap (ring (chans (sw s) c)) \<and> ring_items r = xs"
proof -
  from pop_dispatch_quiet [OF q, of out] obtain r where
    r: "ring_pop_dispatch c out (sw s) = Some (True,
        (upd_chan c (set_ring r) (sw s))\<lparr>mem := store_elem out x (mem (sw s))\<rparr>)"
      "chan_quiet (set_ring r (chans (sw s) c))" "rcap r = rcap (ring (chans (sw s) c))" "ring_items r = xs"
    by (auto simp: x recv_mem_def)
  have cnt: "send_waiter_cnt (chans (sw s) c) = 0" using q by (simp add: chan_quiet_def)
  have "runs t (at t (sw s) (Receiving c out ns (R_pop i)) s)
      (at t ((upd_chan c (set_ring r) (sw s))\<lparr>mem := store_elem out x (mem (sw s))\<rparr>) (Finished CHAN_OK) s)"
    by (rule receiving_step, simp, simp add: recv_defs r(1), simp)
      (rule receiving_step, simp, simp add: recv_defs cnt, simp add: runs_refl)
  from recv_to_pop [OF q pc this] r show ?thesis by blast
qed

text \<open>The ring is empty: to the lock when closed or after the last round, or another round.\<close>

lemma recv_spin_once:
  assumes q: "chan_quiet (chans (sw s) c)" and empty: "items_of (chans (sw s) c) = []"
    and pc: "tpcs s t = Receiving c out ns (recv_round (chans (sw s) c) i)"
  shows "\<exists>r. runs t s (at t (upd_chan c (set_ring r) (sw s))
      (Receiving c out ns (if closed (chans (sw s) c) \<or> LIBCHAN_FASTPATH_SPIN \<le> i then R_lock
         else recv_round (chans (sw s) c) (Suc i))) s) \<and>
    chan_quiet (set_ring r (chans (sw s) c)) \<and> rcap r = rcap (ring (chans (sw s) c)) \<and> ring_items r = []"
proof -
  from pop_dispatch_quiet [OF q, of out] obtain r where
    r: "ring_pop_dispatch c out (sw s) = Some (False, upd_chan c (set_ring r) (sw s))"
      "chan_quiet (set_ring r (chans (sw s) c))" "rcap r = rcap (ring (chans (sw s) c))" "ring_items r = []"
    by (auto simp: empty recv_mem_def)
  define pc1 where "pc1 = (if closed (chans (sw s) c) \<or> LIBCHAN_FASTPATH_SPIN \<le> i then R_lock
      else recv_round (chans (sw s) c) (Suc i))"
  let ?w = "upd_chan c (set_ring r) (sw s)"
  have st: "chan_recv_step t c out ns False (R_closed i) ?w = Some (?w, Inl pc1)"
    by (simp add: recv_defs pc1_def recv_round_def)
  have cl: "runs t (at t ?w (Receiving c out ns (R_closed i)) s) (at t ?w (Receiving c out ns pc1) s)"
    by (rule receiving_step [of _ t c out ns "R_closed i" ?w "Inl pc1"])
      (use st in \<open>simp_all add: runs_refl\<close>)
  have "runs t (at t (sw s) (Receiving c out ns (R_pop i)) s) (at t ?w (Receiving c out ns pc1) s)"
    by (rule receiving_step, simp, simp add: recv_defs r(1)) (use cl in simp)
  from recv_to_pop [OF q pc this] r show ?thesis unfolding pc1_def by blast
qed

lemma recv_spin:
  assumes "chan_quiet (chans (sw s) c)" "items_of (chans (sw s) c) = []"
    and "tpcs s t = Receiving c out ns (recv_round (chans (sw s) c) i)" "i \<le> LIBCHAN_FASTPATH_SPIN"
  shows "\<exists>r. runs t s (at t (upd_chan c (set_ring r) (sw s)) (Receiving c out ns R_lock) s) \<and>
    chan_quiet (set_ring r (chans (sw s) c)) \<and> rcap r = rcap (ring (chans (sw s) c)) \<and> ring_items r = []"
  using assms
proof (induction "LIBCHAN_FASTPATH_SPIN - i" arbitrary: i s)
  case 0
  then have le: "closed (chans (sw s) c) \<or> LIBCHAN_FASTPATH_SPIN \<le> i" by simp
  from recv_spin_once [OF 0(2-4)] show ?case unfolding if_P [OF le] .
next
  case (Suc n)
  show ?case
  proof (cases "closed (chans (sw s) c) \<or> LIBCHAN_FASTPATH_SPIN \<le> i")
    case True
    from recv_spin_once [OF Suc.prems(1-3)] show ?thesis unfolding if_P [OF True] .
  next
    case False
    from recv_spin_once [OF Suc.prems(1-3)] obtain r where
      r: "runs t s (at t (upd_chan c (set_ring r) (sw s))
          (Receiving c out ns (recv_round (chans (sw s) c) (Suc i))) s)"
        "chan_quiet (set_ring r (chans (sw s) c))" "rcap r = rcap (ring (chans (sw s) c))" "ring_items r = []"
      unfolding if_not_P [OF False] by blast
    let ?s1 = "at t (upd_chan c (set_ring r) (sw s)) (Receiving c out ns (recv_round (chans (sw s) c) (Suc i))) s"
    have "\<exists>r'. runs t ?s1 (at t (upd_chan c (set_ring r') (sw ?s1)) (Receiving c out ns R_lock) ?s1) \<and>
      chan_quiet (set_ring r' (chans (sw ?s1) c)) \<and> rcap r' = rcap (ring (chans (sw ?s1) c)) \<and> ring_items r' = []"
      using Suc.hyps(2) r False by (intro Suc.hyps(1)) (auto simp: recv_round_def)
    then obtain r' where "runs t ?s1 (at t (upd_chan c (set_ring r') (sw s)) (Receiving c out ns R_lock) s)"
      "chan_quiet (set_ring r' (chans (sw s) c))" "rcap r' = rcap r" "ring_items r' = []"
      by auto
    with r runs_trans [OF r(1)] show ?thesis by metis
  qed
qed

lemma recv_empty_locked:
  assumes q: "chan_quiet (chans (sw s) c)" and empty: "items_of (chans (sw s) c) = []"
    and pc: "tpcs s t = Receiving c out ns R_lock" and ns: "closed (chans (sw s) c) \<or> ns = 0"
  shows "runs t s (at t (sw s)
    (Finished (if closed (chans (sw s) c) then CHAN_ERR_CLOSED else CHAN_ERR_WOULDBLOCK)) s)"
proof -
  note Q = q [unfolded chan_quiet_def]
  have cap: "capacity (chans (sw s) c) \<noteq> 0" using Q by (simp add: word_neq_0_conv)
  let ?w1 = "upd_chan c (\<lambda>ch. ch\<lparr>lock := Some t\<rparr>) (sw s)"
  let ?e = "if closed (chans (sw s) c) then CHAN_ERR_CLOSED else CHAN_ERR_WOULDBLOCK"
  have "ring_lf_pop (ring (chans (sw s) c)) = Some (None, ring (chans (sw s) c))"
    using Q empty by (intro ring_lf_pop_empty) auto
  then have pop: "ring_pop c out ?w1 = Some (False, ?w1)"
    by (simp add: ring_pop_def chan_update_same)
  have none: "pop_sender c ?w1 = Some (None, ?w1)" using Q by (simp add: pop_sender_none)
  have un: "chan_unlock c ?w1 = sw s" using Q by (simp add: chan_unlock_def chan_update_same)
  have e: "chan_recv_step t c out ns False R_empty ?w1 = Some (sw s, Inr ?e)"
    using none ns un by (auto simp: recv_defs)
  have fin: "runs t (at t ?w1 (Receiving c out ns R_empty) s) (at t (sw s) (Finished ?e) s)"
    by (rule receiving_step [of _ t c out ns R_empty "sw s" "Inr ?e"])
      (use e in \<open>simp_all add: runs_refl\<close>)
  show ?thesis
    by (rule receiving_step [OF pc, of ?w1 "Inl R_empty"])
      (use Q cap pop fin in \<open>simp_all add: recv_defs chan_lock_def\<close>)
qed

section \<open>The contract\<close>

lemma runs_finish:
  assumes "runs t s s'" "sys_step t False s' = None"
  shows "finish t s = Some s'"
proof -
  from assms(1) obtain n where "sys_exec (replicate n (Step t)) s = Some s'" by (auto simp: runs_def)
  then show ?thesis
  proof (induction n arbitrary: s)
    case 0
    then show ?case using assms(2) by (subst finish.simps) simp
  next
    case (Suc n)
    then show ?case by (subst finish.simps) (auto simp: do_event_def split: option.splits)
  qed
qed

lemma finished_rests: "sys_step t False (at t w (Finished e) s) = None"
  by (simp add: sys_step_def)

definition send_result :: "chan \<Rightarrow> chan_err" where
  "send_result ch =
     (if closed ch then CHAN_ERR_CLOSED
      else if length (items_of ch) < rcap (ring ch) then CHAN_OK else CHAN_ERR_WOULDBLOCK)"

definition recv_result :: "chan \<Rightarrow> chan_err" where
  "recv_result ch =
     (if items_of ch \<noteq> [] then CHAN_OK else if closed ch then CHAN_ERR_CLOSED else CHAN_ERR_WOULDBLOCK)"

lemma try_send_runs:
  assumes q: "chan_quiet (chans (sw s) c)" and d: "length (mem (sw s) d) = unat (elem_size (chans (sw s) c))"
  shows "\<exists>r. runs t (chan_try_send t (Some c) (Some d) s)
      (at t (upd_chan c (set_ring r) (sw s)) (Finished (send_result (chans (sw s) c))) s) \<and>
    chan_quiet (set_ring r (chans (sw s) c)) \<and> rcap r = rcap (ring (chans (sw s) c)) \<and>
    ring_items r = items_of (chans (sw s) c) @
      (if send_result (chans (sw s) c) = CHAN_OK then [mem (sw s) d] else [])"
proof -
  let ?s0 = "at t (sw s) (Sending c d 0 (S_closed 0)) s"
  have s0: "chan_try_send t (Some c) (Some d) s = ?s0"
    using q by (auto simp: chan_try_send_def chan_send_timeout_def send_entry_def chan_quiet_def)
  have es: "length (mem (sw s) d) = resz (ring (chans (sw s) c))" using q d by (simp add: chan_quiet_def)
  have same: "upd_chan c (set_ring (ring (chans (sw s) c))) (sw s) = sw s" by (simp add: chan_update_same)
  show ?thesis
  proof (cases "closed (chans (sw s) c)")
    case True
    have "runs t ?s0 (at t (sw ?s0) (Finished CHAN_ERR_CLOSED) ?s0)"
      using q True by (intro send_closed [of _ c t d 0 0]) (simp_all add: chan_quiet_def)
    then show ?thesis unfolding s0 using q True
      by (intro exI [of _ "ring (chans (sw s) c)"]) (simp add: same send_result_def chan_update_same)
  next
    case op: False
    show ?thesis
    proof (cases "length (items_of (chans (sw s) c)) < rcap (ring (chans (sw s) c))")
      case True
      from send_room [of ?s0 c d t 0 0] q op es True show ?thesis
        unfolding s0 by (simp add: send_result_def)
    next
      case False
      from send_spin [of ?s0 c d t 0 0] q op es False obtain r where
        r: "runs t ?s0 (at t (upd_chan c (set_ring r) (sw s)) (Sending c d 0 S_lock) s)"
          "chan_quiet (set_ring r (chans (sw s) c))" "rcap r = rcap (ring (chans (sw s) c))"
          "ring_items r = items_of (chans (sw s) c)"
        by auto
      let ?s1 = "at t (upd_chan c (set_ring r) (sw s)) (Sending c d 0 S_lock) s"
      have "resz r = resz (ring (chans (sw s) c))" using r(2) q by (simp add: chan_quiet_def)
      then have "runs t ?s1 (at t (sw ?s1) (Finished CHAN_ERR_WOULDBLOCK) ?s1)"
        using r op es False by (intro send_full_locked [of _ c d t]) simp_all
      with runs_trans [OF r(1)] r(2-4) op False show ?thesis
        unfolding s0 by (intro exI [of _ r]) (simp add: send_result_def)
    qed
  qed
qed

lemma try_recv_runs:
  assumes q: "chan_quiet (chans (sw s) c)"
  shows "\<exists>r. runs t (chan_try_recv t (Some c) (Some out) s)
      (at t ((upd_chan c (set_ring r) (sw s))\<lparr>mem := recv_mem out (items_of (chans (sw s) c)) (mem (sw s))\<rparr>)
        (Finished (recv_result (chans (sw s) c))) s) \<and>
    chan_quiet (set_ring r (chans (sw s) c)) \<and> rcap r = rcap (ring (chans (sw s) c)) \<and>
    ring_items r = tl (items_of (chans (sw s) c))"
proof -
  let ?s0 = "at t (sw s) (Receiving c out 0 (recv_round (chans (sw s) c) 0)) s"
  have s0: "chan_try_recv t (Some c) (Some out) s = ?s0"
    using q by (auto simp: chan_try_recv_def chan_recv_timeout_def recv_entry_def chan_quiet_def recv_round_def)
  show ?thesis
  proof (cases "items_of (chans (sw s) c)")
    case (Cons x xs)
    from recv_item [of ?s0 c x xs t out 0 0] q Cons show ?thesis
      unfolding s0 by (simp add: recv_result_def recv_mem_def)
  next
    case Nil
    from recv_spin [of ?s0 c t out 0 0] q Nil obtain r where
      r: "runs t ?s0 (at t (upd_chan c (set_ring r) (sw s)) (Receiving c out 0 R_lock) s)"
        "chan_quiet (set_ring r (chans (sw s) c))" "rcap r = rcap (ring (chans (sw s) c))" "ring_items r = []"
      by auto
    let ?s1 = "at t (upd_chan c (set_ring r) (sw s)) (Receiving c out 0 R_lock) s"
    have "runs t ?s1 (at t (sw ?s1) (Finished (if closed (chans (sw ?s1) c) then CHAN_ERR_CLOSED
        else CHAN_ERR_WOULDBLOCK)) ?s1)"
      using r by (intro recv_empty_locked [of _ c t out 0]) simp_all
    with runs_trans [OF r(1)] r(2-4) Nil show ?thesis
      unfolding s0 by (intro exI [of _ r]) (simp add: recv_result_def recv_mem_def)
  qed
qed

lemma chan_create_quiet:
  assumes "malloc_spec malloc" "init_fits cap es" "chan_create_impl True malloc es cap sp = Some ch"
  shows "chan_quiet ch" "items_of ch = []" "closed ch = False" "elem_size ch = es" "capacity ch = cap"
    "unat cap \<le> rcap (ring ch)" "rcap (ring ch) < 2 * unat cap"
proof -
  have pos: "0 < cap" "es \<noteq> 0" using assms(2) by (auto simp: init_fits_def word_gt_0)
  then obtain r where r: "ring_lf_init malloc cap es = Some r" and
    ch: "ch = \<lparr>elem_size = es, capacity = cap, spsc = (sp \<and> 0 < cap), lock = None, ring = r,
      send_waiter_cnt = 0, recv_waiter_cnt = 0, send_waiters = empty_waitq,
      recv_waiters = empty_waitq, closed = False, refcount = 1, freed = False\<rparr>"
    using assms(3) by (auto simp: chan_create_impl_def split: option.splits)
  note R = ring_lf_init_ok [OF assms(1,2) r]
  show "chan_quiet ch" "items_of ch = []" "closed ch = False" "elem_size ch = es" "capacity ch = cap"
    "unat cap \<le> rcap (ring ch)" "rcap (ring ch) < 2 * unat cap"
    using R pos ring_at_ok by (auto simp: ch chan_quiet_def)
qed

text \<open>A channel of three one-byte elements, and a system in which buffer \<open>b\<close> holds the byte \<open>b\<close>.\<close>

definition demo_chan :: "bool \<Rightarrow> chan" where
  "demo_chan sp = \<lparr>elem_size = 1, capacity = 3, spsc = sp, lock = None, ring = fresh_ring,
     send_waiter_cnt = 0, recv_waiter_cnt = 0, send_waiters = empty_waitq,
     recv_waiters = empty_waitq, closed = False, refcount = 1, freed = False\<rparr>"

definition no_waiter :: chan_waiter where
  "no_waiter = \<lparr>wnext = None, wdata = 0, wop = CHAN_OP_SEND, wresult = CHAN_OK, case_idx = 0,
     wake_park = SharedPark 0, select_state = None\<rparr>"

definition demo_sys :: "chan \<Rightarrow> sys" where
  "demo_sys ch =
     \<lparr>sw = \<lparr>chans = (\<lambda>_. ch), heap = (\<lambda>_. no_waiter), parks = (\<lambda>_. False), sel_state = (\<lambda>_. False),
            mem = (\<lambda>b. [of_nat b])\<rparr>,
      tpcs = (\<lambda>_. Idle), rr = (\<lambda>_. 0), rng = (\<lambda>_. 0), pself = of_nat\<rparr>"

lemma demo_chan_create: "chan_create_impl True demo_malloc 1 3 sp = Some (demo_chan sp)"
  by (simp add: chan_create_impl_def fresh_ring_init(3) demo_chan_def)

lemmas demo_chan_quiet = chan_create_quiet [OF fresh_ring_init(1,2) demo_chan_create]



text \<open>
  C18. Non-blocking receive on a channel without waiters: the call returns after finitely
  many steps; it takes the oldest element whenever there is one, also from a closed channel,
  and otherwise reports \<open>CHAN_ERR_CLOSED\<close> or \<open>CHAN_ERR_WOULDBLOCK\<close> and leaves the output
  buffer alone.
\<close>

theorem chan_try_recv_spec:
  assumes "chan_quiet (chans (sw s) c)"
  shows "\<exists>r. finish t (chan_try_recv t (Some c) (Some out) s) =
      Some (at t ((upd_chan c (set_ring r) (sw s))
          \<lparr>mem := recv_mem out (items_of (chans (sw s) c)) (mem (sw s))\<rparr>)
        (Finished (recv_result (chans (sw s) c))) s) \<and>
    chan_quiet (set_ring r (chans (sw s) c)) \<and> ring_items r = tl (items_of (chans (sw s) c))"
  using try_recv_runs [OF assms, of t] runs_finish finished_rests by blast

theorem chan_try_recv_spec_witness:
  "\<exists>r. finish 0 (chan_try_recv 0 (Some 0) (Some 7) (demo_sys (demo_chan True))) =
     Some (at 0 (upd_chan 0 (set_ring r) (sw (demo_sys (demo_chan True)))) (Finished CHAN_ERR_WOULDBLOCK)
       (demo_sys (demo_chan True)))"
proof -
  have q: "chan_quiet (chans (sw (demo_sys (demo_chan True))) 0)"
    using demo_chan_quiet(1) by (simp add: demo_sys_def)
  have "recv_result (demo_chan True) = CHAN_ERR_WOULDBLOCK"
    using demo_chan_quiet(2,3) by (simp add: recv_result_def)
  then show ?thesis
    using chan_try_recv_spec [OF q, of 0 7] demo_chan_quiet(2) by (auto simp: demo_sys_def recv_mem_def)
qed

section \<open>A channel as a bounded queue\<close>

text \<open>Send the value \<open>x\<close> from buffer \<open>d\<close>, receive into buffer \<open>d\<close>.\<close>

definition chan_put :: "tid \<Rightarrow> baddr \<Rightarrow> caddr \<Rightarrow> sys \<Rightarrow> byte list \<Rightarrow> (bool \<times> sys) option" where
  "chan_put t d c s x =
     (case finish t (chan_try_send t (Some c) (Some d) (s\<lparr>sw := (sw s)\<lparr>mem := (mem (sw s))(d := x)\<rparr>\<rparr>)) of
        None \<Rightarrow> None | Some s1 \<Rightarrow> Some (tpcs s1 t = Finished CHAN_OK, s1))"

definition chan_get :: "tid \<Rightarrow> baddr \<Rightarrow> caddr \<Rightarrow> sys \<Rightarrow> (byte list option \<times> sys) option" where
  "chan_get t d c s =
     (case finish t (chan_try_recv t (Some c) (Some d) s) of
        None \<Rightarrow> None
      | Some s1 \<Rightarrow>
          Some (if tpcs s1 t = Finished CHAN_OK
                then Some (memread (mem (sw s1) d) 0 (unat (elem_size (chans (sw s1) c)))) else None, s1))"

definition chan_usable :: "baddr \<Rightarrow> caddr \<Rightarrow> sys \<Rightarrow> bool" where
  "chan_usable d c s \<longleftrightarrow> chan_quiet (chans (sw s) c) \<and> \<not> closed (chans (sw s) c) \<and>
     unat (elem_size (chans (sw s) c)) \<le> length (mem (sw s) d)"

lemma ring_slot_length: "ring_shape r \<Longrightarrow> length (ring_slot r i) = resz r"
  using slot_in_bounds [of r i] by (simp add: ring_slot_def)

lemma ring_items_length: "ring_ok r \<Longrightarrow> x \<in> set (ring_items r) \<Longrightarrow> length x = resz r"
  by (auto simp: ring_items_def ring_ok_def ring_slot_length)

lemma store_elem_read:
  "length x = n \<Longrightarrow> n \<le> length (m d) \<Longrightarrow> memread (store_elem d x m d) 0 n = x"
  using memread_memcpy_same [of 0 x "m d" 0 "length x"] by (simp add: store_elem_def memread_all)

lemma store_elem_length: "length x \<le> length (m d) \<Longrightarrow> length (store_elem d x m d) = length (m d)"
  by (simp add: store_elem_def)

interpretation ch: bounded_fifo "chan_usable d c" "\<lambda>s. items_of (chans (sw s) c)"
  "\<lambda>s. rcap (ring (chans (sw s) c))" "\<lambda>s x. length x = unat (elem_size (chans (sw s) c))"
  "chan_put t d c" "chan_get t d c" for t d c
proof unfold_locales
  fix s :: sys and x :: "byte list"
  assume u: "chan_usable d c s"
  then have q: "chan_quiet (chans (sw s) c)" and op: "\<not> closed (chans (sw s) c)"
    and b: "unat (elem_size (chans (sw s) c)) \<le> length (mem (sw s) d)"
    by (simp_all add: chan_usable_def)
  then have ok: "ring_ok (ring (chans (sw s) c))" and es: "resz (ring (chans (sw s) c)) = unat (elem_size (chans (sw s) c))"
    by (simp_all add: chan_quiet_def)
  show "length (items_of (chans (sw s) c)) \<le> rcap (ring (chans (sw s) c))"
    using ok by (rule ring_items_bounded)
  show "\<exists>r'. chan_get t d c s = Some (case items_of (chans (sw s) c) of [] \<Rightarrow> None | y # _ \<Rightarrow> Some y, r') \<and>
      chan_usable d c r' \<and> rcap (ring (chans (sw r') c)) = rcap (ring (chans (sw s) c)) \<and>
      (\<lambda>x. length x = unat (elem_size (chans (sw r') c))) = (\<lambda>x. length x = unat (elem_size (chans (sw s) c))) \<and>
      items_of (chans (sw r') c) = tl (items_of (chans (sw s) c))"
    using try_recv_runs [OF q, of t d] u op b es ring_items_length [OF ok]
    by (cases "items_of (chans (sw s) c)")
      (auto simp: chan_get_def chan_usable_def recv_result_def recv_mem_def store_elem_read
        store_elem_length dest!: runs_finish [OF _ finished_rests])
  assume x: "length x = unat (elem_size (chans (sw s) c))"
  let ?s1 = "s\<lparr>sw := (sw s)\<lparr>mem := (mem (sw s))(d := x)\<rparr>\<rparr>"
  show "\<exists>r'. chan_put t d c s x = Some (length (items_of (chans (sw s) c)) < rcap (ring (chans (sw s) c)), r') \<and>
      chan_usable d c r' \<and> rcap (ring (chans (sw r') c)) = rcap (ring (chans (sw s) c)) \<and>
      (\<lambda>x. length x = unat (elem_size (chans (sw r') c))) = (\<lambda>x. length x = unat (elem_size (chans (sw s) c))) \<and>
      items_of (chans (sw r') c) = (if length (items_of (chans (sw s) c)) < rcap (ring (chans (sw s) c))
        then items_of (chans (sw s) c) @ [x] else items_of (chans (sw s) c))"
    using try_send_runs [of ?s1 c d t] q op x
    by (auto simp: chan_put_def chan_usable_def send_result_def dest!: runs_finish [OF _ finished_rests])
qed

text \<open>
  C2. A channel created with \<open>chan_create\<close> or \<open>chan_create_spsc\<close> refines the bounded FIFO
  queue: every sequence of non-blocking sends and receives, each run to completion, gives
  exactly the replies of the abstract queue, whose capacity is at least the requested one
  and less than twice it.
\<close>

theorem chan_refines_fifo:
  assumes "malloc_spec malloc" "init_fits cap es" "chan_create_impl True malloc es cap sp = Some ch"
    and "chans (sw s) c = ch" "unat es \<le> length (mem (sw s) d)"
    and "list_all (op_valid (\<lambda>x. length x = unat es)) ops"
  shows "\<exists>k rs s'. unat cap \<le> k \<and> k < 2 * unat cap \<and>
    fifo_run (chan_put t d c) (chan_get t d c) s ops = Some (rs, s') \<and>
    spec_run k [] ops = (rs, items_of (chans (sw s') c))"
proof -
  note C = chan_create_quiet [OF assms(1-3)]
  have "chan_usable d c s" using C assms(4,5) by (simp add: chan_usable_def)
  from ch.run_refines [OF this, of ops t] assms(4,6) C show ?thesis by auto
qed

theorem chan_refines_fifo_witness:
  "\<exists>k rs s'. 3 \<le> k \<and> k < 6 \<and>
     fifo_run (chan_put 0 0 0) (chan_get 0 0 0) (demo_sys (demo_chan True)) [Enq [7], Enq [8], Deq] = Some (rs, s') \<and>
     spec_run k [] [Enq [7], Enq [8], Deq] = (rs, items_of (chans (sw s') 0))"
  using chan_refines_fifo [OF fresh_ring_init(1,2) demo_chan_create,
      where s = "demo_sys (demo_chan True)" and sp = True and t = 0 and d = 0 and c = 0
        and ops = "[Enq [7], Enq [8], Deq]"]
  by (fastforce simp: demo_sys_def)

section \<open>Spinning without change\<close>

text \<open>A whole spin phase of a multi-producer channel whose ring stays full, or stays empty.\<close>

lemma send_spin_stay:
  assumes "tpcs s t = Sending c d ns (S_closed i)" "i \<le> LIBCHAN_FASTPATH_SPIN"
    and "\<not> spsc (chans (sw s) c) \<and> \<not> closed (chans (sw s) c) \<and>
      send_waiter_cnt (chans (sw s) c) = 0 \<and> recv_waiter_cnt (chans (sw s) c) = 0 \<and>
      ring_lf_push (ring (chans (sw s) c)) (mem (sw s) d) = Some (False, ring (chans (sw s) c))"
  shows "runs t s (at t (sw s) (Sending c d ns S_lock) s)"
  using assms
proof (induction "LIBCHAN_FASTPATH_SPIN - i" arbitrary: i s)
  case 0
  then have le: "LIBCHAN_FASTPATH_SPIN \<le> i" by simp
  have push: "ring_push_dispatch c d (sw s) = Some (False, sw s)"
    using 0 by (simp add: ring_push_dispatch_def ring_push_def chan_update_same)
  show ?case
    by (rule sending_step [OF 0(2), of "sw s" "Inl (S_scnt i)"], use 0 in \<open>simp add: send_defs\<close>)
      (simp, rule sending_step, simp, use 0 in \<open>simp add: send_defs\<close>,
       simp, rule sending_step, simp, use 0 in \<open>simp add: send_defs\<close>,
       simp, rule sending_step, simp, use le push in \<open>simp add: send_defs\<close>, simp add: fun_upd_def runs_refl cong: if_cong)
next
  case (Suc n)
  then have lt: "\<not> LIBCHAN_FASTPATH_SPIN \<le> i" by simp
  have push: "ring_push_dispatch c d (sw s) = Some (False, sw s)"
    using Suc.prems by (simp add: ring_push_dispatch_def ring_push_def chan_update_same)
  have "runs t (at t (sw s) (Sending c d ns (S_closed (Suc i))) s)
      (at t (sw s) (Sending c d ns S_lock) s)"
    using Suc.hyps(1) [of "Suc i" "at t (sw s) (Sending c d ns (S_closed (Suc i))) s"] Suc.hyps(2) Suc.prems lt
    by simp
  then show ?case
    by - (rule sending_step [OF Suc.prems(1), of "sw s" "Inl (S_scnt i)"],
        use Suc.prems in \<open>simp add: send_defs\<close>, simp, rule sending_step, simp,
        use Suc.prems in \<open>simp add: send_defs\<close>, simp, rule sending_step, simp,
        use Suc.prems in \<open>simp add: send_defs\<close>, simp, rule sending_step, simp,
        use lt push in \<open>simp add: send_defs\<close>, simp)
qed

lemma recv_spin_stay:
  assumes "tpcs s t = Receiving c out ns (R_scnt i)" "i \<le> LIBCHAN_FASTPATH_SPIN"
    and "\<not> spsc (chans (sw s) c) \<and> \<not> closed (chans (sw s) c) \<and>
      send_waiter_cnt (chans (sw s) c) = 0 \<and> recv_waiter_cnt (chans (sw s) c) = 0 \<and>
      ring_lf_pop (ring (chans (sw s) c)) = Some (None, ring (chans (sw s) c))"
  shows "runs t s (at t (sw s) (Receiving c out ns R_lock) s)"
  using assms
proof (induction "LIBCHAN_FASTPATH_SPIN - i" arbitrary: i s)
  case 0
  then have le: "LIBCHAN_FASTPATH_SPIN \<le> i" by simp
  have pop: "ring_pop_dispatch c out (sw s) = Some (False, sw s)"
    using 0 by (simp add: ring_pop_dispatch_def ring_pop_def chan_update_same)
  show ?case
    by (rule receiving_step [OF 0(2), of "sw s" "Inl (R_rcnt i)"], use 0 in \<open>simp add: recv_defs\<close>)
      (simp, rule receiving_step, simp, use 0 in \<open>simp add: recv_defs\<close>,
       simp, rule receiving_step, simp, use pop in \<open>simp add: recv_defs\<close>,
       simp, rule receiving_step, simp, use le in \<open>simp add: recv_defs\<close>, simp add: fun_upd_def runs_refl cong: if_cong)
next
  case (Suc n)
  then have lt: "\<not> LIBCHAN_FASTPATH_SPIN \<le> i" by simp
  have pop: "ring_pop_dispatch c out (sw s) = Some (False, sw s)"
    using Suc.prems by (simp add: ring_pop_dispatch_def ring_pop_def chan_update_same)
  have "runs t (at t (sw s) (Receiving c out ns (R_scnt (Suc i))) s)
      (at t (sw s) (Receiving c out ns R_lock) s)"
    using Suc.hyps(1) [of "Suc i" "at t (sw s) (Receiving c out ns (R_scnt (Suc i))) s"] Suc.hyps(2) Suc.prems lt
    by simp
  then show ?case
    by - (rule receiving_step [OF Suc.prems(1), of "sw s" "Inl (R_rcnt i)"],
        use Suc.prems in \<open>simp add: recv_defs\<close>, simp, rule receiving_step, simp,
        use Suc.prems in \<open>simp add: recv_defs\<close>, simp, rule receiving_step, simp,
        use pop in \<open>simp add: recv_defs\<close>, simp, rule receiving_step, simp,
        use lt Suc.prems in \<open>simp add: recv_defs\<close>, simp)
qed

end
