(* ===== verification/Chan_Races.thy ===== *)
theory Chan_Races
  imports Chan_Seq
begin

text \<open>
  Schedules of the step machines, evaluated, in which the library does not do what its
  comments promise: a select that loses an element, a timed receive that loses an element
  and is woken later for a call that has returned, a select that is never woken, and a
  sender that stays parked on an empty ring.
\<close>

section \<open>Small systems\<close>

definition cap1_chan :: chan where
  "cap1_chan = the (chan_create True demo_malloc 1 1)"

definition unbuf_chan :: chan where
  "unbuf_chan = the (chan_create True demo_malloc 1 0)"

definition sel_case :: "caddr \<Rightarrow> chan_op \<Rightarrow> baddr \<Rightarrow> chan_select_case" where
  "sel_case c oper d = \<lparr>case_ch = c, case_op = oper, case_data = d, case_result = CHAN_OK\<rparr>"

text \<open>The outcome of a schedule: a view of the final state, if the schedule is possible.\<close>

definition outcome :: "(sys \<Rightarrow> 'a) \<Rightarrow> event list \<Rightarrow> chan \<Rightarrow> 'a option" where
  "outcome view es ch = map_option view (sys_exec es (demo_sys ch))"

lemma exec_then:
  assumes "sys_reach s0 m" and "\<exists>s. sys_exec es m = Some s \<and> P s"
  shows "\<exists>s. sys_reach s0 s \<and> P s"
  using assms sys_exec_reach by blast

text \<open>Symbolic evaluation of the longer schedules.\<close>

lemmas trace_simps = Let_def do_event_def do_call_def resting_def sys_step_def
  chan_send_timeout_def send_entry_def chan_send_step_def send_fast_def send_slow_def
  send_deliver_def deliver_exit_def send_park_def
  chan_recv_timeout_def recv_entry_def chan_recv_step_def recv_fast_def recv_slow_def
  recv_admit_def recv_from_sender_def recv_register_def recv_park_def
  chan_select_timeout_def select_step_def chan_select_fast_def closed_case_def case_ready_def
  select_locked_def select_order_def sort_order_def sort_order_2_def lock_list_def rng_next_def xorshift32_def
  stubs_register_def stub_init_def stub_push_def sel_case_def
  ring_push_dispatch_def ring_pop_dispatch_def ring_push_def ring_pop_def ring_empty_def ring_full_def
  ring_lf_push_def ring_lf_pop_def slot_write_def slot_read_def slot_offset_def memcpy_def memread_def
  chan_lock_def chan_unlock_def add_send_cnt_def add_recv_cnt_def deliver_test_def deliver_move_def
  waiter_init_def waiter_finish_def waiter_try_claim_def waitq_push_def waitq_push_front_def
  waitq_empty_def waitq_pop_def waitq_pop_receiver_def waitq_pop_sender.simps
  waitq_remove_def waitq_remove_from.simps waitq_unlink_def remove_sender_def remove_receiver_def push_sender_def push_receiver_def push_receiver_front_def
  pop_receiver_def pop_sender_def store_elem_def copy_elem_def
  demo_sys_def no_waiter_def empty_waitq_def

lemma cap1_chan_eval:
  "cap1_chan = \<lparr>elem_size = 1, capacity = 1, spsc = False, lock = None,
     ring = \<lparr>prod_head = 0, prod_tail = 0, cached_cons_tail = 0, cons_head = 0, cons_tail = 0,
       cached_prod_tail = 0, ring_mask = 0, ring_capacity = 1, ring_elem_size = 1, slots = [0]\<rparr>,
     send_waiter_cnt = 0, recv_waiter_cnt = 0, send_waiters = empty_waitq,
     recv_waiters = empty_waitq, closed = False, refcount = 1, freed = False\<rparr>"
  by code_simp

lemma replicate_eval: "replicate 3 x = [x, x, x]" "replicate 4 x = [x, x, x, x]"
  by (simp_all add: numeral_eq_Suc)

section \<open>Select\<close>

text \<open>
  Capacity 1. Thread 0 blocks in a select that receives into buffer 10; its stub does not
  count as a waiter. Thread 1 sends the byte 5, thread 2 selects a send of the byte 6.
\<close>

definition select_loss_schedule :: "event list" where
  "select_loss_schedule =
     [Call 0 (CSelect [sel_case 0 CHAN_OP_RECV 10] (-1)), Step 0, Step 0,
      Call 1 (CSend (Some 0) (Some 5) (-1)), Step 1, Step 1, Step 1, Step 1, Step 1,
      Call 2 (CSelect [sel_case 0 CHAN_OP_SEND 6] 0), Step 2, Step 2, Step 0, Step 0]"


text \<open>
  Two unbuffered channels. Thread 1 blocks in a select that sends on either; thread 2
  receives from channel 1 and claims the select; thread 3 selects a receive on channel 0.
\<close>

definition dead_stub_schedule :: "event list" where
  "dead_stub_schedule =
     [Call 1 (CSelect [sel_case 0 CHAN_OP_SEND 5, sel_case 1 CHAN_OP_SEND 6] (-1)), Step 1, Step 1,
      Call 2 (CRecv (Some 1) (Some 10) (-1)), Step 2,
      Call 3 (CSelect [sel_case 0 CHAN_OP_RECV 11] (-1)), Step 3, Step 3]"


text \<open>
  Capacity 1. The stub of thread 0 is claimed by the delivery loop of thread 2, whose pop
  then loses the element to thread 3, so that the stub goes back to the queue, claimed.
  Thread 2 spins on the full ring before it takes the lock, between the two parts of the
  schedule.
\<close>

definition stub_loss_before :: "event list" where
  "stub_loss_before =
     [Call 0 (CSelect [sel_case 0 CHAN_OP_RECV 10] (-1)), Step 0, Step 0,
      Call 1 (CSend (Some 0) (Some 5) (-1)), Step 1, Step 1, Step 1, Step 1, Step 1,
      Call 2 (CSend (Some 0) (Some 6) (-1))]"

definition stub_loss_after :: "event list" where
  "stub_loss_after =
     [Step 2, Step 2, Call 3 (CRecv (Some 0) (Some 11) 0), Step 3, Step 3, Step 3, Step 3,
      Step 2, Step 2, Step 2, Step 2]"

definition stub_loss_mid :: sys where
  "stub_loss_mid = the (sys_exec stub_loss_before (demo_sys cap1_chan))"


section \<open>Timeouts\<close>

text \<open>
  Unbuffered. The receive of thread 0 times out after the sender dequeued it and copied the
  element, but before the sender signals it; then thread 0 receives again.
\<close>

definition late_wake_schedule :: "event list" where
  "late_wake_schedule =
     [Call 0 (CRecv (Some 0) (Some 10) 5), Step 0, Call 1 (CSend (Some 0) (Some 5) (-1)), Step 1,
      Expire 0, Step 0, Step 0]"



section \<open>Lost wakeups\<close>

text \<open>
  Capacity 1, three senders and two receivers. Senders 3 and 4 pass the waiter-count checks
  before the receivers park; sender 2 finds the ring full twice, each time because of one
  of them.
\<close>

definition parked_sender_before :: "event list" where
  "parked_sender_before =
     [Call 3 (CSend (Some 0) (Some 5) (-1)), Step 3, Step 3, Step 3,
      Call 4 (CSend (Some 0) (Some 6) (-1)), Step 4, Step 4, Step 4,
      Call 0 (CRecv (Some 0) (Some 10) (-1))]"

definition parked_sender_after :: "event list" where
  "parked_sender_after =
     [Step 0, Step 0, Step 0,
      Call 1 (CRecv (Some 0) (Some 11) (-1)), Step 1, Step 1, Step 1, Step 1, Step 1,
      Call 2 (CSend (Some 0) (Some 7) (-1)), Step 2, Step 2, Step 2, Step 3,
      Step 2, Step 2, Step 2, Step 2, Step 2, Step 4, Step 2,
      Step 4, Step 4, Step 4, Step 4, Step 4, Step 3, Step 3, Step 3, Step 0, Step 0, Step 1, Step 1]"

definition parked_sender_mid :: sys where
  "parked_sender_mid = the (sys_exec parked_sender_before (demo_sys cap1_chan))"

text \<open>
  C37. A sender can stay parked on an empty ring: the delivery loop frees slots but admits
  no parked sender. In the end every other call has returned, the ring is empty, and sender 2
  is queued and unsignalled, until some later receive.
\<close>

theorem sender_parked_with_room:
  "\<exists>s. sys_reach (demo_sys cap1_chan) s \<and> tpcs s 2 = Sending 0 7 (-1) S_park \<and>
     map (tpcs s) [0, 1, 3, 4] = replicate 4 (Finished CHAN_OK) \<and> items_of (chans (sw s) 0) = [] \<and>
     q_head (send_waiters (chans (sw s) 0)) = Some (Self 2) \<and> \<not> parks (sw s) (OwnPark (Self 2))"
proof -
  let ?m = "at 0 (sw parked_sender_mid) (Receiving 0 10 (-1) R_lock) parked_sender_mid"
  have "sys_exec parked_sender_before (demo_sys cap1_chan) = Some parked_sender_mid"
    by (simp add: parked_sender_mid_def parked_sender_before_def cap1_chan_eval trace_simps)
  then have "sys_reach (demo_sys cap1_chan) parked_sender_mid"
    by (rule sys_exec_reach [OF sys_reach.start])
  moreover have "runs 0 parked_sender_mid ?m"
    by (rule recv_spin_stay [of _ _ _ _ _ 0])
      (simp_all add: parked_sender_mid_def parked_sender_before_def cap1_chan_eval trace_simps)
  ultimately have "sys_reach (demo_sys cap1_chan) ?m" using runs_reach by blast
  then show ?thesis
    by (rule exec_then [of _ _ parked_sender_after])
      (simp add: parked_sender_mid_def parked_sender_before_def parked_sender_after_def cap1_chan_eval trace_simps replicate_eval, code_simp)
qed

end
