(* ===== verification/Chan_Lock.thy ===== *)
theory Chan_Lock
  imports Chan_Races
begin

text \<open>
  The lock discipline of the library, for all operations, timeouts and selects together and
  under every interleaving: a channel's mutex is held by a thread exactly while that thread is
  inside one of the critical sections of the code, so no critical section is entered twice and
  no return path leaves a mutex locked.
\<close>

section \<open>Critical sections\<close>

text \<open>The program points at which the mutex of the channel is held.\<close>

fun send_locked :: "send_pc \<Rightarrow> bool" where
  "send_locked (S_test k) = True"
| "send_locked (S_move k r) = True"
| "send_locked S_register = True"
| "send_locked S_recheck = True"
| "send_locked _ = False"

fun recv_locked :: "recv_pc \<Rightarrow> bool" where
  "recv_locked R_test = True"
| "recv_locked (R_move s) = True"
| "recv_locked R_help = True"
| "recv_locked R_empty = True"
| "recv_locked R_recheck = True"
| "recv_locked _ = False"

fun in_section :: "tpc \<Rightarrow> caddr \<Rightarrow> bool" where
  "in_section (Sending c d ns pc) x \<longleftrightarrow> x = c \<and> send_locked pc"
| "in_section (Receiving c d ns pc) x \<longleftrightarrow> x = c \<and> recv_locked pc"
| "in_section (Closing c pc) x \<longleftrightarrow> x = c \<and> pc = C_drain"
| "in_section (SendBurst c n pc) x \<longleftrightarrow> x = c \<and> send_locked pc"
| "in_section (RecvBurst c n pc) x \<longleftrightarrow> x = c \<and> recv_locked pc"
| "in_section _ x \<longleftrightarrow> False"

definition lock_inv :: "sys \<Rightarrow> bool" where
  "lock_inv s \<longleftrightarrow> (\<forall>c t. lock (chans (sw s) c) = Some t \<longleftrightarrow> in_section (tpcs s t) c)"

section \<open>What leaves the mutexes alone\<close>

definition locks :: "world \<Rightarrow> caddr \<Rightarrow> tid option" where
  "locks w c = lock (chans w c)"

named_theorems lock_simps

lemma locks_basic [lock_simps]:
  "locks (w\<lparr>heap := h\<rparr>) = locks w" "locks (w\<lparr>mem := m\<rparr>) = locks w" "locks (w\<lparr>sel_state := ss\<rparr>) = locks w"
  "locks (w\<lparr>parks := ps\<rparr>) = locks w" "locks (waiter_init a d oper w) = locks w" "locks (waiter_finish a e w) = locks w"
  "locks (add_send_cnt c i w) = locks w" "locks (add_recv_cnt c i w) = locks w"
  "locks (chan_park_wake p w) = locks w" "locks (set_result a e w) = locks w"
  "locks (push_sender c a w) = locks w" "locks (push_receiver c a w) = locks w"
  "locks (push_sender_front c a w) = locks w" "locks (push_receiver_front c a w) = locks w"
  "locks (chan_unlock c w) = (locks w)(c := None)"
  by (auto simp: fun_eq_iff locks_def waiter_init_def waiter_finish_def add_send_cnt_def add_recv_cnt_def
      chan_park_wake_def set_result_def push_sender_def push_receiver_def push_sender_front_def
      push_receiver_front_def chan_unlock_def split: prod.splits)

lemma locks_option:
  "ring_push c d w = Some (ok, w') \<Longrightarrow> locks w' = locks w"
  "ring_pop c d w = Some (ok, w') \<Longrightarrow> locks w' = locks w"
  "ring_push_dispatch c d w = Some (ok, w') \<Longrightarrow> locks w' = locks w"
  "ring_pop_dispatch c d w = Some (ok, w') \<Longrightarrow> locks w' = locks w"
  "pop_sender c w = Some (a, w') \<Longrightarrow> locks w' = locks w"
  "pop_receiver c w = Some (a, w') \<Longrightarrow> locks w' = locks w"
  "remove_sender c x w = Some (ok, w') \<Longrightarrow> locks w' = locks w"
  "remove_receiver c x w = Some (ok, w') \<Longrightarrow> locks w' = locks w"
  by (auto simp: fun_eq_iff locks_def ring_push_def ring_pop_def ring_push_dispatch_def ring_pop_dispatch_def
      pop_sender_def pop_receiver_def remove_sender_def remove_receiver_def Let_def
      split: if_splits option.splits prod.splits)

lemma locks_move:
  "deliver_test c w = Some (a, w') \<Longrightarrow> locks w' = locks w"
  "deliver_move c r w = Some (ok, w') \<Longrightarrow> locks w' = locks w"
  "admit_test c w = Some (a, w') \<Longrightarrow> locks w' = locks w"
  "admit_move c r w = Some (ok, w') \<Longrightarrow> locks w' = locks w"
  by (auto simp: deliver_test_def deliver_move_def admit_test_def admit_move_def lock_simps
      dest!: locks_option split: if_splits option.splits)

lemma waitq_close_all_chans:
  assumes "waitq_close_all q w = Some r"
  shows "chans (snd r) = chans w"
  by (rule waitq_close_all.raw_induct [where P = "\<lambda>_ w r. chans (snd r) = chans w", OF _ assms])
    (fastforce split: prod.splits option.splits if_splits)

lemma locks_close_all: "waitq_close_all q w = Some (q', w') \<Longrightarrow> locks w' = locks w"
  using waitq_close_all_chans [of q w "(q', w')"] by (simp add: locks_def fun_eq_iff)

lemma locks_lock: "chan_lock t c w = Some w' \<Longrightarrow> locks w c = None \<and> locks w' = (locks w)(c := Some t)"
  by (auto simp: chan_lock_def locks_def fun_eq_iff split: if_splits)

section \<open>What a step does to the mutexes\<close>

text \<open>
  A step of thread \<open>t\<close> in an operation on channel \<open>c\<close>, from a program point inside
  (\<open>b\<close>) or outside a critical section to one inside (\<open>b'\<close>) or outside: it takes the mutex
  only when it is free, gives it back when it leaves, and touches no other mutex.
\<close>

definition lock_move :: "tid \<Rightarrow> caddr \<Rightarrow> bool \<Rightarrow> bool \<Rightarrow> world \<Rightarrow> world \<Rightarrow> bool" where
  "lock_move t c b b' w w' \<longleftrightarrow>
     (if b' then locks w' = (locks w)(c := Some t) \<and> (b \<or> locks w c = None)
      else locks w' = (if b then (locks w)(c := None) else locks w))"

definition out_locked :: "('pc \<Rightarrow> bool) \<Rightarrow> 'pc + 'r \<Rightarrow> bool" where
  "out_locked L out = (case out of Inl pc \<Rightarrow> L pc | Inr _ \<Rightarrow> False)"

lemma out_locked_simps [simp]: "out_locked L (Inl pc) = L pc" "out_locked L (Inr e) = False"
  by (simp_all add: out_locked_def)

lemma upd_none [simp]: "f c = None \<Longrightarrow> f(c := None) = f" for f :: "caddr \<Rightarrow> tid option"
  by (simp add: fun_upd_idem)

lemma upd_same [simp]: "f c = Some t \<Longrightarrow> f(c := Some t) = f" for f :: "caddr \<Rightarrow> tid option"
  by (simp add: fun_upd_idem)

lemma send_fast_locks:
  "send_fast c d pc w = Some (w', out) \<Longrightarrow> lock_move t c (send_locked pc) (out_locked send_locked out) w w'"
  by (auto simp: send_fast_def lock_move_def split: send_pc.splits if_splits option.splits dest!: locks_option)

lemma send_deliver_locks:
  "send_deliver t c pc w = Some (w', out) \<Longrightarrow> send_locked pc \<longrightarrow> locks w c = Some t \<Longrightarrow>
     lock_move t c (send_locked pc) (out_locked send_locked out) w w'"
  by (auto simp: send_deliver_def deliver_exit_def lock_move_def lock_simps
      split: send_pc.splits deliver_k.splits if_splits option.splits dest!: locks_option locks_move locks_lock)

lemma send_rendezvous_locks:
  "send_rendezvous t c d ns w = Some (w', out) \<Longrightarrow> locks w' = (locks w)(c := None) \<and> \<not> out_locked send_locked out"
  by (auto simp: send_rendezvous_def lock_simps Let_def split: if_splits option.splits dest!: locks_option)

lemma send_slow_locks:
  "send_slow t c d ns pc w = Some (w', out) \<Longrightarrow> send_locked pc \<longrightarrow> locks w c = Some t \<Longrightarrow>
     lock_move t c (send_locked pc) (out_locked send_locked out) w w'"
  by (cases pc) (auto simp: send_slow_def lock_move_def lock_simps Let_def
      split: if_splits option.splits bool.splits dest!: locks_option locks_lock send_rendezvous_locks)

lemma send_park_locks:
  "send_park t c d ns ex pc w = Some (w', out) \<Longrightarrow> \<not> send_locked pc \<Longrightarrow>
     lock_move t c False (out_locked send_locked out) w w'"
  by (cases pc) (auto simp: send_park_def lock_move_def lock_simps Let_def
      split: if_splits option.splits bool.splits dest!: locks_option locks_lock)

lemma chan_send_step_locks:
  "chan_send_step t c d ns ex pc w = Some (w', out) \<Longrightarrow> send_locked pc \<longrightarrow> locks w c = Some t \<Longrightarrow>
     lock_move t c (send_locked pc) (out_locked send_locked out) w w'"
  by (cases pc) (auto simp: chan_send_step_def
      dest: send_fast_locks [where t = t] send_deliver_locks send_slow_locks send_park_locks)

lemma recv_fast_locks:
  "recv_fast c d pc w = Some (w', out) \<Longrightarrow> lock_move t c (recv_locked pc) (out_locked recv_locked out) w w'"
  by (auto simp: recv_fast_def lock_move_def split: recv_pc.splits if_splits option.splits dest!: locks_option)

lemma recv_admit_locks:
  "recv_admit t c pc w = Some (w', out) \<Longrightarrow> recv_locked pc \<longrightarrow> locks w c = Some t \<Longrightarrow>
     lock_move t c (recv_locked pc) (out_locked recv_locked out) w w'"
  by (auto simp: recv_admit_def lock_move_def lock_simps
      split: recv_pc.splits if_splits option.splits dest!: locks_option locks_move locks_lock)

lemma recv_from_sender_locks:
  "recv_from_sender c d a w = Some (w', out) \<Longrightarrow> locks w' = (locks w)(c := None) \<and> \<not> out_locked recv_locked out"
  by (auto simp: recv_from_sender_def lock_simps Let_def)

lemma recv_register_locks [lock_simps]: "locks (recv_register t c d w) = locks w"
  by (simp add: recv_register_def lock_simps)

lemma recv_rendezvous_locks:
  "recv_rendezvous t c d ns w = Some (w', out) \<Longrightarrow> locks w' = (locks w)(c := None) \<and> \<not> out_locked recv_locked out"
  by (auto simp: recv_rendezvous_def lock_simps
      split: if_splits option.splits dest!: locks_option recv_from_sender_locks)

lemma recv_slow_locks:
  "recv_slow t c d ns pc w = Some (w', out) \<Longrightarrow> recv_locked pc \<longrightarrow> locks w c = Some t \<Longrightarrow>
     lock_move t c (recv_locked pc) (out_locked recv_locked out) w w'"
  by (cases pc) (auto simp: recv_slow_def lock_move_def lock_simps Let_def
      split: if_splits option.splits bool.splits
      dest!: locks_option locks_lock recv_rendezvous_locks recv_from_sender_locks)

lemma recv_park_locks:
  "recv_park t c d ns ex pc w = Some (w', out) \<Longrightarrow> \<not> recv_locked pc \<Longrightarrow>
     lock_move t c False (out_locked recv_locked out) w w'"
  by (cases pc) (auto simp: recv_park_def lock_move_def lock_simps Let_def
      split: if_splits option.splits bool.splits dest!: locks_option locks_lock)

lemma chan_recv_step_locks:
  "chan_recv_step t c d ns ex pc w = Some (w', out) \<Longrightarrow> recv_locked pc \<longrightarrow> locks w c = Some t \<Longrightarrow>
     lock_move t c (recv_locked pc) (out_locked recv_locked out) w w'"
  by (cases pc) (auto simp: chan_recv_step_def
      dest: recv_fast_locks [where t = t] recv_admit_locks recv_slow_locks recv_park_locks)

lemma locks_upd [lock_simps]:
  "lock ch = lock (chans w c) \<Longrightarrow> locks (w\<lparr>chans := (chans w)(c := ch)\<rparr>) = locks w"
  "lock ch = lock (chans w c) \<Longrightarrow> locks (w\<lparr>heap := h, chans := (chans w)(c := ch)\<rparr>) = locks w"
  "lock ch = lock (chans w c) \<Longrightarrow> locks (w\<lparr>mem := m, chans := (chans w)(c := ch)\<rparr>) = locks w"
  by (simp_all add: locks_def fun_eq_iff)

lemma chan_close_step_locks:
  "chan_close_step t c pc w = Some (w', out) \<Longrightarrow> pc = C_drain \<longrightarrow> locks w c = Some t \<Longrightarrow>
     lock_move t c (pc = C_drain) (out_locked (\<lambda>pc. pc = C_drain) out) w w'"
  by (cases pc) (auto simp: chan_close_step_def lock_move_def lock_simps Let_def
      split: prod.splits if_splits option.splits
      dest!: locks_option locks_lock locks_close_all)

section \<open>Select\<close>

lemma execute_case_locks:
  "execute_case_locked cs w = Some (e, w') \<Longrightarrow> locks w' = locks w"
  by (auto simp: execute_case_locked_def execute_send_def execute_recv_def give_to_def take_from_def Let_def
      lock_simps split: chan_op.splits if_splits option.splits dest!: locks_option)

lemma select_try_from_locks: "select_try_from cases is w = Some (r, w') \<Longrightarrow> locks w' = locks w"
  by (induction cases "is" w rule: select_try_from.induct)
    (auto simp: Let_def split: if_splits option.splits chan_op.splits dest!: locks_option)

lemma chan_select_fast_locks: "chan_select_fast cases n w = Some (r, cases', n', w') \<Longrightarrow> locks w' = locks w"
  by (auto simp: chan_select_fast_def Let_def split: list.splits option.splits dest!: select_try_from_locks)

lemma stubs_register_locks [lock_simps]: "locks (stubs_register t cases w) = locks w"
proof -
  have "locks (fold (\<lambda>i. stub_push t i (cases ! i)) is v) = locks v" for "is" v
    by (induction "is" arbitrary: v)
      (auto simp: stub_push_def stub_init_def lock_simps Let_def split: chan_op.splits)
  then show ?thesis by (simp add: stubs_register_def locks_def fun_eq_iff)
qed

lemma cleanup_from_locks:
  "cleanup_from t is winner cases w = Some (r, cases', w') \<Longrightarrow> locks w' = locks w"
  by (induction t "is" winner cases w rule: cleanup_from.induct)
    (auto split: if_splits option.splits chan_op.splits dest!: locks_option)

text \<open>Unlocking what was locked restores the mutexes, which were all free.\<close>

lemma lock_all_locks:
  "lock_all t cs w = Some w' \<Longrightarrow>
     (\<forall>c \<in> set cs. locks w c = None) \<and> locks w' = (\<lambda>c. if c \<in> set cs then Some t else locks w c)"
proof (induction t cs w arbitrary: w' rule: lock_all.induct)
  case (2 t c cs w)
  then obtain w1 where w1: "chan_lock t c w = Some w1" "lock_all t cs w1 = Some w'"
    by (auto split: option.splits)
  note l = locks_lock [OF w1(1)]
  have "\<forall>x \<in> set cs. x \<noteq> c" using 2(1) [OF w1] l by fastforce
  with 2(1) [OF w1] l show ?case by (auto simp: fun_eq_iff split: if_splits)
qed simp

lemma unlock_all_locks: "locks (unlock_all cs w) = (\<lambda>c. if c \<in> set cs then None else locks w c)"
  by (induction cs w rule: unlock_all.induct) (auto simp: lock_simps fun_eq_iff)

lemma lock_unlock_all:
  assumes "lock_all t cs w = Some w1" "locks w2 = locks w1"
  shows "locks (unlock_all cs w2) = locks w"
  using lock_all_locks [OF assms(1)] assms(2) by (auto simp: unlock_all_locks fun_eq_iff)

lemma select_locked_locks:
  "select_locked t self cases ns rng_state w = Some (out, cases', rng', w') \<Longrightarrow> locks w' = locks w"
  by (auto simp: select_locked_def Let_def lock_simps split: if_splits option.splits
      dest!: execute_case_locks intro: lock_unlock_all)

lemma select_cleanup_locks: "select_cleanup t woken cases w = Some (i, cases', w') \<Longrightarrow> locks w' = locks w"
  by (auto simp: select_cleanup_def Let_def split: if_splits option.splits
      dest!: cleanup_from_locks intro: lock_unlock_all)

section \<open>The invariant\<close>

lemma lock_inv_locks: "lock_inv s \<longleftrightarrow> (\<forall>c t. locks (sw s) c = Some t \<longleftrightarrow> in_section (tpcs s t) c)"
  by (simp add: lock_inv_def locks_def)

lemma lock_inv_holds: "lock_inv s \<Longrightarrow> in_section (tpcs s t) c \<Longrightarrow> locks (sw s) c = Some t"
  by (simp add: lock_inv_locks)

lemma lock_inv_move:
  assumes "lock_inv s" "\<And>x. in_section (tpcs s t) x \<longleftrightarrow> x = c \<and> b" "\<And>x. in_section pc x \<longleftrightarrow> x = c \<and> b'"
    "lock_move t c b b' (sw s) w'" "sw s' = w'" "tpcs s' = (tpcs s)(t := pc)"
  shows "lock_inv s'"
proof -
  have own: "locks (sw s) x = Some t \<longleftrightarrow> x = c \<and> b" for x
    using assms(1,2) by (simp add: lock_inv_locks)
  have other: "locks w' x = Some u \<longleftrightarrow> locks (sw s) x = Some u" if "u \<noteq> t" for x u
    using assms(4) own [of x] that by (auto simp: lock_move_def split: if_splits)
  have self: "locks w' x = Some t \<longleftrightarrow> x = c \<and> b'" for x
    using assms(4) own [of x] by (auto simp: lock_move_def split: if_splits)
  show ?thesis
    using assms(1,3) by (auto simp: lock_inv_locks assms(5,6) other self)
qed

lemma lock_inv_frame:
  assumes "lock_inv s" "\<And>x. \<not> in_section (tpcs s t) x" "\<And>x. \<not> in_section pc x"
    "locks w' = locks (sw s)" "sw s' = w'" "tpcs s' = (tpcs s)(t := pc)"
  shows "lock_inv s'"
  by (rule lock_inv_move [where b = False and b' = False, OF assms(1)])
    (use assms in \<open>auto simp: lock_move_def\<close>)

lemma select_step_lock_inv:
  assumes "lock_inv s" "tpcs s t = Selecting cases ns pc" "select_step t ex cases ns pc s = Some s'"
  shows "lock_inv s'"
proof -
  have "locks (sw s') = locks (sw s) \<and> (\<forall>x. \<not> in_section (tpcs s' t) x) \<and>
      tpcs s' = (tpcs s)(t := tpcs s' t)"
    using assms(3)
    by (cases pc) (auto simp: select_step_def split: option.splits select_out.splits if_splits
        dest!: chan_select_fast_locks select_locked_locks select_cleanup_locks)
  then show ?thesis
    using lock_inv_frame [OF assms(1), of t "tpcs s' t" "sw s'" s'] assms(2) by auto
qed

lemma sys_step_lock_inv:
  assumes inv: "lock_inv s" and step: "sys_step t ex s = Some s'"
  shows "lock_inv s'"
proof (cases "tpcs s t")
  case (Sending c d ns pc)
  then obtain w out where o: "chan_send_step t c d ns ex pc (sw s) = Some (w, out)"
    "s' = at t w (case out of Inl pc1 \<Rightarrow> Sending c d ns pc1 | Inr e \<Rightarrow> Finished e) s"
    using step by (auto simp: sys_step_def)
  show ?thesis
    by (rule lock_inv_move [OF inv _ _ chan_send_step_locks [OF o(1)]])
      (use Sending o(2) inv in \<open>auto simp: lock_inv_holds split: sum.splits\<close>)
next
  case (Receiving c d ns pc)
  then obtain w out where o: "chan_recv_step t c d ns ex pc (sw s) = Some (w, out)"
    "s' = at t w (case out of Inl pc1 \<Rightarrow> Receiving c d ns pc1 | Inr e \<Rightarrow> Finished e) s"
    using step by (auto simp: sys_step_def)
  show ?thesis
    by (rule lock_inv_move [OF inv _ _ chan_recv_step_locks [OF o(1)]])
      (use Receiving o(2) inv in \<open>auto simp: lock_inv_holds split: sum.splits\<close>)
next
  case (Closing c pc)
  then obtain w out where o: "chan_close_step t c pc (sw s) = Some (w, out)"
    "s' = at t w (case out of Inl pc1 \<Rightarrow> Closing c pc1 | Inr e \<Rightarrow> Finished e) s"
    using step by (auto simp: sys_step_def)
  show ?thesis
    by (rule lock_inv_move [OF inv _ _ chan_close_step_locks [OF o(1)]])
      (use Closing o(2) inv in \<open>auto simp: lock_inv_holds split: sum.splits\<close>)
next
  case (SendBurst c n pc)
  then obtain w out where o: "send_deliver t c pc (sw s) = Some (w, out)"
    "s' = at t w (case out of Inl pc1 \<Rightarrow> SendBurst c n pc1 | Inr e \<Rightarrow> FinishedN n) s"
    using step by (auto simp: sys_step_def)
  show ?thesis
    by (rule lock_inv_move [OF inv _ _ send_deliver_locks [OF o(1)]])
      (use SendBurst o(2) inv in \<open>auto simp: lock_inv_holds split: sum.splits\<close>)
next
  case (RecvBurst c n pc)
  then obtain w out where o: "recv_admit t c pc (sw s) = Some (w, out)"
    "s' = at t w (case out of Inl pc1 \<Rightarrow> RecvBurst c n pc1 | Inr e \<Rightarrow> FinishedN n) s"
    using step by (auto simp: sys_step_def)
  show ?thesis
    by (rule lock_inv_move [OF inv _ _ recv_admit_locks [OF o(1)]])
      (use RecvBurst o(2) inv in \<open>auto simp: lock_inv_holds split: sum.splits\<close>)
next
  case (Selecting cases ns pc)
  then show ?thesis using step select_step_lock_inv [OF inv] by (simp add: sys_step_def)
qed (use step in \<open>simp_all add: sys_step_def\<close>)

lemma try_send_burst_locks: "try_send_burst cp dp n w = Some (got, wake, w') \<Longrightarrow> locks w' = locks w"
  by (auto simp: try_send_burst_def Let_def lock_simps split: option.splits if_splits)

lemma try_recv_burst_locks: "try_recv_burst cp dp n w = Some (got, wake, w') \<Longrightarrow> locks w' = locks w"
  by (auto simp: try_recv_burst_def Let_def lock_simps split: option.splits if_splits)

lemma do_call_lock_inv:
  assumes inv: "lock_inv s" and call: "do_call t cl s = Some s'"
  shows "lock_inv s'"
proof -
  have rest: "resting (tpcs s t)" using call by (auto simp: do_call_def split: if_splits)
  have "locks (sw s') = locks (sw s) \<and> (\<forall>x. \<not> in_section (tpcs s' t) x) \<and>
      tpcs s' = (tpcs s)(t := tpcs s' t)"
    using call
    by (cases cl) (auto simp: do_call_def chan_send_timeout_def chan_recv_timeout_def chan_close_def
        chan_select_timeout_def chan_try_send_burst_def chan_try_recv_burst_def send_entry_def recv_entry_def
        split: if_splits option.splits dest!: try_send_burst_locks try_recv_burst_locks)
  moreover have "\<not> in_section (tpcs s t) x" for x
    using rest by (cases "tpcs s t") (auto simp: resting_def)
  ultimately show ?thesis
    using lock_inv_frame [OF inv, of t "tpcs s' t" "sw s'" s'] by auto
qed

lemma do_event_lock_inv: "lock_inv s \<Longrightarrow> do_event e s = Some s' \<Longrightarrow> lock_inv s'"
  by (cases e) (auto simp: do_event_def intro: do_call_lock_inv sys_step_lock_inv)

lemma sys_reach_lock_inv: "sys_reach s0 s \<Longrightarrow> lock_inv s0 \<Longrightarrow> lock_inv s"
  by (induction rule: sys_reach.induct) (auto intro: do_event_lock_inv)

lemma lock_inv_start:
  assumes "\<forall>t. resting (tpcs s t)" "\<forall>c. lock (chans (sw s) c) = None"
  shows "lock_inv s"
proof -
  have "\<not> in_section (tpcs s t) c" for t c
    using assms(1) [rule_format, of t] by (cases "tpcs s t") (auto simp: resting_def)
  then show ?thesis using assms(2) by (simp add: lock_inv_def)
qed

section \<open>Mutual exclusion\<close>

text \<open>
  C3. The lock discipline of the whole library. Start from threads that are in no operation and
  channels whose mutexes are free, and let any number of threads call any operations (send,
  receive, close, select, bulk, with or without timeout) and interleave in any way. Then at
  every moment a channel's mutex is held by a thread exactly when that thread is inside one of
  the critical sections of that channel: two threads are never inside sections of the same
  channel together, and a thread that has returned from its operation, on any path, error and
  timeout paths included, holds no mutex.
\<close>

theorem mutual_exclusion:
  assumes "\<forall>t. resting (tpcs s0 t)" "\<forall>c. lock (chans (sw s0) c) = None" "sys_reach s0 s"
  shows "(lock (chans (sw s) c) = Some t \<longleftrightarrow> in_section (tpcs s t) c) \<and>
    (in_section (tpcs s t) c \<longrightarrow> in_section (tpcs s u) c \<longrightarrow> t = u) \<and>
    (resting (tpcs s t) \<longrightarrow> lock (chans (sw s) c) \<noteq> Some t)"
proof -
  have inv: "lock_inv s" using sys_reach_lock_inv [OF assms(3) lock_inv_start] assms(1,2) by blast
  have "\<not> in_section (tpcs s t) c" if "resting (tpcs s t)"
    using that by (cases "tpcs s t") (auto simp: resting_def)
  with inv show ?thesis unfolding lock_inv_def by (metis option.inject)
qed

text \<open>Thread 0 has closed the channel and is waking its receivers while thread 1 waits for the mutex.\<close>

theorem mutual_exclusion_witness:
  "\<exists>s. sys_reach (demo_sys cap1_chan) s \<and> in_section (tpcs s 0) 0 \<and> tpcs s 1 = Sending 0 7 (-1) S_lock \<and>
     lock (chans (sw s) 0) = Some 0 \<and> \<not> in_section (tpcs s 1) 0 \<and> sys_step 1 False s = None"
proof -
  let ?es = "[Call 0 (CClose (Some 0)), Step 0, Call 1 (CSend (Some 0) (Some 7) (-1)), Step 1]"
  have "\<exists>s. sys_exec ?es (demo_sys cap1_chan) = Some s \<and> tpcs s 0 = Closing 0 C_drain \<and>
      tpcs s 1 = Sending 0 7 (-1) S_lock"
    by (simp add: cap1_chan_eval trace_simps chan_close_def chan_close_step_def waitq_close_all.simps)
  then obtain s where s: "sys_exec ?es (demo_sys cap1_chan) = Some s" "tpcs s 0 = Closing 0 C_drain"
    "tpcs s 1 = Sending 0 7 (-1) S_lock" by blast
  have r: "sys_reach (demo_sys cap1_chan) s" by (rule sys_exec_reach [OF sys_reach.start s(1)])
  have "\<forall>t. resting (tpcs (demo_sys cap1_chan) t)" "\<forall>c. lock (chans (sw (demo_sys cap1_chan)) c) = None"
    by (simp_all add: demo_sys_def resting_def cap1_chan_eval)
  from mutual_exclusion [OF this r, of 0 0 1]
  have l: "lock (chans (sw s) 0) = Some 0" using s(2) by simp
  then have "sys_step 1 False s = None"
    using s(3) by (simp add: sys_step_def chan_send_step_def send_slow_def chan_lock_def)
  with r l s(2,3) show ?thesis by auto
qed

end
