(* ===== verification/Chan_Close.thy ===== *)
theory Chan_Close
  imports Chan_Races
begin

text \<open>
  Closing a channel on which any number of threads are parked: \<open>chan_close\<close> runs to its end,
  fails every parked sender, serves the parked receivers from the ring in their order as long
  as it has elements and fails the others, and leaves both wait queues empty and the mutex
  free.
\<close>

section \<open>The drain loop\<close>

lemma closing_step:
  assumes "tpcs s t = Closing c pc" "chan_close_step t c pc (sw s) = Some (w, out)"
    and "runs t (at t w (case out of Inl pc1 \<Rightarrow> Closing c pc1 | Inr e \<Rightarrow> Finished e) s) s'"
  shows "runs t s s'"
  using assms by (intro runs_step [of t s]) (simp_all add: sys_step_def)

text \<open>The elements a parked receiver can still get; an unbuffered channel has none.\<close>

definition chan_items :: "chan \<Rightarrow> byte list list" where
  "chan_items ch = (if capacity ch = 0 then [] else items_of ch)"

text \<open>
  The receivers \<open>rs\<close> were served with the elements \<open>xs\<close>: the buffers were written in order,
  the first receivers succeeded, the others failed, and all of them were signalled.
\<close>

definition served :: "waddr list \<Rightarrow> byte list list \<Rightarrow> world \<Rightarrow> world \<Rightarrow> bool" where
  "served rs xs w w' \<longleftrightarrow>
     mem w' = fold (\<lambda>(a, x). store_elem (wdata (heap w a)) x) (zip rs xs) (mem w) \<and>
     map (\<lambda>a. wresult (heap w' a)) rs =
       replicate (min (length rs) (length xs)) CHAN_OK @ replicate (length rs - length xs) CHAN_ERR_CLOSED \<and>
     (\<forall>a. a \<notin> set rs \<longrightarrow> wresult (heap w' a) = wresult (heap w a)) \<and>
     (\<forall>a. wdata (heap w' a) = wdata (heap w a)) \<and>
     (\<forall>p. parks w' p \<longleftrightarrow> parks w p \<or> p \<in> OwnPark ` set rs)"

lemma served_cong:
  assumes "served rs xs w1 w'" "mem w1 = mem w" "heap w1 = heap w" "parks w1 = parks w"
  shows "served rs xs w w'"
  using assms by (simp add: served_def)

lemma served_Cons:
  assumes "served rs (tl xs) w1 w'" and "a \<notin> set rs"
    and "mem w1 = recv_mem (wdata (heap w a)) xs (mem w)"
    and "\<And>b. wdata (heap w1 b) = wdata (heap w b)"
    and "\<And>b. wresult (heap w1 b) = (if b = a then if xs = [] then CHAN_ERR_CLOSED else CHAN_OK
           else wresult (heap w b))"
    and "\<And>p. parks w1 p \<longleftrightarrow> parks w p \<or> p = OwnPark a"
  shows "served (a # rs) xs w w'"
  using assms by (cases xs) (auto simp: served_def recv_mem_def)

lemma ring_pop_items:
  assumes "ring_ok (ring (chans w c))"
  shows "\<exists>r. ring_pop c d w = Some (items_of (chans w c) \<noteq> [],
      (upd_chan c (set_ring r) w)\<lparr>mem := recv_mem d (items_of (chans w c)) (mem w)\<rparr>) \<and>
    ring_ok r \<and> ring_items r = tl (items_of (chans w c))"
  using ring_lf_pop_law [OF assms]
  by (auto simp: ring_pop_def recv_mem_def Let_def split: list.splits)

definition drain_ok :: "caddr \<Rightarrow> waddr list \<Rightarrow> world \<Rightarrow> bool" where
  "drain_ok c rs w \<longleftrightarrow> wq (heap w) (recv_waiters (chans w c)) rs \<and> (\<forall>a \<in> set rs. regular (heap w) a) \<and>
     (capacity (chans w c) \<noteq> 0 \<longrightarrow> ring_ok (ring (chans w c)))"

text \<open>The first receiver leaves the queue and can be finished without touching the others.\<close>

lemma drain_pop:
  assumes "drain_ok c (a # rs) w"
  shows "\<exists>q h. waitq_pop (recv_waiters (chans w c)) (heap w) = (Some a, q, h) \<and> same_fields (heap w) h \<and>
    a \<notin> set rs \<and> regular (heap w) a \<and> (\<forall>sel. waiter_try_claim a h sel = (True, sel)) \<and>
    (\<forall>e v. heap v = h \<longrightarrow> wq (heap (waiter_finish a e v)) q rs \<and> (\<forall>b \<in> set rs. regular (heap (waiter_finish a e v)) b))"
proof -
  have q: "wq (heap w) (recv_waiters (chans w c)) (a # rs)" and reg: "\<forall>b \<in> set (a # rs). regular (heap w) b"
    using assms by (simp_all add: drain_ok_def)
  from waitq_pop_ok [OF q] obtain q1 h1 where
    p: "waitq_pop (recv_waiters (chans w c)) (heap w) = (Some a, q1, h1)" "wq h1 q1 rs" "same_fields (heap w) h1"
    by auto
  note sf = same_fieldsD [OF p(3)]
  have "waiter_try_claim a h1 sel = (True, sel)" for sel
    using reg sf by (simp add: waiter_try_claim_def regular_def)
  moreover have "wq (heap (waiter_finish a e v)) q1 rs" if "heap v = h1" for e v
    by (rule wq_frame [OF p(2)]) (simp add: that)
  moreover have "\<forall>b \<in> set rs. regular (heap (waiter_finish a e v)) b" if "heap v = h1" for e v
    using reg sf that by (auto simp: regular_def)
  moreover have "a \<notin> set rs" using q by (simp add: wq_def)
  ultimately show ?thesis using p(1,3) reg by (intro exI [of _ q1] exI [of _ h1]) simp
qed

text \<open>One iteration: the first receiver gets the first element, or learns that there is none.\<close>

lemma drain_once:
  assumes "drain_ok c (a # rs) w"
  shows "\<exists>w1 r q. chan_close_step t c C_drain w = Some (w1, Inl C_drain) \<and>
    chans w1 = (chans w)(c := (chans w c)\<lparr>recv_waiters := q, ring := r\<rparr>) \<and> drain_ok c rs w1 \<and>
    chan_items (chans w1 c) = tl (chan_items (chans w c)) \<and>
    (\<forall>w'. served rs (tl (chan_items (chans w c))) w1 w' \<longrightarrow> served (a # rs) (chan_items (chans w c)) w w')"
proof -
  obtain q1 h1 where p: "waitq_pop (recv_waiters (chans w c)) (heap w) = (Some a, q1, h1)" "same_fields (heap w) h1"
    and a: "a \<notin> set rs" and reg: "regular (heap w) a" and claim: "\<And>sel. waiter_try_claim a h1 sel = (True, sel)"
    and wq': "\<And>e v. heap v = h1 \<Longrightarrow> wq (heap (waiter_finish a e v)) q1 rs"
    and reg': "\<And>e v. heap v = h1 \<Longrightarrow> \<forall>b \<in> set rs. regular (heap (waiter_finish a e v)) b"
    using drain_pop [OF assms] by blast
  note sf = same_fieldsD [OF p(2)]
  let ?w1 = "upd_chan c (\<lambda>ch. ch\<lparr>recv_waiters := q1\<rparr>) (w\<lparr>heap := h1\<rparr>)"
  show ?thesis
  proof (cases "capacity (chans w c) = 0")
    case True
    let ?w2 = "waiter_finish a CHAN_ERR_CLOSED (?w1\<lparr>sel_state := sel_state w\<rparr>)"
    have "served (a # rs) (chan_items (chans w c)) w w'"
      if "served rs (tl (chan_items (chans w c))) ?w2 w'" for w'
      by (rule served_Cons [OF that a])
        (use True reg sf in \<open>auto simp: chan_items_def regular_def recv_mem_def\<close>)
    moreover have "chan_close_step t c C_drain w = Some (?w2, Inl C_drain)"
      using p(1) claim True by (simp add: chan_close_step_def)
    ultimately show ?thesis
      by (intro exI [of _ ?w2] exI [of _ "ring (chans w c)"] exI [of _ q1])
        (use True wq' reg' in \<open>simp add: drain_ok_def chan_items_def\<close>)
  next
    case False
    then have cap: "0 < capacity (chans w c)" by (simp add: word_neq_0_conv)
    have "ring_ok (ring (chans ?w1 c))" using assms False by (simp add: drain_ok_def)
    from ring_pop_items [of "?w1\<lparr>sel_state := sel_state w\<rparr>" c "wdata (heap w a)"] this obtain r where
      r: "ring_pop c (wdata (h1 a)) (?w1\<lparr>sel_state := sel_state w\<rparr>) = Some (items_of (chans w c) \<noteq> [],
          (upd_chan c (set_ring r) (?w1\<lparr>sel_state := sel_state w\<rparr>))\<lparr>mem := recv_mem (wdata (heap w a)) (items_of (chans w c)) (mem w)\<rparr>)"
        "ring_ok r" "ring_items r = tl (items_of (chans w c))"
      by (auto simp: sf)
    let ?w2 = "(upd_chan c (set_ring r) (?w1\<lparr>sel_state := sel_state w\<rparr>))\<lparr>mem := recv_mem (wdata (heap w a)) (items_of (chans w c)) (mem w)\<rparr>"
    let ?w3 = "waiter_finish a (if items_of (chans w c) \<noteq> [] then CHAN_OK else CHAN_ERR_CLOSED) ?w2"
    have "served (a # rs) (chan_items (chans w c)) w w'"
      if "served rs (tl (chan_items (chans w c))) ?w3 w'" for w'
      by (rule served_Cons [OF that a])
        (use False reg sf in \<open>auto simp: chan_items_def regular_def\<close>)
    moreover have "chan_close_step t c C_drain w = Some (?w3, Inl C_drain)"
      using p(1) claim False cap r(1) by (simp add: chan_close_step_def)
    ultimately show ?thesis
      by (intro exI [of _ ?w3] exI [of _ r] exI [of _ q1])
        (use False wq' reg' r in \<open>simp add: drain_ok_def chan_items_def\<close>)
  qed
qed

lemma drain_ends:
  assumes "tpcs s t = Closing c C_drain" "drain_ok c [] (sw s)"
  shows "\<exists>w' r q. runs t s (at t w' (Finished CHAN_OK) s) \<and> waitq_empty q \<and>
    chans w' = (chans (sw s))(c := (chans (sw s) c)\<lparr>recv_waiters := q, ring := r, lock := None\<rparr>) \<and>
    chan_items (chans w' c) = chan_items (chans (sw s) c) \<and> served [] (chan_items (chans (sw s) c)) (sw s) w'"
proof -
  have q: "wq (heap (sw s)) (recv_waiters (chans (sw s) c)) []" using assms(2) by (simp add: drain_ok_def)
  from waitq_pop_ok [OF q] obtain q1 h1 where
    p: "waitq_pop (recv_waiters (chans (sw s) c)) (heap (sw s)) = (None, q1, h1)" "wq h1 q1 []" "\<forall>a. h1 a = heap (sw s) a"
    by auto
  then have h1: "h1 = heap (sw s)" by (simp add: fun_eq_iff)
  let ?w = "chan_unlock c (upd_chan c (\<lambda>ch. ch\<lparr>recv_waiters := q1\<rparr>) ((sw s)\<lparr>heap := h1\<rparr>))"
  have "runs t s (at t ?w (Finished CHAN_OK) s)"
    by (rule closing_step [OF assms(1), of ?w "Inr CHAN_OK"])
      (use p in \<open>auto simp: chan_close_step_def\<close>)
  moreover have "waitq_empty q1" "chan_items (chans ?w c) = chan_items (chans (sw s) c)"
    "chans ?w = (chans (sw s))(c := (chans (sw s) c)\<lparr>recv_waiters := q1, ring := ring (chans (sw s) c), lock := None\<rparr>)"
    "served [] (chan_items (chans (sw s) c)) (sw s) ?w"
    using p(2) h1 by (simp_all add: chan_unlock_def chan_items_def served_def wq_empty_iff)
  ultimately show ?thesis by blast
qed

lemma drain_runs:
  assumes "tpcs s t = Closing c C_drain" "drain_ok c rs (sw s)"
  shows "\<exists>w' r q. runs t s (at t w' (Finished CHAN_OK) s) \<and> waitq_empty q \<and>
    chans w' = (chans (sw s))(c := (chans (sw s) c)\<lparr>recv_waiters := q, ring := r, lock := None\<rparr>) \<and>
    chan_items (chans w' c) = drop (length rs) (chan_items (chans (sw s) c)) \<and>
    served rs (chan_items (chans (sw s) c)) (sw s) w'"
  using assms
proof (induction rs arbitrary: s)
  case Nil
  from drain_ends [OF Nil] show ?case by (simp only: list.size drop_0)
next
  case (Cons a rs)
  from drain_once [OF Cons.prems(2), of t] obtain w1 r q where
    w1: "chan_close_step t c C_drain (sw s) = Some (w1, Inl C_drain)"
      "chans w1 = (chans (sw s))(c := (chans (sw s) c)\<lparr>recv_waiters := q, ring := r\<rparr>)" "drain_ok c rs w1"
      "chan_items (chans w1 c) = tl (chan_items (chans (sw s) c))"
      "\<And>w'. served rs (tl (chan_items (chans (sw s) c))) w1 w' \<Longrightarrow>
         served (a # rs) (chan_items (chans (sw s) c)) (sw s) w'"
    by blast
  let ?s1 = "at t w1 (Closing c C_drain) s"
  have "tpcs ?s1 t = Closing c C_drain" "drain_ok c rs (sw ?s1)" using w1(3) by simp_all
  from Cons.IH [OF this] obtain w' r' q' where
    w': "runs t ?s1 (at t w' (Finished CHAN_OK) ?s1)" "waitq_empty q'"
      "chans w' = (chans (sw ?s1))(c := (chans (sw ?s1) c)\<lparr>recv_waiters := q', ring := r', lock := None\<rparr>)"
      "chan_items (chans w' c) = drop (length rs) (chan_items (chans (sw ?s1) c))"
      "served rs (chan_items (chans (sw ?s1) c)) (sw ?s1) w'"
    by blast
  have "runs t s (at t w' (Finished CHAN_OK) s)"
    by (rule closing_step [OF Cons.prems(1) w1(1)]) (use w'(1) in simp)
  moreover have "chans w' = (chans (sw s))(c := (chans (sw s) c)\<lparr>recv_waiters := q', ring := r', lock := None\<rparr>)"
    using w'(3) w1(2) by simp
  moreover have "chan_items (chans w' c) = drop (length (a # rs)) (chan_items (chans (sw s) c))"
    using w'(4) w1(4) by (simp add: drop_Suc)
  moreover have "served (a # rs) (chan_items (chans (sw s) c)) (sw s) w'"
    using w'(5) w1(4) by (intro w1(5)) simp
  ultimately show ?case using w'(2) by blast
qed

section \<open>The whole close\<close>

lemma close_locks:
  assumes pc: "tpcs s t = Closing c C_lock" and free: "lock (chans (sw s) c) = None" "\<not> closed (chans (sw s) c)"
    and ss: "wq (heap (sw s)) (send_waiters (chans (sw s) c)) ss" "\<forall>a \<in> set ss. regular (heap (sw s)) a"
  shows "\<exists>w q. chan_close_step t c C_lock (sw s) = Some (w, Inl C_drain) \<and> waitq_empty q \<and>
    chans w = (chans (sw s))(c := (chans (sw s) c)\<lparr>closed := True, lock := Some t, send_waiters := q\<rparr>) \<and>
    (\<exists>v. finished (set ss) CHAN_ERR_CLOSED (sw s) v \<and> heap w = heap v \<and> parks w = parks v \<and> mem w = mem v)"
proof -
  let ?w = "upd_chan c (\<lambda>ch. ch\<lparr>lock := Some t, closed := True\<rparr>) (sw s)"
  from waitq_close_all_ok [of ?w "send_waiters (chans ?w c)" ss] ss obtain q w' where
    q: "waitq_close_all (send_waiters (chans ?w c)) ?w = Some (q, w')" "wq (heap w') q []"
      "finished (set ss) CHAN_ERR_CLOSED ?w w'"
    by auto
  let ?w2 = "upd_chan c (\<lambda>ch. ch\<lparr>send_waiters := q\<rparr>) w'"
  have "chan_close_step t c C_lock (sw s) = Some (?w2, Inl C_drain)"
    using free q(1) by (simp add: chan_close_step_def chan_lock_def)
  moreover have "finished (set ss) CHAN_ERR_CLOSED (sw s) (w'\<lparr>chans := chans (sw s)\<rparr>)"
    using q(3) by (simp add: finished_def)
  ultimately show ?thesis
    by (intro exI [of _ ?w2] exI [of _ q])
      (use q(2,3) in \<open>auto simp: finished_def wq_empty_iff intro!: exI [of _ "w'\<lparr>chans := chans (sw s)\<rparr>"]\<close>)
qed

lemma finished_drain_ok:
  assumes "finished (set ss) e w v" "heap w1 = heap v" "set ss \<inter> set rs = {}"
    and "wq (heap w) q rs" "\<forall>a \<in> set rs. regular (heap w) a"
    and "recv_waiters (chans w1 c) = q" "capacity (chans w1 c) \<noteq> 0 \<longrightarrow> ring_ok (ring (chans w1 c))"
  shows "drain_ok c rs w1"
proof -
  have "wq (heap w1) q rs"
    by (rule wq_frame [OF assms(4)]) (use assms(1,2,3) in \<open>auto simp: finished_def\<close>)
  with assms show ?thesis by (auto simp: drain_ok_def finished_def regular_def)
qed

text \<open>The close from the call to its return: the two queues one after the other.\<close>

lemma close_runs:
  assumes "lock (chans (sw s) c) = None" "\<not> closed (chans (sw s) c)"
    and "wq (heap (sw s)) (send_waiters (chans (sw s) c)) ss" "wq (heap (sw s)) (recv_waiters (chans (sw s) c)) rs"
    and "set ss \<inter> set rs = {}" "\<forall>a \<in> set ss \<union> set rs. regular (heap (sw s)) a"
    and "capacity (chans (sw s) c) \<noteq> 0 \<longrightarrow> ring_ok (ring (chans (sw s) c))"
  shows "\<exists>w v w' q q' r. finish t (chan_close t (Some c) s) = Some (at t w' (Finished CHAN_OK) s) \<and>
    finished (set ss) CHAN_ERR_CLOSED (sw s) v \<and> heap w = heap v \<and> parks w = parks v \<and> mem w = mem v \<and>
    served rs (chan_items (chans (sw s) c)) w w' \<and> waitq_empty q \<and> waitq_empty q' \<and>
    chan_items (chans w' c) = drop (length rs) (chan_items (chans (sw s) c)) \<and>
    chans w' = (chans (sw s))(c := (chans (sw s) c)\<lparr>closed := True, send_waiters := q,
      recv_waiters := q', ring := r, lock := None\<rparr>)"
proof -
  let ?s0 = "chan_close t (Some c) s"
  have s0: "sw ?s0 = sw s" "tpcs ?s0 t = Closing c C_lock" by (simp_all add: chan_close_def)
  from close_locks [of ?s0 t c ss] assms s0 obtain w q v where
    w: "chan_close_step t c C_lock (sw s) = Some (w, Inl C_drain)" "waitq_empty q"
      "chans w = (chans (sw s))(c := (chans (sw s) c)\<lparr>closed := True, lock := Some t, send_waiters := q\<rparr>)"
      "finished (set ss) CHAN_ERR_CLOSED (sw s) v" "heap w = heap v" "parks w = parks v" "mem w = mem v"
    by auto
  have items: "chan_items (chans w c) = chan_items (chans (sw s) c)" by (simp add: w(3) chan_items_def)
  have "drain_ok c rs w"
    by (rule finished_drain_ok [OF w(4,5) assms(5,4)]) (use assms(6,7) w(3) in auto)
  let ?s1 = "at t w (Closing c C_drain) ?s0"
  have "tpcs ?s1 t = Closing c C_drain" "drain_ok c rs (sw ?s1)" using \<open>drain_ok c rs w\<close> by simp_all
  from drain_runs [OF this] obtain w' r q' where
    w': "runs t ?s1 (at t w' (Finished CHAN_OK) ?s1)" "waitq_empty q'"
      "chans w' = (chans (sw ?s1))(c := (chans (sw ?s1) c)\<lparr>recv_waiters := q', ring := r, lock := None\<rparr>)"
      "chan_items (chans w' c) = drop (length rs) (chan_items (chans (sw ?s1) c))"
      "served rs (chan_items (chans (sw ?s1) c)) (sw ?s1) w'"
    by blast
  have "runs t ?s0 (at t w' (Finished CHAN_OK) s)"
    by (rule closing_step [OF s0(2), unfolded s0(1), OF w(1)]) (use w'(1) in \<open>simp add: chan_close_def\<close>)
  then have fin: "finish t ?s0 = Some (at t w' (Finished CHAN_OK) s)"
    by (rule runs_finish) (simp add: finished_rests)
  have chans': "chans w' = (chans (sw s))(c := (chans (sw s) c)\<lparr>closed := True, send_waiters := q,
      recv_waiters := q', ring := r, lock := None\<rparr>)"
    using w'(3) w(3) by simp
  have "served rs (chan_items (chans (sw s) c)) w w'" using w'(5) items by simp
  then show ?thesis
    by (intro exI [of _ w] exI [of _ v] exI [of _ w'] exI [of _ q] exI [of _ q'] exI [of _ r])
      (use fin w(2,4-7) w'(2,4) items chans' in simp)
qed

text \<open>
  C6. Closing an open channel on which the senders \<open>ss\<close> and the receivers \<open>rs\<close> are parked,
  any number of each: \<open>chan_close\<close> returns \<open>CHAN_OK\<close> after finitely many steps; the channel
  is closed, its mutex free and both queues empty; every sender's result is
  \<open>CHAN_ERR_CLOSED\<close>; the receivers, in the order in which they queued, get the elements of the
  ring, oldest first, with result \<open>CHAN_OK\<close>, and those for whom none is left get
  \<open>CHAN_ERR_CLOSED\<close>; the elements nobody took stay in the ring; and exactly these waiters are
  signalled.
\<close>

theorem chan_close_wakes_all:
  assumes "lock (chans (sw s) c) = None" "\<not> closed (chans (sw s) c)"
    and "wq (heap (sw s)) (send_waiters (chans (sw s) c)) ss" "wq (heap (sw s)) (recv_waiters (chans (sw s) c)) rs"
    and "set ss \<inter> set rs = {}" "\<forall>a \<in> set ss \<union> set rs. regular (heap (sw s)) a"
    and "capacity (chans (sw s) c) \<noteq> 0 \<longrightarrow> ring_ok (ring (chans (sw s) c))"
  shows "\<exists>w'. finish t (chan_close t (Some c) s) = Some (at t w' (Finished CHAN_OK) s) \<and>
    closed (chans w' c) \<and> lock (chans w' c) = None \<and>
    waitq_empty (send_waiters (chans w' c)) \<and> waitq_empty (recv_waiters (chans w' c)) \<and>
    chan_items (chans w' c) = drop (length rs) (chan_items (chans (sw s) c)) \<and>
    (\<forall>c'. c' \<noteq> c \<longrightarrow> chans w' c' = chans (sw s) c') \<and>
    map (\<lambda>a. wresult (heap w' a)) ss = replicate (length ss) CHAN_ERR_CLOSED \<and>
    map (\<lambda>a. wresult (heap w' a)) rs =
      replicate (min (length rs) (length (chan_items (chans (sw s) c)))) CHAN_OK @
      replicate (length rs - length (chan_items (chans (sw s) c))) CHAN_ERR_CLOSED \<and>
    mem w' = fold (\<lambda>(a, x). store_elem (wdata (heap (sw s) a)) x)
      (zip rs (chan_items (chans (sw s) c))) (mem (sw s)) \<and>
    (\<forall>p. parks w' p \<longleftrightarrow> parks (sw s) p \<or> p \<in> OwnPark ` (set ss \<union> set rs))"
proof -
  obtain w v w' q q' r where fin: "finish t (chan_close t (Some c) s) = Some (at t w' (Finished CHAN_OK) s)"
    and w: "finished (set ss) CHAN_ERR_CLOSED (sw s) v" "heap w = heap v" "parks w = parks v" "mem w = mem v"
    and srv: "served rs (chan_items (chans (sw s) c)) w w'" and empty: "waitq_empty q" "waitq_empty q'"
    and items: "chan_items (chans w' c) = drop (length rs) (chan_items (chans (sw s) c))"
    and chans': "chans w' = (chans (sw s))(c := (chans (sw s) c)\<lparr>closed := True, send_waiters := q,
      recv_waiters := q', ring := r, lock := None\<rparr>)"
    using close_runs [OF assms, of t] by blast
  have "wresult (heap w' a) = CHAN_ERR_CLOSED" if "a \<in> set ss" for a
    using that w(1,2) srv assms(5) by (auto simp: served_def finished_def)
  then have ss: "map (\<lambda>a. wresult (heap w' a)) ss = replicate (length ss) CHAN_ERR_CLOSED"
    by (simp add: map_replicate_const [symmetric] cong: map_cong)
  have parks': "\<forall>p. parks w' p \<longleftrightarrow> parks (sw s) p \<or> p \<in> OwnPark ` (set ss \<union> set rs)"
    using w(1,3) srv by (auto simp: served_def finished_def)
  have mem': "mem w' = fold (\<lambda>(a, x). store_elem (wdata (heap (sw s) a)) x)
      (zip rs (chan_items (chans (sw s) c))) (mem (sw s))"
    using w(1,2,4) srv by (simp add: served_def finished_def)
  show ?thesis
    by (rule exI [of _ w'], intro conjI fin ss parks' mem' items)
      (use empty srv in \<open>simp_all add: chans' served_def\<close>)
qed

text \<open>
  One element in the ring, a parked sender (thread 3) and two parked receivers (threads 1 and
  2, with buffers 11 and 12).
\<close>

definition one_item_ring :: chan_ring_lf where
  "one_item_ring = snd (the (ring_lf_push fresh_ring [7]))"

definition parked_sys :: sys where
  "parked_sys = (demo_sys ((demo_chan False)\<lparr>ring := one_item_ring,
       send_waiters := \<lparr>q_head = Some (Self 3), q_tail = Some (Self 3)\<rparr>,
       recv_waiters := \<lparr>q_head = Some (Self 1), q_tail = Some (Self 2)\<rparr>\<rparr>))
     \<lparr>sw := (sw (demo_sys ((demo_chan False)\<lparr>ring := one_item_ring,
         send_waiters := \<lparr>q_head = Some (Self 3), q_tail = Some (Self 3)\<rparr>,
         recv_waiters := \<lparr>q_head = Some (Self 1), q_tail = Some (Self 2)\<rparr>\<rparr>)))
       \<lparr>heap := (\<lambda>a. no_waiter\<lparr>wnext := (if a = Self 1 then Some (Self 2) else None),
          wdata := (case a of Self n \<Rightarrow> n + 10 | Stub n i \<Rightarrow> 0), wake_park := OwnPark a\<rparr>)\<rparr>\<rparr>"

lemma one_item_ring_ok: "ring_ok one_item_ring \<and> ring_items one_item_ring = [[7]]"
  using ring_lf_push_law [OF fresh_ring_ok(1), of "[7]"] fresh_ring_ok(2-4) by (auto simp: one_item_ring_def)

theorem chan_close_wakes_all_witness:
  "\<exists>w'. finish 0 (chan_close 0 (Some 5) parked_sys) = Some (at 0 w' (Finished CHAN_OK) parked_sys) \<and>
     map (\<lambda>t. wresult (heap w' (Self t))) [1, 2, 3] = [CHAN_OK, CHAN_ERR_CLOSED, CHAN_ERR_CLOSED] \<and>
     mem w' 11 = [7] \<and> chan_items (chans w' 5) = [] \<and>
     map (\<lambda>t. parks w' (OwnPark (Self t))) [1, 2, 3, 4] = [True, True, True, False]"
proof -
  have f: "chans (sw parked_sys) 5 = (demo_chan False)\<lparr>ring := one_item_ring,
      send_waiters := \<lparr>q_head = Some (Self 3), q_tail = Some (Self 3)\<rparr>,
      recv_waiters := \<lparr>q_head = Some (Self 1), q_tail = Some (Self 2)\<rparr>\<rparr>"
    "parks (sw parked_sys) = (\<lambda>_. False)" "mem (sw parked_sys) = (\<lambda>b. [of_nat b])"
    "heap (sw parked_sys) = (\<lambda>a. no_waiter\<lparr>wnext := (if a = Self 1 then Some (Self 2) else None),
       wdata := (case a of Self n \<Rightarrow> n + 10 | Stub n i \<Rightarrow> 0), wake_park := OwnPark a\<rparr>)"
    by (simp_all add: parked_sys_def demo_sys_def)
  have items: "chan_items (chans (sw parked_sys) 5) = [[7]]"
    using one_item_ring_ok by (simp add: f chan_items_def demo_chan_def)
  have "wq (heap (sw parked_sys)) (send_waiters (chans (sw parked_sys) 5)) [Self 3]"
    "wq (heap (sw parked_sys)) (recv_waiters (chans (sw parked_sys) 5)) [Self 1, Self 2]"
    "set [Self 3] \<inter> set [Self 1, Self 2] = {}"
    "\<forall>a \<in> set [Self 3] \<union> set [Self 1, Self 2]. regular (heap (sw parked_sys)) a"
    "capacity (chans (sw parked_sys) 5) \<noteq> 0 \<longrightarrow> ring_ok (ring (chans (sw parked_sys) 5))"
    "lock (chans (sw parked_sys) 5) = None" "\<not> closed (chans (sw parked_sys) 5)"
    using one_item_ring_ok by (simp_all add: f demo_chan_def wq_def regular_def no_waiter_def)
  from chan_close_wakes_all [OF this(6,7,1-5), of 0] obtain w' where
    w': "finish 0 (chan_close 0 (Some 5) parked_sys) = Some (at 0 w' (Finished CHAN_OK) parked_sys)"
      "chan_items (chans w' 5) = drop (length [Self 1, Self 2]) [[7]]"
      "map (\<lambda>a. wresult (heap w' a)) [Self 3] = replicate (length [Self 3]) CHAN_ERR_CLOSED"
      "map (\<lambda>a. wresult (heap w' a)) [Self 1, Self 2] =
        replicate (min (length [Self 1, Self 2]) (length [[7 :: byte]])) CHAN_OK @
        replicate (length [Self 1, Self 2] - length [[7 :: byte]]) CHAN_ERR_CLOSED"
      "mem w' = fold (\<lambda>(a, x). store_elem (wdata (heap (sw parked_sys) a)) x) (zip [Self 1, Self 2] [[7]]) (mem (sw parked_sys))"
      "\<forall>p. parks w' p \<longleftrightarrow> parks (sw parked_sys) p \<or> p \<in> OwnPark ` (set [Self 3] \<union> set [Self 1, Self 2])"
    unfolding items by blast
  have "mem w' 11 = [7]" unfolding w'(5) by (simp add: f store_elem_def memcpy_def)
  with w'(1-4,6) show ?thesis by (intro exI [of _ w']) (simp add: f)
qed

end
