(* ===== verification/Chan_Rendezvous.thy ===== *)
theory Chan_Rendezvous
  imports Chan_Races
begin

text \<open>
  Unbuffered channels: a blocking send without a receiver queues the caller and parks it, and
  a receive takes the element of the sender that has waited longest straight from its buffer
  and lets it go. The parked senders of a channel are thus themselves a FIFO queue.
\<close>

section \<open>Parked senders\<close>

text \<open>
  The threads \<open>ts\<close>, each with the buffer it sends from, are parked in \<open>chan_send\<close> on the
  unbuffered channel \<open>c\<close>, in this order, and nobody else waits there.
\<close>

definition parked_senders :: "caddr \<Rightarrow> (tid \<times> baddr) list \<Rightarrow> sys \<Rightarrow> bool" where
  "parked_senders c ts s \<longleftrightarrow>
     (let ch = chans (sw s) c; h = heap (sw s)
      in capacity ch = 0 \<and> \<not> spsc ch \<and> \<not> closed ch \<and> lock ch = None \<and> recv_waiters ch = empty_waitq \<and>
         send_waiter_cnt ch = int (length ts) \<and> distinct (map fst ts) \<and>
         wq h (send_waiters ch) (map (\<lambda>(t, d). Self t) ts) \<and>
         (\<forall>(t, d) \<in> set ts. tpcs s t = Sending c d (-1) S_park \<and> regular h (Self t) \<and>
            wdata (h (Self t)) = d \<and> wresult (h (Self t)) = CHAN_OK \<and> \<not> parks (sw s) (OwnPark (Self t))))"

lemma parked_sendersD:
  assumes "parked_senders c ts s"
  shows "capacity (chans (sw s) c) = 0" "\<not> spsc (chans (sw s) c)" "\<not> closed (chans (sw s) c)"
    "lock (chans (sw s) c) = None" "recv_waiters (chans (sw s) c) = empty_waitq"
    "send_waiter_cnt (chans (sw s) c) = int (length ts)" "distinct (map fst ts)"
    "wq (heap (sw s)) (send_waiters (chans (sw s) c)) (map (\<lambda>(t, d). Self t) ts)"
    "(t, d) \<in> set ts \<Longrightarrow> tpcs s t = Sending c d (-1) S_park"
    "(t, d) \<in> set ts \<Longrightarrow> regular (heap (sw s)) (Self t)"
    "(t, d) \<in> set ts \<Longrightarrow> wdata (heap (sw s) (Self t)) = d"
    "(t, d) \<in> set ts \<Longrightarrow> wresult (heap (sw s) (Self t)) = CHAN_OK"
    "(t, d) \<in> set ts \<Longrightarrow> \<not> parks (sw s) (OwnPark (Self t))"
  using assms by (auto simp: parked_senders_def Let_def)

lemma parked_sendersI:
  assumes "capacity (chans (sw s) c) = 0" "\<not> spsc (chans (sw s) c)" "\<not> closed (chans (sw s) c)"
    "lock (chans (sw s) c) = None" "recv_waiters (chans (sw s) c) = empty_waitq"
    "send_waiter_cnt (chans (sw s) c) = int (length ts)" "distinct (map fst ts)"
    "wq (heap (sw s)) (send_waiters (chans (sw s) c)) (map (\<lambda>(t, d). Self t) ts)"
    "\<And>t d. (t, d) \<in> set ts \<Longrightarrow> tpcs s t = Sending c d (-1) S_park \<and> regular (heap (sw s)) (Self t) \<and>
       wdata (heap (sw s) (Self t)) = d \<and> wresult (heap (sw s) (Self t)) = CHAN_OK \<and>
       \<not> parks (sw s) (OwnPark (Self t))"
  shows "parked_senders c ts s"
  using assms by (auto simp: parked_senders_def Let_def)

section \<open>A send queues up\<close>

lemma parked_senders_snoc:
  assumes P: "parked_senders c ts s" and t: "t \<notin> fst ` set ts"
    and q: "wq (heap w) q' (map (\<lambda>(t, d). Self t) (ts @ [(t, d)]))"
    and ch: "chans w = (chans (sw s))(c := (chans (sw s) c)\<lparr>send_waiter_cnt := send_waiter_cnt (chans (sw s) c) + 1,
      send_waiters := q', lock := None\<rparr>)" and pk: "parks w = (parks (sw s))(OwnPark (Self t) := False)"
    and self: "regular (heap w) (Self t)" "wdata (heap w (Self t)) = d" "wresult (heap w (Self t)) = CHAN_OK"
    and other: "\<And>a. a \<noteq> Self t \<Longrightarrow> (regular (heap w) a \<longleftrightarrow> regular (heap (sw s)) a) \<and>
      wdata (heap w a) = wdata (heap (sw s) a) \<and> wresult (heap w a) = wresult (heap (sw s) a)"
  shows "parked_senders c (ts @ [(t, d)]) (at t w (Sending c d (-1) S_park) s)" (is "parked_senders c _ ?s'")
proof (rule parked_sendersI)
  note D = parked_sendersD [OF P]
  fix u b assume u: "(u, b) \<in> set (ts @ [(t, d)])"
  show "tpcs ?s' u = Sending c b (-1) S_park \<and> regular (heap (sw ?s')) (Self u) \<and>
     wdata (heap (sw ?s') (Self u)) = b \<and> wresult (heap (sw ?s') (Self u)) = CHAN_OK \<and>
     \<not> parks (sw ?s') (OwnPark (Self u))"
  proof (cases "u = t")
    case True
    then have "b = d" using u t by force
    with True self show ?thesis by (simp add: pk)
  next
    case False
    then have "(u, b) \<in> set ts" using u by simp
    with False D(9-13) [OF this] other [of "Self u"] show ?thesis by (simp add: pk)
  qed
qed (use parked_sendersD [OF P] t q in \<open>auto simp: image_iff ch\<close>)

lemma send_parks:
  assumes P: "parked_senders c ts s" and t: "t \<notin> fst ` set ts"
  shows "\<exists>s'. finish t (chan_send t (Some c) (Some d) s) = Some s' \<and>
    parked_senders c (ts @ [(t, d)]) s' \<and> mem (sw s') = mem (sw s) \<and>
    (\<forall>u. u \<noteq> t \<longrightarrow> tpcs s' u = tpcs s u)"
proof -
  note D = parked_sendersD [OF P]
  let ?s0 = "chan_send t (Some c) (Some d) s"
  have s0: "?s0 = at t (sw s) (Sending c d (-1) S_lock) s"
    using D(1,2) by (simp add: chan_send_def chan_send_timeout_def send_entry_def)
  let ?w1 = "add_send_cnt c 1 (waiter_init (Self t) d CHAN_OP_SEND (upd_chan c (\<lambda>ch. ch\<lparr>lock := Some t\<rparr>) (sw s)))"
  obtain q' h' where push: "waitq_push (send_waiters (chans (sw s) c)) (Self t) (heap ?w1) = (q', h')"
    by fastforce
  have heap1: "heap ?w1 a = heap (sw s) a" if "a \<noteq> Self t" for a
    using that by (simp add: add_send_cnt_def waiter_init_def)
  have "wq (heap ?w1) (send_waiters (chans (sw s) c)) (map (\<lambda>(t, d). Self t) ts)"
    by (rule wq_frame [OF D(8)]) (use heap1 t in force)
  from waitq_push_ok [OF this _ push] t have
    q': "wq h' q' (map (\<lambda>(t, d). Self t) (ts @ [(t, d)]))" "same_fields (heap ?w1) h'"
    by force+
  note sf = same_fieldsD [OF q'(2)]
  let ?w2 = "chan_unlock c (push_sender c (Self t) ?w1)"
  let ?s' = "at t ?w2 (Sending c d (-1) S_park) s"
  have w2: "chans ?w2 = (chans (sw s))(c := (chans (sw s) c)\<lparr>send_waiter_cnt := send_waiter_cnt (chans (sw s) c) + 1,
      send_waiters := q', lock := None\<rparr>)" "heap ?w2 = h'" "mem ?w2 = mem (sw s)"
    "parks ?w2 = (parks (sw s))(OwnPark (Self t) := False)"
    using push by (simp_all add: push_sender_def chan_unlock_def add_send_cnt_def waiter_init_def)
  have step: "chan_send_step t c d (-1) False S_lock (sw s) = Some (?w2, Inl S_park)"
    using D(1-5) by (simp add: chan_send_step_def send_slow_def send_rendezvous_def chan_lock_def pop_receiver_none Let_def)
  have "runs t ?s0 ?s'"
    by (rule sending_step [of _ t c d "-1" S_lock ?w2 "Inl S_park"]) (use step in \<open>auto simp: s0\<close>)
  moreover have "sys_step t False ?s' = None"
    using w2(4) D(2) by (simp add: sys_step_def chan_send_step_def send_park_def w2(1))
  ultimately have fin: "finish t ?s0 = Some ?s'" by (rule runs_finish)
  have "parked_senders c (ts @ [(t, d)]) ?s'"
  proof (rule parked_senders_snoc [OF P t _ w2(1,4)])
    show "wq (heap ?w2) q' (map (\<lambda>(t, d). Self t) (ts @ [(t, d)]))" using q'(1) by (simp only: w2(2))
  qed (simp_all add: w2(2) sf heap1 regular_def, simp_all add: add_send_cnt_def waiter_init_def)
  with fin show ?thesis by (intro exI [of _ ?s']) (simp add: w2)
qed

section \<open>A receive takes from the oldest sender\<close>

lemma pop_sender_parked:
  assumes P: "parked_senders c ((t, d) # ts) s" and w: "w = upd_chan c (\<lambda>ch. ch\<lparr>lock := Some u\<rparr>) (sw s)"
  shows "\<exists>q h. pop_sender c w = Some (Some (Self t), upd_chan c (\<lambda>ch. ch\<lparr>send_waiters := q\<rparr>) (w\<lparr>heap := h\<rparr>)) \<and>
    wq h q (map (\<lambda>(t, d). Self t) ts) \<and> same_fields (heap (sw s)) h"
proof -
  note D = parked_sendersD [OF P]
  have "claim_first (\<lambda>a. select_state (heap (sw s) a)) (sel_state (sw s)) (map (\<lambda>(t, d). Self t) ((t, d) # ts)) =
      (Some (Self t), map (\<lambda>(t, d). Self t) ts, sel_state (sw s))"
    using D(10) [of t d] by (simp add: regular_def)
  from waitq_pop_sender_ok [OF D(8) this] obtain q h where
    "waitq_pop_sender (send_waiters (chans (sw s) c)) (heap (sw s)) (sel_state (sw s)) =
       Some (Some (Self t), q, h, sel_state (sw s))"
    "wq h q (map (\<lambda>(t, d). Self t) ts)" "same_fields (heap (sw s)) h"
    by blast
  then show ?thesis
    unfolding w by (intro exI [of _ q] exI [of _ h]) (simp add: pop_sender_def)
qed

lemma recv_from_parked:
  assumes P: "parked_senders c ((t, d) # ts) s" and u: "u \<notin> fst ` set ((t, d) # ts)"
  shows "\<exists>s'. finish u (chan_recv u (Some c) (Some out) s) = Some s' \<and> tpcs s' u = Finished CHAN_OK \<and>
    mem (sw s') = copy_elem (elem_size (chans (sw s) c)) out d (mem (sw s)) \<and>
    (\<forall>v. v \<noteq> u \<longrightarrow> tpcs s' v = tpcs s v) \<and>
    (\<exists>q. chans (sw s') = (chans (sw s))(c := (chans (sw s) c)\<lparr>send_waiters := q\<rparr>) \<and>
       wq (heap (sw s')) q (map (\<lambda>(t, d). Self t) ts)) \<and>
    same_fields (heap (sw s)) (heap (sw s')) \<and> parks (sw s') = (parks (sw s))(OwnPark (Self t) := True)"
proof -
  note D = parked_sendersD [OF P]
  let ?s0 = "chan_recv u (Some c) (Some out) s"
  have s0: "?s0 = at u (sw s) (Receiving c out (-1) R_lock) s"
    using D(1,2) by (simp add: chan_recv_def chan_recv_timeout_def recv_entry_def)
  let ?w1 = "upd_chan c (\<lambda>ch. ch\<lparr>lock := Some u\<rparr>) (sw s)"
  from pop_sender_parked [OF P refl] obtain q h where
    pop: "pop_sender c ?w1 = Some (Some (Self t), upd_chan c (\<lambda>ch. ch\<lparr>send_waiters := q\<rparr>) (?w1\<lparr>heap := h\<rparr>))"
      "wq h q (map (\<lambda>(t, d). Self t) ts)" "same_fields (heap (sw s)) h"
    by blast
  note sf = same_fieldsD [OF pop(3)]
  have d: "wdata (h (Self t)) = d" "wresult (h (Self t)) = CHAN_OK" "wake_park (h (Self t)) = OwnPark (Self t)"
    using D(10-12) [of t d] by (simp_all add: sf regular_def)
  then have keep: "h(Self t := (h (Self t))\<lparr>wresult := CHAN_OK\<rparr>) = h" by (simp add: fun_upd_idem)
  let ?w2 = "(sw s)\<lparr>chans := (chans (sw s))(c := (chans (sw s) c)\<lparr>send_waiters := q\<rparr>), heap := h,
      mem := copy_elem (elem_size (chans (sw s) c)) out d (mem (sw s))\<rparr>"
  have step: "chan_recv_step u c out (-1) False R_lock (sw s) = Some (?w2, Inl (R_wake (Self t)))"
    using D(1,4) pop(1) d(1) keep
    by (simp add: chan_recv_step_def recv_slow_def recv_rendezvous_def recv_from_sender_def chan_lock_def
        chan_unlock_def set_result_def Let_def chan_update_same)
  let ?s' = "at u (chan_park_wake (OwnPark (Self t)) ?w2) (Finished CHAN_OK) s"
  have "runs u (at u ?w2 (Receiving c out (-1) (R_wake (Self t))) s) ?s'"
    by (rule receiving_step [of _ u c out "-1" "R_wake (Self t)" "chan_park_wake (OwnPark (Self t)) ?w2" "Inr CHAN_OK"])
      (use d in \<open>auto simp: chan_recv_step_def recv_slow_def\<close>)
  then have "runs u ?s0 ?s'"
    by - (rule receiving_step [of _ u c out "-1" R_lock ?w2 "Inl (R_wake (Self t))"], use step in \<open>auto simp: s0\<close>)
  then have fin: "finish u ?s0 = Some ?s'" by (rule runs_finish) (rule finished_rests)
  show ?thesis
    by (rule exI [of _ ?s']) (use fin pop(2,3) in \<open>auto simp: chan_park_wake_def\<close>)
qed

lemma sender_returns:
  assumes pc: "tpcs s t = Sending c d (-1) S_park" and "parks (sw s) (OwnPark (Self t))"
    and "wresult (heap (sw s) (Self t)) = CHAN_OK"
  shows "finish t s = Some (at t (add_send_cnt c (-1) (sw s)) (Finished CHAN_OK) s)"
proof -
  let ?s' = "at t (add_send_cnt c (-1) (sw s)) (Finished CHAN_OK) s"
  have "runs t (at t (sw s) (Sending c d (-1) S_return) s) ?s'"
    by (rule sending_step [of _ t c d "-1" S_return "add_send_cnt c (-1) (sw s)" "Inr CHAN_OK"])
      (use assms in \<open>auto simp: chan_send_step_def send_park_def\<close>)
  then have "runs t s ?s'"
    by - (rule sending_step [OF pc, of "sw s" "Inl S_return"],
        use assms(2) in \<open>auto simp: chan_send_step_def send_park_def\<close>)
  then show ?thesis by (rule runs_finish) (rule finished_rests)
qed

text \<open>
  C8. An unbuffered channel hands elements over in FIFO order, for any number of blocked
  senders. A blocking send that finds no receiver parks its thread behind the senders \<open>ts\<close>
  that already wait, without touching any user memory. A receive that finds parked senders
  returns \<open>CHAN_OK\<close> with the element copied from the buffer of the sender that waited
  longest; that sender, and only that one, is woken and returns \<open>CHAN_OK\<close> as well, and the
  others stay parked in their order.
\<close>

theorem unbuffered_fifo:
  assumes "parked_senders c ts s" "u \<notin> fst ` set ts"
  shows "(\<exists>s'. finish u (chan_send u (Some c) (Some b) s) = Some s' \<and>
      parked_senders c (ts @ [(u, b)]) s' \<and> mem (sw s') = mem (sw s)) \<and>
    (\<forall>t d ts'. ts = (t, d) # ts' \<longrightarrow>
      (\<exists>s1 s2. finish u (chan_recv u (Some c) (Some b) s) = Some s1 \<and> tpcs s1 u = Finished CHAN_OK \<and>
        mem (sw s1) = copy_elem (elem_size (chans (sw s) c)) b d (mem (sw s)) \<and>
        finish t s1 = Some s2 \<and> tpcs s2 t = Finished CHAN_OK \<and> tpcs s2 u = Finished CHAN_OK \<and>
        mem (sw s2) = mem (sw s1) \<and> parked_senders c ts' s2))"
proof (intro conjI allI impI)
  show "\<exists>s'. finish u (chan_send u (Some c) (Some b) s) = Some s' \<and>
      parked_senders c (ts @ [(u, b)]) s' \<and> mem (sw s') = mem (sw s)"
    using send_parks [OF assms] by blast
  fix t d ts' assume ts: "ts = (t, d) # ts'"
  note P = assms(1) [unfolded ts] and D = parked_sendersD [OF assms(1) [unfolded ts]]
  from recv_from_parked [OF P assms(2) [unfolded ts], of b] obtain s1 q where
    s1: "finish u (chan_recv u (Some c) (Some b) s) = Some s1" "tpcs s1 u = Finished CHAN_OK"
      "mem (sw s1) = copy_elem (elem_size (chans (sw s) c)) b d (mem (sw s))"
      "\<And>v. v \<noteq> u \<Longrightarrow> tpcs s1 v = tpcs s v"
      "chans (sw s1) = (chans (sw s))(c := (chans (sw s) c)\<lparr>send_waiters := q\<rparr>)"
      "wq (heap (sw s1)) q (map (\<lambda>(t, d). Self t) ts')"
      "same_fields (heap (sw s)) (heap (sw s1))" "parks (sw s1) = (parks (sw s))(OwnPark (Self t) := True)"
    by blast
  note sf = same_fieldsD [OF s1(7)]
  have tu: "t \<noteq> u" and t': "t \<notin> fst ` set ts'" using assms(2) ts D(7) by auto
  let ?s2 = "at t (add_send_cnt c (-1) (sw s1)) (Finished CHAN_OK) s1"
  have "finish t s1 = Some ?s2"
    by (rule sender_returns) (use s1(4,8) tu D(9,12) [of t d] sf in simp_all)
  moreover have "parked_senders c ts' ?s2"
  proof (rule parked_sendersI)
    fix v e assume v: "(v, e) \<in> set ts'"
    then have "v \<noteq> t" "v \<noteq> u" using t' assms(2) ts by force+
    with v D(9-13) [of v e] s1(4,8) show "tpcs ?s2 v = Sending c e (-1) S_park \<and> regular (heap (sw ?s2)) (Self v) \<and>
        wdata (heap (sw ?s2) (Self v)) = e \<and> wresult (heap (sw ?s2) (Self v)) = CHAN_OK \<and>
        \<not> parks (sw ?s2) (OwnPark (Self v))"
      by (simp add: add_send_cnt_def sf regular_def)
  qed (use D s1(5,6) in \<open>simp_all add: add_send_cnt_def\<close>)
  ultimately show "\<exists>s1 s2. finish u (chan_recv u (Some c) (Some b) s) = Some s1 \<and> tpcs s1 u = Finished CHAN_OK \<and>
        mem (sw s1) = copy_elem (elem_size (chans (sw s) c)) b d (mem (sw s)) \<and>
        finish t s1 = Some s2 \<and> tpcs s2 t = Finished CHAN_OK \<and> tpcs s2 u = Finished CHAN_OK \<and>
        mem (sw s2) = mem (sw s1) \<and> parked_senders c ts' s2"
    using s1(1-3) tu by (intro exI [of _ s1] exI [of _ ?s2]) (simp add: add_send_cnt_def)
qed

lemma unbuf_chan_eval:
  "unbuf_chan = \<lparr>elem_size = 1, capacity = 0, spsc = False, lock = None, ring = zero_ring,
     send_waiter_cnt = 0, recv_waiter_cnt = 0, send_waiters = empty_waitq,
     recv_waiters = empty_waitq, closed = False, refcount = 1, freed = False\<rparr>"
  by (simp add: unbuf_chan_def chan_create_def chan_create_impl_def)

text \<open>Thread 1 sends the byte 5 and parks; thread 2 receives it into buffer 9; thread 1 returns.\<close>

theorem unbuffered_fifo_witness:
  "\<exists>s1 s2 s3. finish 1 (chan_send 1 (Some 0) (Some 5) (demo_sys unbuf_chan)) = Some s1 \<and>
     tpcs s1 1 = Sending 0 5 (-1) S_park \<and>
     finish 2 (chan_recv 2 (Some 0) (Some 9) s1) = Some s2 \<and> tpcs s2 2 = Finished CHAN_OK \<and>
     finish 1 s2 = Some s3 \<and> tpcs s3 1 = Finished CHAN_OK \<and>
     mem (sw s3) = copy_elem (elem_size (chans (sw s1) 0)) 9 5 (\<lambda>b. [of_nat b]) \<and> parked_senders 0 [] s3"
proof -
  have "parked_senders 0 [] (demo_sys unbuf_chan)"
    by (simp add: parked_senders_def demo_sys_def unbuf_chan_eval wq_def empty_waitq_def)
  from unbuffered_fifo [OF this, of 1 5] obtain s1 where
    s1: "finish 1 (chan_send 1 (Some 0) (Some 5) (demo_sys unbuf_chan)) = Some s1"
      "parked_senders 0 [(1, 5)] s1" "mem (sw s1) = (\<lambda>b. [of_nat b])"
    by (auto simp: demo_sys_def)
  from unbuffered_fifo [OF s1(2), of 2 9] s1 parked_sendersD(9) [OF s1(2), of 1 5] show ?thesis
    by fastforce
qed

end
