(* ===== verification/Select_Order.thy ===== *)
theory Select_Order
  imports Chan_Select "HOL-Library.Multiset"
begin

text \<open>
  The lock order of \<open>chan_select\<close>: the insertion sort of the case indices, the special case
  for two cases, and the list of mutexes \<open>lock_all\<close> takes. It is the strictly increasing list
  of the channels of the cases, whatever their order and repetitions, so selects that run at
  the same time cannot wait for each other in a circle.
\<close>

section \<open>The insertion sort\<close>

lemma sort_inner_drop:
  assumes "j < length order"
  shows "length (sort_inner addr key j order) = length order \<and>
    drop (Suc j) (sort_inner addr key j order) = drop (Suc j) order"
  using assms
proof (induction j arbitrary: order)
  case (Suc j)
  let ?o = "order[Suc j := order ! j]"
  have IH: "length (sort_inner addr key j ?o) = length order \<and>
      drop (Suc j) (sort_inner addr key j ?o) = drop (Suc j) ?o"
    using Suc.IH [of ?o] Suc.prems by simp
  have "drop (Suc (Suc j)) (sort_inner addr key j ?o) = tl (drop (Suc j) (sort_inner addr key j ?o))"
    by (simp add: drop_Suc tl_drop)
  also have "\<dots> = drop (Suc (Suc j)) ?o"
    using IH by (simp add: drop_Suc tl_drop)
  finally show ?case using IH Suc.prems by simp
qed simp

lemma sort_inner_mset:
  assumes "j < length order"
  shows "mset (sort_inner addr key j order) = add_mset key (mset (take j order) + mset (drop (Suc j) order))"
  using assms
proof (induction j arbitrary: order)
  case 0
  then show ?case by (cases order) simp_all
next
  case (Suc j)
  have last: "mset (take (Suc j) order) = add_mset (order ! j) (mset (take j order))"
    using Suc.prems by (simp add: take_Suc_conv_app_nth)
  have hole: "mset (drop (Suc j) (order[Suc j := x])) = add_mset x (mset (drop (Suc (Suc j)) order))" for x
    using Suc.prems by (simp add: Cons_nth_drop_Suc [symmetric])
  show ?case
  proof (cases "addr key < addr (order ! j)")
    case True
    with Suc.IH [of "order[Suc j := order ! j]"] Suc.prems last hole show ?thesis by simp
  next
    case False
    have "mset (order[Suc j := key]) = mset (take (Suc j) (order[Suc j := key])) + mset (drop (Suc j) (order[Suc j := key]))"
      by (metis append_take_drop_id mset_append)
    with False hole show ?thesis by simp
  qed
qed

lemma sorted_last_le:
  assumes "sorted (map f (take (Suc j) xs))" "j < length xs" "x \<in> set (take (Suc j) xs)"
  shows "f x \<le> (f (xs ! j) :: nat)"
  using assms by (auto simp: take_Suc_conv_app_nth sorted_append)

lemma sort_inner_sorted:
  assumes "j < length order" "sorted (map addr (take j order))"
  shows "sorted (map addr (take (Suc j) (sort_inner addr key j order)))"
  using assms
proof (induction j arbitrary: order)
  case 0
  then show ?case by (cases order) simp_all
next
  case (Suc j)
  note le = sorted_last_le [OF Suc.prems(2)]
  show ?case
  proof (cases "addr key < addr (order ! j)")
    case True
    let ?o = "order[Suc j := order ! j]" and ?r = "sort_inner addr key j (order[Suc j := order ! j])"
    have r: "length ?r = length order" "drop (Suc j) ?r = drop (Suc j) ?o"
      using sort_inner_drop [of j ?o addr key] Suc.prems(1) by simp_all
    have s: "sorted (map addr (take (Suc j) ?r))"
      using Suc.prems by (intro Suc.IH) (auto simp: take_Suc_conv_app_nth sorted_append)
    have "?r ! Suc j = order ! j"
      using Suc.prems(1) r(1) hd_drop_conv_nth [of "Suc j" ?r] hd_drop_conv_nth [of "Suc j" ?o] r(2) by simp
    moreover have "addr x \<le> addr (order ! j)" if "x \<in> set (take (Suc j) ?r)" for x
    proof -
      have "mset (take (Suc j) ?r) + mset (drop (Suc j) ?r) = mset ?r"
        by (metis append_take_drop_id mset_append)
      then have "mset (take (Suc j) ?r) = add_mset key (mset (take j order))"
        using sort_inner_mset [of j ?o addr key] Suc.prems(1) r(2) by simp
      then have "x = key \<or> x \<in> set (take j order)"
        using that by (metis insert_iff set_mset_add_mset_insert set_mset_mset)
      then show ?thesis using True le [of x] Suc.prems(1) by (auto simp: take_Suc_conv_app_nth)
    qed
    ultimately show ?thesis
      using s True r(1) Suc.prems(1) by (simp add: take_Suc_conv_app_nth [of "Suc j" ?r] sorted_append)
  next
    case False
    then show ?thesis
      using Suc.prems le by (fastforce simp: take_Suc_conv_app_nth [of "Suc j" "order[Suc j := key]"] sorted_append)
  qed
qed

text \<open>The whole sort: a permutation of the case indices, by non-decreasing channel address.\<close>

abbreviation case_addr :: "chan_select_case list \<Rightarrow> nat \<Rightarrow> caddr" where
  "case_addr cases k \<equiv> case_ch (cases ! k)"

lemma sort_order_prefix:
  assumes "i \<le> length cases" "0 < i"
  defines "order \<equiv> foldl (\<lambda>order i. sort_inner (case_addr cases) (order ! i) i order) [0..<length cases] [1..<i]"
  shows "mset order = mset [0..<length cases] \<and> sorted (map (case_addr cases) (take i order))"
  using assms(1,2) unfolding order_def
proof (induction i)
  case (Suc i)
  show ?case
  proof (cases "i = 0")
    case True
    then show ?thesis using Suc.prems by (simp add: take_Suc_conv_app_nth [of 0])
  next
    case False
    let ?o = "foldl (\<lambda>order i. sort_inner (case_addr cases) (order ! i) i order) [0..<length cases] [1..<i]"
    have IH: "mset ?o = mset [0..<length cases]" "sorted (map (case_addr cases) (take i ?o))"
      using Suc False by simp_all
    have len: "i < length ?o" using mset_eq_length [OF IH(1)] Suc.prems by simp
    have "mset (sort_inner (case_addr cases) (?o ! i) i ?o) = mset ?o"
      unfolding sort_inner_mset [OF len]
      by (metis (no_types, lifting) add_mset_add_single append_take_drop_id Cons_nth_drop_Suc len mset.simps(2) mset_append union_mset_add_mset_right)
    moreover have "[1..<Suc i] = [1..<i] @ [i]" using False by simp
    ultimately show ?thesis
      using IH sort_inner_sorted [OF len IH(2), of "?o ! i"] by simp
  qed
qed simp

lemma sort_order_sorted:
  "mset (sort_order cases) = mset [0..<length cases] \<and> sorted (map (case_addr cases) (sort_order cases))"
proof (cases "cases = []")
  case False
  then have "mset (sort_order cases) = mset [0..<length cases] \<and>
      sorted (map (case_addr cases) (take (length cases) (sort_order cases)))"
    using sort_order_prefix [of "length cases" cases] by (simp add: sort_order_def)
  then show ?thesis using mset_eq_length [of "sort_order cases" "[0..<length cases]"] by simp
qed (simp add: sort_order_def)

text \<open>The special case for two cases computes the same order.\<close>

lemma sort_order_2_eq: "length cases = 2 \<Longrightarrow> sort_order_2 cases = sort_order cases"
  by (simp add: sort_order_2_def sort_order_def numeral_2_eq_2 upt_conv_Cons)

lemma select_order_sorted:
  "mset (select_order cases) = mset [0..<length cases]" "sorted (map (case_addr cases) (select_order cases))"
  using sort_order_sorted [of cases] by (simp_all add: select_order_def sort_order_2_eq)

section \<open>The mutexes taken\<close>

lemma skip_repeats:
  fixes f :: "nat \<Rightarrow> nat"
  assumes "sorted (map f [0..<n])"
  defines "L \<equiv> \<lambda>n. map f (filter (\<lambda>i. \<not> (0 < i \<and> f i = f (i - 1))) [0..<n])"
  shows "sorted_wrt (<) (L n) \<and> set (L n) = f ` {..<n} \<and> (0 < n \<longrightarrow> L n \<noteq> [] \<and> last (L n) = f (n - 1))"
  using assms(1) unfolding L_def
proof (induction n)
  case (Suc n)
  let ?L = "map f (filter (\<lambda>i. \<not> (0 < i \<and> f i = f (i - 1))) [0..<n])"
  have IH: "sorted_wrt (<) ?L" "set ?L = f ` {..<n}" "0 < n \<Longrightarrow> ?L \<noteq> [] \<and> last ?L = f (n - 1)"
    using Suc by (simp_all add: sorted_append)
  have mono: "f i \<le> f j" if "i \<le> j" "j < Suc n" for i j
    using Suc.prems that sorted_nth_mono [of "map f [0..<Suc n]" i j] by (simp del: upt_Suc)
  show ?case
  proof (cases "0 < n \<and> f n = f (n - 1)")
    case True
    then have "f n \<in> f ` {..<n}" by (intro image_eqI [of _ _ "n - 1"]) auto
    with True IH show ?thesis by (simp add: lessThan_Suc insert_absorb)
  next
    case False
    have "x < f n" if "x \<in> set ?L" for x
    proof -
      from that IH(2) obtain i where i: "i < n" "x = f i" by auto
      moreover have "f i \<le> f (n - 1)" "f (n - 1) \<le> f n" "f (n - 1) \<noteq> f n"
        using mono [of i "n - 1"] mono [of "n - 1" n] False i(1) by auto
      ultimately show ?thesis by simp
    qed
    with False IH show ?thesis by (simp add: sorted_wrt_append lessThan_Suc)
  qed
qed simp

lemma lock_list_eq: "lock_list cases (select_order cases) = sorted_list_of_set (case_ch ` set cases)"
proof -
  let ?o = "select_order cases"
  let ?f = "\<lambda>i. case_addr cases (?o ! i)"
  note m = select_order_sorted(1) [of cases]
  have len: "length ?o = length cases" using mset_eq_length [OF m] by simp
  have set_o: "set ?o = {..<length cases}" using mset_eq_setD [OF m] by (simp add: atLeast0LessThan)
  have mp: "map ?f [0..<length ?o] = map (case_addr cases) ?o" by (rule nth_equalityI) simp_all
  have "sorted (map ?f [0..<length ?o])" unfolding mp by (rule select_order_sorted(2))
  from skip_repeats [OF this]
  have s: "sorted_wrt (<) (lock_list cases ?o)" "set (lock_list cases ?o) = ?f ` {..<length ?o}"
    unfolding lock_list_def by blast+
  have "set (map ?f [0..<length ?o]) = case_addr cases ` set ?o" unfolding mp by simp
  then have "?f ` {..<length ?o} = case_addr cases ` set ?o" by (simp add: atLeast0LessThan)
  also have "\<dots> = case_ch ` ((\<lambda>k. cases ! k) ` {..<length cases})" unfolding set_o by (simp add: image_image)
  also have "(\<lambda>k. cases ! k) ` {..<length cases} = set cases" by (auto simp: set_conv_nth)
  finally have "set (lock_list cases ?o) = case_ch ` set cases" using s(2) by simp
  with s(1) sorted_list_of_set.idem_if_sorted_distinct [of "lock_list cases ?o"] show ?thesis
    by (simp add: strict_sorted_iff)
qed

text \<open>
  C9. The lock order of select. The mutexes that \<open>chan_select\<close> takes are the channels of its
  cases, each once, in strictly increasing order of address, for any number of cases in any
  order and with any repetitions (the special sort for two cases included). Therefore
  selects never deadlock on their locks: of any finite set of selects that have each taken
  some of their mutexes and need another one, at least one needs a mutex that none of them
  holds.
\<close>

theorem select_lock_order:
  assumes "finite T" "T \<noteq> {}" "\<forall>t \<in> T. k t < length (lock_list (cs t) (select_order (cs t)))"
  shows "(\<forall>cases. lock_list cases (select_order cases) = sorted_list_of_set (case_ch ` set cases)) \<and>
    (\<exists>t \<in> T. \<forall>u \<in> T. lock_list (cs t) (select_order (cs t)) ! k t \<notin>
       set (take (k u) (lock_list (cs u) (select_order (cs u)))))"
proof -
  define need where "need = (\<lambda>t. lock_list (cs t) (select_order (cs t)) ! k t)"
  have "Max (need ` T) \<in> need ` T" using assms(1,2) by (intro Max_in) auto
  then obtain t where "t \<in> T" "need t = Max (need ` T)" by auto
  then have t: "t \<in> T" "\<And>u. u \<in> T \<Longrightarrow> need u \<le> need t" using assms(1) by simp_all
  have "need t \<notin> set (take (k u) (lock_list (cs u) (select_order (cs u))))" if u: "u \<in> T" for u
  proof
    let ?L = "lock_list (cs u) (select_order (cs u))"
    assume "need t \<in> set (take (k u) ?L)"
    then obtain i where i: "i < k u" "i < length ?L" "need t = ?L ! i" by (auto simp: in_set_conv_nth)
    have "sorted_wrt (<) ?L" by (simp add: lock_list_eq)
    then have "?L ! i < ?L ! k u" using i assms(3) u by (simp add: sorted_wrt_nth_less)
    with t(2) [OF u] i(3) show False by (simp add: need_def)
  qed
  with t(1) lock_list_eq show ?thesis unfolding need_def by blast
qed

text \<open>Two selects, over channels 5, 3 and over channels 3, 8, 5, that hold one mutex each.\<close>

definition demo_cases :: "nat \<Rightarrow> chan_select_case list" where
  "demo_cases t = map (\<lambda>c. \<lparr>case_ch = c, case_op = CHAN_OP_RECV, case_data = 0, case_result = CHAN_OK\<rparr>)
     (if t = 0 then [5, 3] else [3, 8, 5])"

theorem select_lock_order_witness:
  "lock_list (demo_cases 1) (select_order (demo_cases 1)) = [3, 5, 8] \<and>
   (\<exists>t \<in> {0, 1}. \<forall>u \<in> {0, 1}. lock_list (demo_cases t) (select_order (demo_cases t)) ! 1 \<notin>
      set (take 1 (lock_list (demo_cases u) (select_order (demo_cases u)))))"
proof -
  have L: "lock_list (demo_cases t) (select_order (demo_cases t)) = (if t = 0 then [3, 5] else [3, 5, 8])" for t
    by (simp add: lock_list_eq demo_cases_def)
  then have "\<forall>t \<in> {0, 1 :: nat}. 1 < length (lock_list (demo_cases t) (select_order (demo_cases t)))" by simp
  from select_lock_order [OF _ _ this] L show ?thesis by simp
qed

end
