(* ===== verification/Park_Spec.thy ===== *)
theory Park_Spec
  imports Main
begin

text \<open>
  What the blocking operations rely on when they park: a contract for a one-shot park shared
  by the thread that waits on it and the thread that wakes it, whose steps interleave. Both
  backends of \<open>src/park.c\<close> are shown to provide it.
\<close>

section \<open>Runs of a waiter and a waker\<close>

text \<open>
  What happens to the waiting thread in a step: it goes on, its sleep is interrupted without a
  reason, or its sleep ends because its time is over.
\<close>

datatype answer = Go | Spurious | Expired

inductive park_reach :: "(answer \<Rightarrow> 'p \<Rightarrow> 'p option) \<Rightarrow> ('p \<Rightarrow> 'p option) \<Rightarrow> 'p \<Rightarrow> 'p \<Rightarrow> bool"
  for wait wake p0 where
  start: "park_reach wait wake p0 p0"
| wait: "park_reach wait wake p0 p \<Longrightarrow> wait a p = Some p' \<Longrightarrow> park_reach wait wake p0 p'"
| wake: "park_reach wait wake p0 p \<Longrightarrow> wake p = Some p' \<Longrightarrow> park_reach wait wake p0 p'"

text \<open>The waiting thread alone, for a number of steps.\<close>

fun park_run :: "(answer \<Rightarrow> 'p \<Rightarrow> 'p option) \<Rightarrow> nat \<Rightarrow> 'p \<Rightarrow> 'p option" where
  "park_run wait 0 p = Some p"
| "park_run wait (Suc n) p = (case wait Go p of None \<Rightarrow> None | Some p1 \<Rightarrow> park_run wait n p1)"

section \<open>The contract\<close>

text \<open>
  \<open>signalled\<close>: the wake has been recorded; \<open>woke\<close>: the waker has returned; \<open>asleep\<close>: the
  waiter sleeps in the kernel; \<open>result\<close>: what the wait returned; \<open>timed\<close>: the wait was
  called with a timeout; \<open>work\<close> bounds the steps left once the waker has returned.
\<close>

locale parking =
  fixes inv :: "'p \<Rightarrow> bool" and signalled :: "'p \<Rightarrow> bool" and woke :: "'p \<Rightarrow> bool"
    and asleep :: "'p \<Rightarrow> bool" and result :: "'p \<Rightarrow> bool option" and timed :: bool
    and wait :: "answer \<Rightarrow> 'p \<Rightarrow> 'p option" and wake :: "'p \<Rightarrow> 'p option" and work :: "'p \<Rightarrow> nat"
  assumes wait_inv: "inv p \<Longrightarrow> wait a p = Some p' \<Longrightarrow> inv p'"
    and wake_inv: "inv p \<Longrightarrow> wake p = Some p' \<Longrightarrow> inv p'"
    and wait_keeps: "inv p \<Longrightarrow> wait a p = Some p' \<Longrightarrow> woke p' = woke p"
    and result_true: "inv p \<Longrightarrow> result p = Some True \<Longrightarrow> signalled p"
    and result_false: "inv p \<Longrightarrow> result p = Some False \<Longrightarrow> timed"
    and woke_awake: "inv p \<Longrightarrow> woke p \<Longrightarrow> signalled p \<and> \<not> asleep p"
    and woke_progress: "inv p \<Longrightarrow> woke p \<Longrightarrow> result p = None \<Longrightarrow>
      \<exists>p'. wait Go p = Some p' \<and> (result p' = Some True \<or> result p' = None \<and> work p' < work p)"
begin

lemma park_inv_reach: "park_reach wait wake p0 p \<Longrightarrow> inv p0 \<Longrightarrow> inv p"
  by (induction rule: park_reach.induct) (auto intro: wait_inv wake_inv)

text \<open>Once the waker has returned, the waiting thread returns true on its own.\<close>

lemma returns_true:
  assumes "inv p" "woke p" "result p = None"
  shows "\<exists>n p'. n \<le> Suc (work p) \<and> park_run wait n p = Some p' \<and> result p' = Some True"
  using assms
proof (induction "work p" arbitrary: p rule: less_induct)
  case less
  from woke_progress [OF less.prems] obtain p1 where
    p1: "wait Go p = Some p1" "result p1 = Some True \<or> result p1 = None \<and> work p1 < work p" by blast
  show ?case
  proof (cases "result p1 = Some True")
    case True
    with p1(1) show ?thesis by (intro exI [of _ 1] exI [of _ p1]) simp
  next
    case False
    with p1(2) have "result p1 = None" "work p1 < work p" by auto
    moreover have "inv p1" "woke p1"
      using wait_inv [OF less.prems(1) p1(1)] wait_keeps [OF less.prems(1) p1(1)] less.prems(2) by auto
    ultimately obtain n p' where "n \<le> Suc (work p1)" "park_run wait n p1 = Some p'" "result p' = Some True"
      using less.hyps by blast
    with p1(1) \<open>work p1 < work p\<close> show ?thesis by (intro exI [of _ "Suc n"] exI [of _ p']) simp
  qed
qed

lemma no_lost_wakeup:
  assumes "inv p0" "park_reach wait wake p0 p"
  shows "result p = Some True \<longrightarrow> signalled p" "result p = Some False \<longrightarrow> timed"
    "woke p \<longrightarrow> signalled p \<and> \<not> asleep p"
    "woke p \<and> result p = None \<longrightarrow> (\<exists>n p'. n \<le> Suc (work p) \<and> park_run wait n p = Some p' \<and> result p' = Some True)"
  using park_inv_reach [OF assms(2,1)] result_true result_false woke_awake returns_true by blast+

end

end
