(* ===== verification/Park.thy ===== *)
theory Park
  imports Park_Spec "HOL-Library.Word"
begin

text \<open>
  \<open>src/park.c\<close>: the futex backend and the pthread backend, \<open>chan_park_wait\<close> and
  \<open>chan_park_wake\<close> as step machines on the park they share. The kernel's futex calls and the
  condition variable are modelled by their documented behaviour: \<open>FUTEX_WAIT\<close> sleeps only if
  the word still has the expected value, a wait may end without a wake, and a signal lets
  the sleeping thread go. \<open>lim\<close> is the build parameter \<open>LIBCHAN_SPIN_LIMIT\<close>.
\<close>

section \<open>The futex backend\<close>

datatype futex_wait_pc = F_spin nat | F_check | F_load | F_syscall | F_sleep | F_ret bool

datatype futex_wake_pc = FW_store | FW_syscall | FW_done

record futex_park =
  word :: "32 word"
  f_wait :: futex_wait_pc
  f_wake :: futex_wake_pc

definition futex_park_init :: futex_park where
  "futex_park_init = \<lparr>word = 0, f_wait = F_spin 0, f_wake = FW_store\<rparr>"

definition futex_park_wait :: "nat \<Rightarrow> int \<Rightarrow> answer \<Rightarrow> futex_park \<Rightarrow> futex_park option" where
  "futex_park_wait lim timeout_ns a p =
     (case f_wait p of
        F_spin i \<Rightarrow>
          Some (if i < lim then p\<lparr>f_wait := (if word p \<noteq> 0 then F_ret True else F_spin (Suc i))\<rparr>
                else p\<lparr>f_wait := F_check\<rparr>)
      | F_check \<Rightarrow>
          Some (p\<lparr>f_wait := (if word p \<noteq> 0 then F_ret True
                            else if timeout_ns = 0 then F_ret False else F_load)\<rparr>)
      | F_load \<Rightarrow> Some (p\<lparr>f_wait := (if word p \<noteq> 0 then F_ret True else F_syscall)\<rparr>)
      | F_syscall \<Rightarrow> Some (p\<lparr>f_wait := (if word p \<noteq> 0 then F_load else F_sleep)\<rparr>)
      | F_sleep \<Rightarrow>
          (case a of
             Go \<Rightarrow> None
           | Spurious \<Rightarrow> Some (p\<lparr>f_wait := F_load\<rparr>)
           | Expired \<Rightarrow> (if 0 < timeout_ns then Some (p\<lparr>f_wait := F_ret False\<rparr>) else None))
      | F_ret b \<Rightarrow> None)"

definition futex_park_wake :: "futex_park \<Rightarrow> futex_park option" where
  "futex_park_wake p =
     (case f_wake p of
        FW_store \<Rightarrow> Some (p\<lparr>word := 1, f_wake := FW_syscall\<rparr>)
      | FW_syscall \<Rightarrow>
          Some (p\<lparr>f_wait := (if f_wait p = F_sleep then F_load else f_wait p), f_wake := FW_done\<rparr>)
      | FW_done \<Rightarrow> None)"

definition futex_inv :: "int \<Rightarrow> futex_park \<Rightarrow> bool" where
  "futex_inv timeout_ns p \<longleftrightarrow>
     word p = (if f_wake p = FW_store then 0 else 1) \<and>
     (f_wake p = FW_done \<longrightarrow> f_wait p \<noteq> F_sleep) \<and>
     (f_wait p = F_ret True \<longrightarrow> word p \<noteq> 0) \<and> (f_wait p = F_ret False \<longrightarrow> 0 \<le> timeout_ns)"

definition futex_result :: "futex_park \<Rightarrow> bool option" where
  "futex_result p = (case f_wait p of F_ret b \<Rightarrow> Some b | _ \<Rightarrow> None)"

definition futex_work :: "nat \<Rightarrow> futex_park \<Rightarrow> nat" where
  "futex_work lim p =
     (case f_wait p of F_spin i \<Rightarrow> 4 + (lim - i) | F_check \<Rightarrow> 3 | F_syscall \<Rightarrow> 2 | F_load \<Rightarrow> 1 | _ \<Rightarrow> 0)"

interpretation futex: parking "futex_inv ns" "\<lambda>p. word p \<noteq> 0" "\<lambda>p. f_wake p = FW_done"
  "\<lambda>p. f_wait p = F_sleep" futex_result "0 \<le> ns" "futex_park_wait lim ns" futex_park_wake "futex_work lim"
  for ns lim
  by unfold_locales
    (auto simp: futex_inv_def futex_park_wait_def futex_park_wake_def futex_result_def futex_work_def
      split: futex_wait_pc.splits futex_wake_pc.splits answer.splits if_splits)

section \<open>The pthread backend\<close>

datatype who = Waiter | Waker

text \<open>
  The waiter: spin (lock, read and unlock), lock and test, wait on the condition variable,
  lock again after a wake or after the time is over. The waker: lock, set, signal, unlock.
\<close>

datatype pthread_wait_pc =
    P_spin nat
  | P_read nat
  | P_lock
  | P_test
  | P_loop
  | P_cond
  | P_relock bool
  | P_unlock bool
  | P_ret bool

datatype pthread_wake_pc = PW_lock | PW_set | PW_signal | PW_unlock | PW_done

record pthread_park =
  mu :: "who option"
  signaled :: bool
  p_wait :: pthread_wait_pc
  p_wake :: pthread_wake_pc

definition pthread_park_init :: pthread_park where
  "pthread_park_init = \<lparr>mu = None, signaled = False, p_wait = P_spin 0, p_wake = PW_lock\<rparr>"

text \<open>\<open>P_relock True\<close>: the timed wait ended with \<open>ETIMEDOUT\<close>, which leaves the loop.\<close>

definition pthread_park_wait :: "nat \<Rightarrow> int \<Rightarrow> answer \<Rightarrow> pthread_park \<Rightarrow> pthread_park option" where
  "pthread_park_wait lim timeout_ns a p =
     (case p_wait p of
        P_spin i \<Rightarrow>
          (if \<not> i < lim then Some (p\<lparr>p_wait := P_lock\<rparr>)
           else if mu p = None then Some (p\<lparr>mu := Some Waiter, p_wait := P_read i\<rparr>) else None)
      | P_read i \<Rightarrow> Some (p\<lparr>mu := None, p_wait := (if signaled p then P_ret True else P_spin (Suc i))\<rparr>)
      | P_lock \<Rightarrow> (if mu p = None then Some (p\<lparr>mu := Some Waiter, p_wait := P_test\<rparr>) else None)
      | P_test \<Rightarrow>
          Some (if signaled p then p\<lparr>mu := None, p_wait := P_ret True\<rparr>
                else if timeout_ns = 0 then p\<lparr>mu := None, p_wait := P_ret False\<rparr>
                else p\<lparr>p_wait := P_loop\<rparr>)
      | P_loop \<Rightarrow>
          Some (if signaled p then p\<lparr>p_wait := P_unlock True\<rparr> else p\<lparr>mu := None, p_wait := P_cond\<rparr>)
      | P_cond \<Rightarrow>
          (case a of
             Go \<Rightarrow> None
           | Spurious \<Rightarrow> Some (p\<lparr>p_wait := P_relock False\<rparr>)
           | Expired \<Rightarrow> (if 0 < timeout_ns then Some (p\<lparr>p_wait := P_relock True\<rparr>) else None))
      | P_relock over \<Rightarrow>
          (if mu p = None
           then Some (p\<lparr>mu := Some Waiter, p_wait := (if over then P_unlock (signaled p) else P_loop)\<rparr>)
           else None)
      | P_unlock b \<Rightarrow> Some (p\<lparr>mu := None, p_wait := P_ret b\<rparr>)
      | P_ret b \<Rightarrow> None)"

definition pthread_park_wake :: "pthread_park \<Rightarrow> pthread_park option" where
  "pthread_park_wake p =
     (case p_wake p of
        PW_lock \<Rightarrow> (if mu p = None then Some (p\<lparr>mu := Some Waker, p_wake := PW_set\<rparr>) else None)
      | PW_set \<Rightarrow> Some (p\<lparr>signaled := True, p_wake := PW_signal\<rparr>)
      | PW_signal \<Rightarrow>
          Some (p\<lparr>p_wait := (if p_wait p = P_cond then P_relock False else p_wait p), p_wake := PW_unlock\<rparr>)
      | PW_unlock \<Rightarrow> Some (p\<lparr>mu := None, p_wake := PW_done\<rparr>)
      | PW_done \<Rightarrow> None)"

definition pthread_holds :: "pthread_wait_pc \<Rightarrow> bool" where
  "pthread_holds pc = (case pc of P_read i \<Rightarrow> True | P_test \<Rightarrow> True | P_loop \<Rightarrow> True | P_unlock b \<Rightarrow> True | _ \<Rightarrow> False)"

definition waker_holds :: "pthread_wake_pc \<Rightarrow> bool" where
  "waker_holds pc = (case pc of PW_set \<Rightarrow> True | PW_signal \<Rightarrow> True | PW_unlock \<Rightarrow> True | _ \<Rightarrow> False)"

definition waker_set :: "pthread_wake_pc \<Rightarrow> bool" where
  "waker_set pc = (case pc of PW_signal \<Rightarrow> True | PW_unlock \<Rightarrow> True | PW_done \<Rightarrow> True | _ \<Rightarrow> False)"

text \<open>What the waiter's program point says about the signal, the waker and the timeout.\<close>

definition waiter_ok :: "int \<Rightarrow> pthread_wait_pc \<Rightarrow> pthread_wake_pc \<Rightarrow> bool" where
  "waiter_ok timeout_ns pc wpc =
     (case pc of
        P_cond \<Rightarrow> wpc \<noteq> PW_unlock \<and> wpc \<noteq> PW_done
      | P_relock over \<Rightarrow> over \<longrightarrow> 0 \<le> timeout_ns
      | P_unlock b \<Rightarrow> b = waker_set wpc \<and> (\<not> b \<longrightarrow> 0 \<le> timeout_ns)
      | P_ret b \<Rightarrow> if b then waker_set wpc else 0 \<le> timeout_ns
      | _ \<Rightarrow> True)"

definition pthread_inv :: "int \<Rightarrow> pthread_park \<Rightarrow> bool" where
  "pthread_inv timeout_ns p \<longleftrightarrow>
     mu p = (if pthread_holds (p_wait p) then Some Waiter else if waker_holds (p_wake p) then Some Waker else None) \<and>
     \<not> (pthread_holds (p_wait p) \<and> waker_holds (p_wake p)) \<and>
     signaled p = waker_set (p_wake p) \<and> waiter_ok timeout_ns (p_wait p) (p_wake p)"

definition pthread_result :: "pthread_park \<Rightarrow> bool option" where
  "pthread_result p = (case p_wait p of P_ret b \<Rightarrow> Some b | _ \<Rightarrow> None)"

definition pthread_work :: "nat \<Rightarrow> pthread_park \<Rightarrow> nat" where
  "pthread_work lim p =
     (case p_wait p of P_spin i \<Rightarrow> 8 + 2 * (lim - i) | P_read i \<Rightarrow> 7 + 2 * (lim - i) | P_lock \<Rightarrow> 6 | P_test \<Rightarrow> 5
      | P_relock b \<Rightarrow> 4 | P_loop \<Rightarrow> 3 | P_unlock b \<Rightarrow> 2 | _ \<Rightarrow> 0)"

lemmas pthread_defs = pthread_inv_def pthread_park_wait_def pthread_park_wake_def pthread_result_def
  pthread_holds_def pthread_work_def waker_holds_def waker_set_def waiter_ok_def

lemma pthread_wait_inv:
  assumes "pthread_inv ns p" "pthread_park_wait lim ns a p = Some p'"
  shows "pthread_inv ns p'"
proof (cases p)
  case (fields m sg pc wpc)
  show ?thesis
    using assms unfolding fields
    by (cases pc; cases wpc) (auto simp: pthread_defs split: if_splits answer.splits)
qed

lemma pthread_wake_inv:
  assumes "pthread_inv ns p" "pthread_park_wake p = Some p'"
  shows "pthread_inv ns p'"
proof (cases p)
  case (fields m sg pc wpc)
  show ?thesis
    using assms unfolding fields
    by (cases pc; cases wpc) (auto simp: pthread_defs split: if_splits)
qed

lemma pthread_wait_keeps: "pthread_park_wait lim ns a p = Some p' \<Longrightarrow> p_wake p' = p_wake p"
  by (cases "p_wait p"; cases a) (auto simp: pthread_park_wait_def split: if_splits)

lemma pthread_progress:
  assumes "pthread_inv ns p" "p_wake p = PW_done" "pthread_result p = None"
  shows "\<exists>p'. pthread_park_wait lim ns Go p = Some p' \<and>
      (pthread_result p' = Some True \<or> pthread_result p' = None \<and> pthread_work lim p' < pthread_work lim p)"
proof (cases p)
  case (fields m sg pc wpc)
  show ?thesis
    using assms unfolding fields by (cases pc) (auto simp: pthread_defs)
qed

interpretation pthread: parking "pthread_inv ns" signaled "\<lambda>p. p_wake p = PW_done"
  "\<lambda>p. p_wait p = P_cond" pthread_result "0 \<le> ns" "pthread_park_wait lim ns" pthread_park_wake "pthread_work lim"
  for ns lim
proof unfold_locales
  fix p :: pthread_park
  assume p: "pthread_inv ns p"
  show "pthread_result p = Some True \<Longrightarrow> signaled p" "pthread_result p = Some False \<Longrightarrow> 0 \<le> ns"
    "p_wake p = PW_done \<Longrightarrow> signaled p \<and> p_wait p \<noteq> P_cond"
    using p by (auto simp: pthread_defs split: pthread_wait_pc.splits if_splits)
qed (blast intro: pthread_wait_inv pthread_wake_inv pthread_progress | simp add: pthread_wait_keeps)+

text \<open>
  The absolute time until which a timed wait sleeps, in seconds and nanoseconds; \<open>timeout_ns\<close>
  is positive here.
\<close>

definition cond_deadline :: "int \<times> int \<Rightarrow> int \<Rightarrow> int \<times> int" where
  "cond_deadline now timeout_ns =
     (let sec = fst now + timeout_ns div 1000000000; nsec = snd now + timeout_ns mod 1000000000
      in if 1000000000 \<le> nsec then (sec + 1, nsec - 1000000000) else (sec, nsec))"

lemma cond_deadline_exact:
  assumes "0 \<le> snd now" "snd now < 1000000000"
  shows "0 \<le> snd (cond_deadline now ns) \<and> snd (cond_deadline now ns) < 1000000000 \<and>
    fst (cond_deadline now ns) * 1000000000 + snd (cond_deadline now ns) =
      fst now * 1000000000 + snd now + ns"
proof -
  define q r where "q = ns div 1000000000" and "r = ns mod 1000000000"
  have "ns = q * 1000000000 + r" "0 \<le> r" "r < 1000000000"
    unfolding q_def r_def by simp_all
  with assms show ?thesis
    unfolding cond_deadline_def Let_def q_def [symmetric] r_def [symmetric]
    by (cases "1000000000 \<le> snd now + r") simp_all
qed

section \<open>No lost wake-up\<close>

lemma park_inits: "futex_inv ns futex_park_init" "pthread_inv ns pthread_park_init"
  by (simp_all add: futex_inv_def futex_park_init_def pthread_inv_def pthread_park_init_def pthread_defs)


text \<open>The waiter is asleep when the wake arrives; no spinning, no timeout.\<close>

fun park_exec :: "(answer \<Rightarrow> 'p \<Rightarrow> 'p option) \<Rightarrow> ('p \<Rightarrow> 'p option) \<Rightarrow> answer option list \<Rightarrow> 'p \<Rightarrow> 'p option" where
  "park_exec wait wake [] p = Some p"
| "park_exec wait wake (x # xs) p =
     (case (case x of Some a \<Rightarrow> wait a p | None \<Rightarrow> wake p) of None \<Rightarrow> None | Some p1 \<Rightarrow> park_exec wait wake xs p1)"

lemma park_exec_reach:
  "park_reach wait wake p0 p \<Longrightarrow> park_exec wait wake xs p = Some p' \<Longrightarrow> park_reach wait wake p0 p'"
  by (induction xs arbitrary: p) (auto split: option.splits intro: park_reach.intros)


end
