(* ===== verification/Dp_Types.thy ===== *)
theory Dp_Types
  imports Fifo_Spec Ring_Lf
begin

text \<open>
  The data-plane self-test \<open>examples/dplane_pipeline.c\<close>: its types, the polling modes and
  the parsers of its command line options. Strings are character lists; \<open>strtol\<close> and
  \<open>strtoul\<close> in base 10 return the value and the rest of the string.
\<close>

section \<open>Types\<close>

datatype path_id =
    PATH_TUN_FORWARD_ENC_TUNNEL
  | PATH_TUNNEL_ENC_FORWARD_TUN
  | PATH_TUNNEL_FORWARD_TUN
  | PATH_TUN_FORWARD_TUNNEL
  | PATH_TUNNEL_FORWARD_OAM
  | PATH_OAM_FORWARD_TUNNEL

definition PATH_COUNT :: nat where
  "PATH_COUNT = 6"

text \<open>The enumerators in the order of their values.\<close>

definition all_paths :: "path_id list" where
  "all_paths =
     [PATH_TUN_FORWARD_ENC_TUNNEL, PATH_TUNNEL_ENC_FORWARD_TUN, PATH_TUNNEL_FORWARD_TUN,
      PATH_TUN_FORWARD_TUNNEL, PATH_TUNNEL_FORWARD_OAM, PATH_OAM_FORWARD_TUNNEL]"

record pkt =
  seq :: u32
  path :: path_id

record done_msg =
  d_path :: path_id
  d_seq :: u32
  done_ns :: int

text \<open>The packet channels of \<open>links_t\<close> and \<open>test_io_t\<close>, and the completion channels.\<close>

datatype link =
    Tun_to_forward | Forward_to_enc | Enc_to_tunnel | Tunnel_to_enc | Enc_to_forward
  | Forward_to_tun | Tunnel_to_forward | Forward_to_oam | Oam_to_forward | Forward_to_tunnel
  | Inj_tun | Inj_tunnel | Inj_oam

datatype done_link = Done_tun | Done_tunnel | Done_oam

datatype poll_mode = POLL_SPIN | POLL_YIELD | POLL_BACKOFF | POLL_BLOCK

record path_stat =
  enabled :: bool
  sent :: u64
  recv :: u64
  dup :: u64
  lost :: u64
  next_expected :: u32

text \<open>
  The configuration; \<open>duration\<close> is the length of a timed run in nanoseconds, \<open>None\<close> for a
  run by count.
\<close>

record run_config =
  path_enabled :: "path_id \<Rightarrow> bool"
  count :: u64
  duration :: "int option"
  interval_usec :: u32
  parallel :: bool
  poll_mode_cfg :: poll_mode
  block_wait_cfg :: u32

definition path_name :: "path_id \<Rightarrow> string" where
  "path_name p =
     (case p of
        PATH_TUN_FORWARD_ENC_TUNNEL \<Rightarrow> ''tun->forward->enc->tunnel''
      | PATH_TUNNEL_ENC_FORWARD_TUN \<Rightarrow> ''tunnel->enc->forward->tun''
      | PATH_TUNNEL_FORWARD_TUN \<Rightarrow> ''tunnel->forward->tun''
      | PATH_TUN_FORWARD_TUNNEL \<Rightarrow> ''tun->forward->tunnel''
      | PATH_TUNNEL_FORWARD_OAM \<Rightarrow> ''tunnel->forward->oam''
      | PATH_OAM_FORWARD_TUNNEL \<Rightarrow> ''oam->forward->tunnel'')"

section \<open>Poll modes\<close>

definition poll_mode_name :: "poll_mode \<Rightarrow> string" where
  "poll_mode_name mode =
     (case mode of POLL_SPIN \<Rightarrow> ''spin'' | POLL_YIELD \<Rightarrow> ''yield'' | POLL_BACKOFF \<Rightarrow> ''backoff''
      | POLL_BLOCK \<Rightarrow> ''block'')"

text \<open>\<open>None\<close> is the invalid mode \<open>(poll_mode_t)-1\<close>.\<close>

definition parse_poll_mode :: "string \<Rightarrow> poll_mode option" where
  "parse_poll_mode s =
     (if s = ''spin'' then Some POLL_SPIN
      else if s = ''yield'' then Some POLL_YIELD
      else if s = ''backoff'' then Some POLL_BACKOFF
      else if s = ''block'' then Some POLL_BLOCK
      else None)"

text \<open>What an idle thread does before it polls again.\<close>

datatype wait = No_wait | Pause | Yield | Sleep u32

text \<open>\<open>poll_idle\<close>: the wait and the new idle count.\<close>

definition poll_idle :: "poll_mode \<Rightarrow> u32 \<Rightarrow> int \<Rightarrow> wait \<times> int" where
  "poll_idle mode block_wait_usec idle_spins =
     (case mode of
        POLL_SPIN \<Rightarrow> (No_wait, idle_spins)
      | POLL_YIELD \<Rightarrow> (Yield, idle_spins)
      | POLL_BACKOFF \<Rightarrow>
          (if idle_spins < 40 then Pause else if idle_spins < 200 then Yield else Sleep 100,
           idle_spins + 1)
      | POLL_BLOCK \<Rightarrow>
          (if idle_spins < 40 then Pause else if idle_spins < 200 then Yield
           else Sleep (if 0 < block_wait_usec then block_wait_usec else 1),
           idle_spins + 1))"

section \<open>Numbers in options\<close>

definition is_digit :: "char \<Rightarrow> bool" where
  "is_digit c \<longleftrightarrow> 48 \<le> (of_char c :: nat) \<and> (of_char c :: nat) \<le> 57"

definition digit_val :: "char \<Rightarrow> nat" where
  "digit_val c = of_char c - 48"

definition is_space :: "char \<Rightarrow> bool" where
  "is_space c \<longleftrightarrow> c = CHR '' '' \<or> (9 \<le> (of_char c :: nat) \<and> (of_char c :: nat) \<le> 13)"

text \<open>The digits at the front of a string, read in base 10, and the rest.\<close>

definition read_digits :: "string \<Rightarrow> nat \<times> string" where
  "read_digits s = (foldl (\<lambda>n c. 10 * n + digit_val c) 0 (takeWhile is_digit s), dropWhile is_digit s)"

text \<open>
  The common part of \<open>strtol\<close> and \<open>strtoul\<close>: white space, an optional sign, digits;
  \<open>None\<close> when there are no digits (then \<open>end == start\<close>).
\<close>

definition read_number :: "string \<Rightarrow> (bool \<times> nat \<times> string) option" where
  "read_number s =
     (let s1 = dropWhile is_space s;
          neg = (s1 \<noteq> [] \<and> hd s1 = CHR ''-'');
          s2 = (if s1 \<noteq> [] \<and> (hd s1 = CHR ''-'' \<or> hd s1 = CHR ''+'') then tl s1 else s1)
      in if s2 \<noteq> [] \<and> is_digit (hd s2)
         then (case read_digits s2 of (n, rest) \<Rightarrow> Some (neg, n, rest))
         else None)"

definition strtol :: "string \<Rightarrow> (int \<times> string) option" where
  "strtol s =
     map_option
       (\<lambda>(neg, n, rest). (max (- (2 ^ 63)) (min (2 ^ 63 - 1) (if neg then - int n else int n)), rest))
       (read_number s)"

definition strtoul :: "string \<Rightarrow> (u64 \<times> string) option" where
  "strtoul s =
     map_option
       (\<lambda>(neg, n, rest).
          (if 2 ^ 64 \<le> n then 2 ^ 64 - 1 else if neg then - of_nat n else of_nat n, rest))
       (read_number s)"

section \<open>Option parsers\<close>

text \<open>
  \<open>parse_mode_opt\<close>: the mode and, for \<open>block:USEC\<close>, the wait; \<open>None\<close> for the result -1. The
  name before a colon must fit \<open>char name[16]\<close>.
\<close>

definition parse_mode_opt :: "string \<Rightarrow> (poll_mode \<times> u32 option) option" where
  "parse_mode_opt s =
     (if CHR '':'' \<in> set s then
        (let name = takeWhile (\<lambda>c. c \<noteq> CHR '':'') s; arg = tl (dropWhile (\<lambda>c. c \<noteq> CHR '':'') s)
         in if length name = 0 \<or> 16 \<le> length name then None
            else
              (case parse_poll_mode name of
                 None \<Rightarrow> None
               | Some m \<Rightarrow>
                   if m \<noteq> POLL_BLOCK then None
                   else
                     (case strtoul arg of
                        None \<Rightarrow> None
                      | Some (v, rest) \<Rightarrow>
                          if rest \<noteq> [] \<or> v = 0 then None else Some (m, Some (ucast v)))))
      else (case parse_poll_mode s of None \<Rightarrow> None | Some m \<Rightarrow> Some (m, None)))"

text \<open>
  \<open>parse_path_list\<close>: the number of distinct paths and the enabled paths; \<open>None\<close> for the
  result -1. A comma may end the list.
\<close>

lemma dropWhile_shorter: "length (dropWhile P xs) \<le> length xs"
  by (induction xs) auto

lemma read_number_shorter:
  assumes "read_number s = Some (neg, n, rest)"
  shows "length rest < length s"
proof -
  define s1 where "s1 = dropWhile is_space s"
  define s2 where "s2 = (if s1 \<noteq> [] \<and> (hd s1 = CHR ''-'' \<or> hd s1 = CHR ''+'') then tl s1 else s1)"
  have "length s2 \<le> length s"
    using dropWhile_shorter [of is_space s] by (auto simp: s2_def s1_def)
  moreover have "s2 \<noteq> [] \<and> is_digit (hd s2)" "rest = dropWhile is_digit s2"
    using assms by (auto simp: read_number_def read_digits_def Let_def s1_def s2_def split: if_splits)
  then have "length rest < length s2"
    using dropWhile_shorter [of is_digit "tl s2"] by (cases s2) auto
  ultimately show ?thesis by linarith
qed

lemma strtol_shorter: "strtol s = Some (v, rest) \<Longrightarrow> length rest < length s"
  by (auto simp: strtol_def dest: read_number_shorter)

function parse_path_from ::
    "string \<Rightarrow> (path_id \<Rightarrow> bool) \<Rightarrow> nat \<Rightarrow> (nat \<times> (path_id \<Rightarrow> bool)) option" where
  "parse_path_from p en n =
     (if p = [] then Some (n, en)
      else
        (case strtol p of
           None \<Rightarrow> None
         | Some (v, rest) \<Rightarrow>
             if v < 1 \<or> int PATH_COUNT < v then None
             else
               (let i = all_paths ! nat (v - 1);
                    n1 = (if en i then n else n + 1);
                    en1 = en(i := True)
                in case rest of
                     [] \<Rightarrow> parse_path_from rest en1 n1
                   | c # cs \<Rightarrow> if c = CHR '','' then parse_path_from cs en1 n1 else None)))"
  by pat_completeness auto
termination
  by (relation "measure (\<lambda>(p, en, n). length p)") (auto dest: strtol_shorter)

definition parse_path_list :: "string \<Rightarrow> (nat \<times> (path_id \<Rightarrow> bool)) option" where
  "parse_path_list list = parse_path_from list (\<lambda>_. False) 0"

section \<open>The command line\<close>

text \<open>
  The options as \<open>getopt\<close> delivers them for the option string \<open>l:c:t:i:m:Ph\<close>; an option it
  does not know is \<open>Opt_other\<close>.
\<close>

datatype opt =
    Opt_l string | Opt_c string | Opt_t string | Opt_i string | Opt_m string
  | Opt_P | Opt_h | Opt_other

datatype args_result = Args_ok run_config | Args_help | Args_error

definition BLOCK_WAIT_USEC_DEFAULT :: u32 where
  "BLOCK_WAIT_USEC_DEFAULT = 100"

definition default_config :: run_config where
  "default_config =
     \<lparr>path_enabled = \<lambda>_. True, count = 1, duration = None, interval_usec = 0, parallel = False,
      poll_mode_cfg = POLL_SPIN, block_wait_cfg = 0\<rparr>"

text \<open>
  The value of a number option whose end is not checked: 0 when there are no digits.
\<close>

definition number_arg :: "string \<Rightarrow> u64" where
  "number_arg s = (case strtoul s of None \<Rightarrow> 0 | Some (v, _) \<Rightarrow> v)"

text \<open>
  \<open>parse_args\<close>; \<open>secs\<close> reads the floating-point argument of \<open>-t\<close> and gives the duration in
  nanoseconds, or \<open>None\<close> when it is not positive.
\<close>

fun parse_args :: "(string \<Rightarrow> int option) \<Rightarrow> opt list \<Rightarrow> run_config \<Rightarrow> args_result" where
  "parse_args secs [] cfg = Args_ok cfg"
| "parse_args secs (opt # opts) cfg =
     (case opt of
        Opt_l arg \<Rightarrow>
          (case parse_path_list arg of
             None \<Rightarrow> Args_error
           | Some (n, en) \<Rightarrow>
               if n = 0 then Args_error else parse_args secs opts (cfg\<lparr>path_enabled := en\<rparr>))
      | Opt_c arg \<Rightarrow>
          (if number_arg arg = 0 then Args_error
           else parse_args secs opts (cfg\<lparr>count := number_arg arg, duration := None\<rparr>))
      | Opt_t arg \<Rightarrow>
          (case secs arg of
             None \<Rightarrow> Args_error
           | Some ns \<Rightarrow> parse_args secs opts (cfg\<lparr>duration := Some ns\<rparr>))
      | Opt_i arg \<Rightarrow> parse_args secs opts (cfg\<lparr>interval_usec := ucast (number_arg arg)\<rparr>)
      | Opt_P \<Rightarrow> parse_args secs opts (cfg\<lparr>parallel := True\<rparr>)
      | Opt_m arg \<Rightarrow>
          (case parse_mode_opt arg of
             None \<Rightarrow> Args_error
           | Some (m, wait) \<Rightarrow>
               (let usec = (case wait of None \<Rightarrow> block_wait_cfg cfg | Some u \<Rightarrow> u);
                    usec1 = (if m = POLL_BLOCK \<and> usec = 0 then BLOCK_WAIT_USEC_DEFAULT else usec)
                in parse_args secs opts (cfg\<lparr>poll_mode_cfg := m, block_wait_cfg := usec1\<rparr>)))
      | Opt_h \<Rightarrow> Args_help
      | Opt_other \<Rightarrow> Args_error)"

end
