(* ===== verification/Dp_Stats.thy ===== *)
theory Dp_Stats
  imports Dp_Types
begin

text \<open>
  The bookkeeping of \<open>examples/dplane_pipeline.c\<close>: send timestamps and latency samples in
  growing arrays, and the per-path counters that classify every completion as in order,
  duplicate or after a gap.
\<close>

section \<open>Latency records\<close>

text \<open>
  \<open>send_ts\<close> has \<open>send_cap\<close> entries, of which zero means unset; \<open>samples\<close> holds the \<open>n\<close>
  samples written so far out of room for \<open>cap\<close>. The percentiles, computed in
  floating point, are not modelled.
\<close>

record path_latency =
  send_ts :: "int list"
  send_cap :: u64
  samples :: "u64 list"
  cap :: u64
  sum_ns :: u64

type_synonym latency_ctx = "path_id \<Rightarrow> path_latency"

text \<open>
  \<open>while (new_cap < need) new_cap *= 2\<close>, which would not end from 0, nor if the doubling
  could wrap.
\<close>

partial_function (option) grow_cap :: "u64 \<Rightarrow> u64 \<Rightarrow> u64 option" where
  "grow_cap new_cap need = (if new_cap < need then grow_cap (new_cap * 2) need else Some new_cap)"

declare grow_cap.simps [code]

text \<open>
  \<open>latency_grow_send\<close>; \<open>realloc\<close> tells whether an allocation of that many bytes succeeds.
  \<open>None\<close> when the doubling loop does not end.
\<close>

definition latency_grow_send ::
    "(u64 \<Rightarrow> bool) \<Rightarrow> path_latency \<Rightarrow> u32 \<Rightarrow> (bool \<times> path_latency) option" where
  "latency_grow_send realloc lat seqn =
     (let need = ucast seqn + 1 :: u64
      in if need \<le> send_cap lat then Some (True, lat)
         else
           (case grow_cap (if send_cap lat \<noteq> 0 then send_cap lat else 4096) need of
              None \<Rightarrow> None
            | Some new_cap \<Rightarrow>
                if \<not> realloc (new_cap * 8) then Some (False, lat)
                else Some (True, lat\<lparr>send_ts := send_ts lat @ replicate (unat (new_cap - send_cap lat)) 0,
                                     send_cap := new_cap\<rparr>)))"

definition latency_push :: "(u64 \<Rightarrow> bool) \<Rightarrow> path_latency \<Rightarrow> u64 \<Rightarrow> bool \<times> path_latency" where
  "latency_push realloc lat ns =
     (let new_cap = (if cap lat \<noteq> 0 then cap lat * 2 else 4096);
          full = (cap lat \<le> of_nat (length (samples lat)))
      in if full \<and> \<not> realloc (new_cap * 8) then (False, lat)
         else
           (let lat1 = (if full then lat\<lparr>cap := new_cap\<rparr> else lat)
            in (True, lat1\<lparr>samples := samples lat1 @ [ns], sum_ns := sum_ns lat1 + ns\<rparr>)))"

definition no_latency :: path_latency where
  "no_latency = \<lparr>send_ts = [], send_cap = 0, samples = [], cap = 0, sum_ns = 0\<rparr>"

text \<open>\<open>latency_ctx_init\<close>, with both allocations of every enabled path.\<close>

definition latency_ctx_init :: "(u64 \<Rightarrow> bool) \<Rightarrow> (path_id \<Rightarrow> path_stat) \<Rightarrow> run_config \<Rightarrow> latency_ctx option" where
  "latency_ctx_init malloc_ok stats cfg =
     (let hint = (if duration cfg \<noteq> None then 4096 else if count cfg \<noteq> 0 then count cfg else 1)
      in if list_ex (\<lambda>p. enabled (stats p)) all_paths \<and> \<not> malloc_ok (hint * 8) then None
         else Some (\<lambda>p. if enabled (stats p)
                        then \<lparr>send_ts = replicate (unat hint) 0, send_cap = hint, samples = [],
                              cap = hint, sum_ns = 0\<rparr>
                        else no_latency))"

definition latency_on_send ::
    "(u64 \<Rightarrow> bool) \<Rightarrow> int \<Rightarrow> path_id \<Rightarrow> u32 \<Rightarrow> latency_ctx \<Rightarrow> latency_ctx option" where
  "latency_on_send realloc now p seqn ctx =
     (case latency_grow_send realloc (ctx p) seqn of
        None \<Rightarrow> None
      | Some (ok, lat) \<Rightarrow>
          Some (if ok then ctx(p := lat\<lparr>send_ts := (send_ts lat)[unat seqn := now]\<rparr>) else ctx))"

definition latency_on_recv ::
    "(u64 \<Rightarrow> bool) \<Rightarrow> path_id \<Rightarrow> u32 \<Rightarrow> int \<Rightarrow> latency_ctx \<Rightarrow> latency_ctx" where
  "latency_on_recv realloc p seqn t1 ctx =
     (let lat = ctx p
      in if send_cap lat \<le> ucast seqn \<or> send_ts lat ! unat seqn = 0 then ctx
         else
           (let t0 = send_ts lat ! unat seqn;
                lat1 = lat\<lparr>send_ts := (send_ts lat)[unat seqn := 0]\<rparr>;
                delta = (if t0 < t1 then of_int (t1 - t0) else 1)
            in ctx(p := snd (latency_push realloc lat1 delta))))"

section \<open>Completion counters\<close>

text \<open>
  \<open>stat_on_recv\<close>: the counters of one path after a completion with sequence number
  \<open>seqn\<close>, and whether the latency of this completion is recorded.
\<close>

definition stat_on_recv :: "u32 \<Rightarrow> path_stat \<Rightarrow> path_stat \<times> bool" where
  "stat_on_recv seqn stat =
     (if \<not> enabled stat then (stat, False)
      else if seqn < next_expected stat then (stat\<lparr>dup := dup stat + 1\<rparr>, False)
      else if next_expected stat < seqn then
        (stat\<lparr>lost := lost stat + ucast (seqn - next_expected stat), next_expected := seqn + 1,
              recv := recv stat + 1\<rparr>, True)
      else (stat\<lparr>next_expected := next_expected stat + 1, recv := recv stat + 1\<rparr>, True))"

definition total_sent :: "(path_id \<Rightarrow> path_stat) \<Rightarrow> u64" where
  "total_sent stats = foldl (\<lambda>n p. if enabled (stats p) then n + sent (stats p) else n) 0 all_paths"

definition total_recv :: "(path_id \<Rightarrow> path_stat) \<Rightarrow> u64" where
  "total_recv stats = foldl (\<lambda>n p. if enabled (stats p) then n + recv (stats p) else n) 0 all_paths"

definition all_drained :: "(path_id \<Rightarrow> path_stat) \<Rightarrow> bool" where
  "all_drained stats \<longleftrightarrow>
     list_all (\<lambda>p. \<not> enabled (stats p) \<or> \<not> recv (stats p) + dup (stats p) < sent (stats p)) all_paths"

definition path_drained :: "path_stat \<Rightarrow> bool" where
  "path_drained stat \<longleftrightarrow> sent stat \<le> recv stat + dup stat"

definition enabled_path_count :: "(path_id \<Rightarrow> path_stat) \<Rightarrow> nat" where
  "enabled_path_count stats = length (filter (\<lambda>p. enabled (stats p)) all_paths)"

definition path_ok :: "path_stat \<Rightarrow> bool" where
  "path_ok stat \<longleftrightarrow>
     (if \<not> enabled stat then True else lost stat = 0 \<and> dup stat = 0 \<and> recv stat = sent stat)"

end
