(* ===== verification/Dp_Net.thy ===== *)
theory Dp_Net
  imports Dp_Stats
begin

text \<open>
  The threads of the data-plane self-tests \<open>examples/dplane_pipeline.c\<close> and
  \<open>examples/dplane_pipeline_mpsc.c\<close> as step machines: the five nodes, which poll their input
  channels and forward packets, and the main thread, which injects packets, collects
  completions and waits for the pipelines to drain. The two programs differ in their channels
  and routing only, so the machines take the network of channels as an argument. A channel
  operation is one step on a bounded FIFO queue, as \<open>chan_try_recv\<close> and \<open>chan_send\<close> are shown
  to be; a blocking send on a full channel is disabled, on a closed one it fails.
\<close>

section \<open>State\<close>

datatype node = N_tun | N_forward | N_enc | N_tunnel | N_oam

text \<open>What a handler does with a packet: send it on, report it done, or drop it.\<close>

datatype ('l, 'd) action = SendPkt 'l pkt | SendDone 'd done_msg | Drop

text \<open>
  A node looks at \<open>stop\<close>, polls its ports in order, sends what the handler produced, or
  tests whether all ports are closed and idles.
\<close>

datatype ('l, 'd) node_pc = Loop | Poll nat | Send "('l, 'd) action" | Idle_check | Exited

text \<open>
  The main thread. \<open>run_traffic_parallel\<close> repeats rounds over all paths (\<open>Par\<close>: rounds
  finished, path index), \<open>run_traffic_sequential\<close> finishes one path after the other (\<open>Seq\<close>:
  path index, packets sent). Every injection is followed by one look at the completion
  channels; a drain loop repeats this until its goal (\<open>Some\<close> path, or all paths) is reached
  or its time is over. Then \<open>main\<close> stops the nodes, closes every channel and joins them.
\<close>

datatype main_loop = Par nat nat | Seq nat nat

datatype main_pc =
    M_round nat
  | M_path nat
  | M_next main_loop
  | M_send path_id main_loop
  | M_poll nat main_loop
  | M_drain "nat option"
  | M_drain_poll nat "nat option"
  | M_close nat
  | M_stop int
  | M_close_all nat int
  | M_join int
  | M_exit int

record ('l, 'd) plane =
  link_q :: "'l \<Rightarrow> pkt list"
  link_closed :: "'l \<Rightarrow> bool"
  done_q :: "'d \<Rightarrow> done_msg list"
  done_closed :: "'d \<Rightarrow> bool"
  node_pcs :: "node \<Rightarrow> ('l, 'd) node_pc"
  node_idle_cnt :: "node \<Rightarrow> int"
  main_pcs :: main_pc
  stats :: "path_id \<Rightarrow> path_stat"
  lat :: latency_ctx
  cfg :: run_config
  deadline :: int
  stop :: bool

section \<open>Channels\<close>

text \<open>
  What a program fixes about its channels: their capacities, where the packets of a path are
  injected, the order in which the completion channels are polled, the packet channels closed
  once the injection is over, and the order in which the packet channels are closed at the end.
\<close>

record ('l, 'd) net =
  link_cap :: "'l \<Rightarrow> nat"
  done_cap :: "'d \<Rightarrow> nat"
  inject_to :: "path_id \<Rightarrow> 'l"
  dones :: "'d list"
  early_close :: "'l list"
  link_order :: "'l list"

text \<open>
  A packet channel as its client sees it: a non-blocking receive, and a send that succeeds
  (\<open>Some True\<close>), fails on a closed channel (\<open>Some False\<close>) or waits (\<open>None\<close>).
\<close>

definition link_get :: "'l \<Rightarrow> ('l, 'd) plane \<Rightarrow> pkt option \<times> ('l, 'd) plane" where
  "link_get l pl =
     (case link_q pl l of [] \<Rightarrow> (None, pl) | x # xs \<Rightarrow> (Some x, pl\<lparr>link_q := (link_q pl)(l := xs)\<rparr>))"

definition link_put :: "('l, 'd) net \<Rightarrow> 'l \<Rightarrow> pkt \<Rightarrow> ('l, 'd) plane \<Rightarrow> (bool \<times> ('l, 'd) plane) option" where
  "link_put T l x pl =
     (if link_closed pl l then Some (False, pl)
      else if length (link_q pl l) < link_cap T l
      then Some (True, pl\<lparr>link_q := (link_q pl)(l := link_q pl l @ [x])\<rparr>)
      else None)"

definition done_get :: "'d \<Rightarrow> ('l, 'd) plane \<Rightarrow> done_msg option \<times> ('l, 'd) plane" where
  "done_get d pl =
     (case done_q pl d of [] \<Rightarrow> (None, pl) | x # xs \<Rightarrow> (Some x, pl\<lparr>done_q := (done_q pl)(d := xs)\<rparr>))"

definition done_put :: "('l, 'd) net \<Rightarrow> 'd \<Rightarrow> done_msg \<Rightarrow> ('l, 'd) plane \<Rightarrow> (bool \<times> ('l, 'd) plane) option" where
  "done_put T d x pl =
     (if done_closed pl d then Some (False, pl)
      else if length (done_q pl d) < done_cap T d
      then Some (True, pl\<lparr>done_q := (done_q pl)(d := done_q pl d @ [x])\<rparr>)
      else None)"

section \<open>Nodes\<close>

definition ports_have_backlog :: "'l list \<Rightarrow> ('l, 'd) plane \<Rightarrow> bool" where
  "ports_have_backlog ls pl = list_ex (\<lambda>l. 0 < length (link_q pl l)) ls"

definition node_idle :: "'l list \<Rightarrow> int \<Rightarrow> ('l, 'd) plane \<Rightarrow> wait \<times> int" where
  "node_idle ports idle pl =
     (if poll_mode_cfg (cfg pl) = POLL_BLOCK \<and> ports_have_backlog ports pl
      then (Pause, idle)
      else poll_idle (poll_mode_cfg (cfg pl)) (block_wait_cfg (cfg pl)) idle)"

abbreviation node_at :: "node \<Rightarrow> ('l, 'd) node_pc \<Rightarrow> ('l, 'd) plane \<Rightarrow> ('l, 'd) plane" where
  "node_at n pc pl \<equiv> pl\<lparr>node_pcs := (node_pcs pl)(n := pc)\<rparr>"

text \<open>Perform an action; \<open>None\<close> while the channel is full. A failed send loses the packet.\<close>

definition perform :: "('l, 'd) net \<Rightarrow> ('l, 'd) action \<Rightarrow> ('l, 'd) plane \<Rightarrow> ('l, 'd) plane option" where
  "perform T a pl =
     (case a of
        SendPkt l p \<Rightarrow> map_option snd (link_put T l p pl)
      | SendDone d m \<Rightarrow> map_option snd (done_put T d m pl)
      | Drop \<Rightarrow> Some pl)"

text \<open>
  One step of a node's loop, which all nodes share: the ports in polling order, the closed test
  and the treatment of a packet are the node's own. The idle count restarts at 0 after work;
  \<open>now\<close> is the clock.
\<close>

definition node_loop ::
    "('l, 'd) net \<Rightarrow> node \<Rightarrow> 'l list \<Rightarrow> (('l, 'd) plane \<Rightarrow> bool) \<Rightarrow> ('l \<Rightarrow> int \<Rightarrow> pkt \<Rightarrow> ('l, 'd) action) \<Rightarrow>
      int \<Rightarrow> ('l, 'd) plane \<Rightarrow> ('l, 'd) plane option" where
  "node_loop T n ports all_closed handle now pl =
     (case node_pcs pl n of
        Loop \<Rightarrow> Some (node_at n (if stop pl then Exited else Poll 0) pl)
      | Poll i \<Rightarrow>
          (if i < length ports then
             (case link_get (ports ! i) pl of
                (Some p, pl1) \<Rightarrow> Some (node_at n (Send (handle (ports ! i) now p)) pl1)
              | (None, pl1) \<Rightarrow> Some (node_at n (Poll (Suc i)) pl1))
           else Some (node_at n Idle_check pl))
      | Send a \<Rightarrow>
          map_option
            (\<lambda>pl1. node_at n Loop (pl1\<lparr>node_idle_cnt := (node_idle_cnt pl1)(n := 0)\<rparr>))
            (perform T a pl)
      | Idle_check \<Rightarrow>
          Some (if all_closed pl then node_at n Exited pl
                else node_at n Loop
                  (pl\<lparr>node_idle_cnt := (node_idle_cnt pl)(n := snd (node_idle ports (node_idle_cnt pl n) pl))\<rparr>))
      | Exited \<Rightarrow> None)"

section \<open>The main thread\<close>

abbreviation main_at :: "main_pc \<Rightarrow> ('l, 'd) plane \<Rightarrow> ('l, 'd) plane" where
  "main_at pc pl \<equiv> pl\<lparr>main_pcs := pc\<rparr>"

text \<open>
  \<open>inject_packet\<close> in two steps: note the time of sending, then send the packet, which may
  have to wait.
\<close>

definition inject_note :: "(u64 \<Rightarrow> bool) \<Rightarrow> int \<Rightarrow> path_id \<Rightarrow> ('l, 'd) plane \<Rightarrow> ('l, 'd) plane option" where
  "inject_note realloc now p pl =
     map_option (\<lambda>ctx. pl\<lparr>lat := ctx\<rparr>) (latency_on_send realloc now p (ucast (sent (stats pl p))) (lat pl))"

definition inject_packet :: "('l, 'd) net \<Rightarrow> path_id \<Rightarrow> ('l, 'd) plane \<Rightarrow> (bool \<times> ('l, 'd) plane) option" where
  "inject_packet T p pl =
     (case link_put T (inject_to T p) \<lparr>seq = ucast (sent (stats pl p)), path = p\<rparr> pl of
        None \<Rightarrow> None
      | Some (False, pl1) \<Rightarrow> Some (False, pl1)
      | Some (True, pl1) \<Rightarrow>
          Some (True, pl1\<lparr>stats := (stats pl1)(p := (stats pl1 p)\<lparr>sent := sent (stats pl1 p) + 1\<rparr>)\<rparr>))"

text \<open>One receive of \<open>poll_done_try\<close>.\<close>

definition poll_done_try :: "(u64 \<Rightarrow> bool) \<Rightarrow> 'd \<Rightarrow> ('l, 'd) plane \<Rightarrow> ('l, 'd) plane" where
  "poll_done_try realloc d pl =
     (case done_get d pl of
        (None, pl1) \<Rightarrow> pl1
      | (Some m, pl1) \<Rightarrow>
          (let p = d_path m; (st, rec) = stat_on_recv (d_seq m) (stats pl1 p)
           in pl1\<lparr>stats := (stats pl1)(p := st),
                  lat := (if rec then latency_on_recv realloc p (d_seq m) (done_ns m) (lat pl1)
                          else lat pl1)\<rparr>))"

definition DRAIN_SEC :: int where
  "DRAIN_SEC = 30"

definition drain_done :: "nat option \<Rightarrow> ('l, 'd) plane \<Rightarrow> bool" where
  "drain_done goal pl =
     (case goal of Some i \<Rightarrow> path_drained (stats pl (all_paths ! i)) | None \<Rightarrow> all_drained (stats pl))"

text \<open>The loop heads of \<open>run_traffic_parallel\<close> and \<open>run_traffic_sequential\<close>: go on injecting?\<close>

definition go_on_injecting :: "int \<Rightarrow> nat \<Rightarrow> ('l, 'd) plane \<Rightarrow> bool" where
  "go_on_injecting now n pl =
     (case duration (cfg pl) of Some ns \<Rightarrow> now < deadline pl | None \<Rightarrow> n < unat (count (cfg pl)))"

definition start_clock :: "int \<Rightarrow> ('l, 'd) plane \<Rightarrow> ('l, 'd) plane" where
  "start_clock now pl =
     (case duration (cfg pl) of Some ns \<Rightarrow> pl\<lparr>deadline := now + ns\<rparr> | None \<Rightarrow> pl)"

text \<open>The next injection of a loop, or what follows the loop.\<close>

definition main_next :: "(u64 \<Rightarrow> bool) \<Rightarrow> int \<Rightarrow> main_loop \<Rightarrow> ('l, 'd) plane \<Rightarrow> ('l, 'd) plane option" where
  "main_next realloc now k pl =
     (case k of
        Par r i \<Rightarrow>
          (if \<not> i < PATH_COUNT then Some (main_at (M_round (Suc r)) pl)
           else if \<not> enabled (stats pl (all_paths ! i)) then Some (main_at (M_next (Par r (Suc i))) pl)
           else map_option (main_at (M_send (all_paths ! i) k)) (inject_note realloc now (all_paths ! i) pl))
      | Seq i n \<Rightarrow>
          (if go_on_injecting now n pl
           then map_option (main_at (M_send (all_paths ! i) k)) (inject_note realloc now (all_paths ! i) pl)
           else Some (main_at (M_drain (Some i)) (pl\<lparr>deadline := now + DRAIN_SEC * 1000000000\<rparr>))))"

definition close_link :: "'l \<Rightarrow> ('l, 'd) plane \<Rightarrow> ('l, 'd) plane" where
  "close_link l pl = pl\<lparr>link_closed := (link_closed pl)(l := True)\<rparr>"

text \<open>\<open>close_all\<close>, one channel per step: the packet channels, then the completion channels.\<close>

definition close_nth :: "('l, 'd) net \<Rightarrow> nat \<Rightarrow> ('l, 'd) plane \<Rightarrow> ('l, 'd) plane" where
  "close_nth T k pl =
     (if k < length (link_order T) then close_link (link_order T ! k) pl
      else pl\<lparr>done_closed := (done_closed pl)(dones T ! (k - length (link_order T)) := True)\<rparr>)"

definition all_nodes :: "node list" where
  "all_nodes = [N_tun, N_forward, N_enc, N_tunnel, N_oam]"

definition exit_code :: "int \<Rightarrow> ('l, 'd) plane \<Rightarrow> int" where
  "exit_code rc pl =
     (if rc \<noteq> 0 then 1 else if list_all (\<lambda>p. path_ok (stats pl p)) all_paths then 0 else 1)"

text \<open>The loop of \<open>run_traffic_parallel\<close> and the loop over the paths of \<open>run_traffic_sequential\<close>.\<close>

definition run_traffic_parallel :: "int \<Rightarrow> nat \<Rightarrow> ('l, 'd) plane \<Rightarrow> ('l, 'd) plane" where
  "run_traffic_parallel now r pl =
     main_at (if go_on_injecting now r pl then M_next (Par r 0) else M_close 0) pl"

definition run_traffic_sequential :: "int \<Rightarrow> nat \<Rightarrow> ('l, 'd) plane \<Rightarrow> ('l, 'd) plane" where
  "run_traffic_sequential now i pl =
     (if \<not> i < PATH_COUNT then main_at (M_close 0) pl
      else if \<not> enabled (stats pl (all_paths ! i)) then main_at (M_path (Suc i)) pl
      else main_at (M_next (Seq i 0)) (start_clock now pl))"

text \<open>The head of the loops \<open>drain_path\<close> and \<open>drain_remaining\<close>.\<close>

definition drain_step :: "int \<Rightarrow> nat option \<Rightarrow> ('l, 'd) plane \<Rightarrow> ('l, 'd) plane" where
  "drain_step now goal pl =
     main_at
       (if \<not> now < deadline pl then M_stop (-1)
        else if drain_done goal pl then (case goal of Some i \<Rightarrow> M_path (Suc i) | None \<Rightarrow> M_stop 0)
        else M_drain_poll 0 goal) pl"

text \<open>One step of the main thread; \<open>None\<close> while a send or a join has to wait.\<close>

definition main_step :: "('l, 'd) net \<Rightarrow> (u64 \<Rightarrow> bool) \<Rightarrow> int \<Rightarrow> ('l, 'd) plane \<Rightarrow> ('l, 'd) plane option" where
  "main_step T realloc now pl =
     (case main_pcs pl of
        M_round r \<Rightarrow> Some (run_traffic_parallel now r pl)
      | M_path i \<Rightarrow> Some (run_traffic_sequential now i pl)
      | M_next k \<Rightarrow> main_next realloc now k pl
      | M_send p k \<Rightarrow>
          map_option (\<lambda>(ok, pl1). main_at (if ok then M_poll 0 k else M_stop (-1)) pl1) (inject_packet T p pl)
      | M_poll j k \<Rightarrow>
          Some (if j < length (dones T)
                then main_at (M_poll (Suc j) k) (poll_done_try realloc (dones T ! j) pl)
                else main_at (M_next (case k of Par r i \<Rightarrow> Par r (Suc i) | Seq i n \<Rightarrow> Seq i (Suc n))) pl)
      | M_drain goal \<Rightarrow> Some (drain_step now goal pl)
      | M_drain_poll j goal \<Rightarrow>
          Some (if j < length (dones T)
                then main_at (M_drain_poll (Suc j) goal) (poll_done_try realloc (dones T ! j) pl)
                else main_at (M_drain goal) pl)
      | M_close k \<Rightarrow>
          Some (if k < length (early_close T)
                then main_at (M_close (Suc k)) (close_link (early_close T ! k) pl)
                else main_at (M_drain None) (pl\<lparr>deadline := now + DRAIN_SEC * 1000000000\<rparr>))
      | M_stop rc \<Rightarrow> Some (main_at (M_close_all 0 rc) (pl\<lparr>stop := True\<rparr>))
      | M_close_all k rc \<Rightarrow>
          Some (if k < length (link_order T) + length (dones T)
                then main_at (M_close_all (Suc k) rc) (close_nth T k pl)
                else main_at (M_join rc) pl)
      | M_join rc \<Rightarrow>
          (if list_all (\<lambda>n. node_pcs pl n = Exited) all_nodes
           then Some (main_at (M_exit (exit_code rc pl)) pl) else None)
      | M_exit c \<Rightarrow> None)"

lemmas main_step_defs = main_step_def run_traffic_parallel_def run_traffic_sequential_def drain_step_def

text \<open>\<open>run_traffic\<close> chooses the loop; \<open>main\<close> starts with empty channels and zeroed counters.\<close>

definition init_stats :: "run_config \<Rightarrow> path_id \<Rightarrow> path_stat" where
  "init_stats cf p =
     \<lparr>enabled = path_enabled cf p, sent = 0, recv = 0, dup = 0, lost = 0, next_expected = 0\<rparr>"

definition run_traffic :: "run_config \<Rightarrow> main_pc" where
  "run_traffic cf =
     (if 1 < enabled_path_count (init_stats cf) \<and> \<not> parallel cf then M_path 0 else M_round 0)"

definition plane_init :: "int \<Rightarrow> latency_ctx \<Rightarrow> run_config \<Rightarrow> ('l, 'd) plane" where
  "plane_init now ctx cf =
     start_clock now
       \<lparr>link_q = \<lambda>_. [], link_closed = \<lambda>_. False, done_q = \<lambda>_. [], done_closed = \<lambda>_. False,
        node_pcs = \<lambda>_. Loop, node_idle_cnt = \<lambda>_. 0, main_pcs = run_traffic cf,
        stats = init_stats cf, lat = ctx, cfg = cf, deadline = 0, stop = False\<rparr>"

section \<open>Runs\<close>

text \<open>
  Any interleaving of the threads, \<open>nstep\<close> being the nodes of the program; the clock and the
  allocator may answer anything.
\<close>

inductive dp_reach ::
    "('l, 'd) net \<Rightarrow> (int \<Rightarrow> node \<Rightarrow> ('l, 'd) plane \<Rightarrow> ('l, 'd) plane option) \<Rightarrow> ('l, 'd) plane \<Rightarrow> ('l, 'd) plane \<Rightarrow> bool"
  for T nstep pl0 where
  start: "dp_reach T nstep pl0 pl0"
| node: "dp_reach T nstep pl0 pl \<Longrightarrow> nstep now n pl = Some pl' \<Longrightarrow> dp_reach T nstep pl0 pl'"
| main: "dp_reach T nstep pl0 pl \<Longrightarrow> main_step T realloc now pl = Some pl' \<Longrightarrow> dp_reach T nstep pl0 pl'"

lemma dp_reach_trans: "dp_reach T nstep a b \<Longrightarrow> dp_reach T nstep b c \<Longrightarrow> dp_reach T nstep a c"
  by (rotate_tac, induction rule: dp_reach.induct) (auto intro: dp_reach.intros)

text \<open>A schedule, with a clock reading for every step and an allocator that never fails.\<close>

datatype dp_event = Node_ev int node | Main_ev int

fun dp_exec ::
    "('l, 'd) net \<Rightarrow> (int \<Rightarrow> node \<Rightarrow> ('l, 'd) plane \<Rightarrow> ('l, 'd) plane option) \<Rightarrow> dp_event list \<Rightarrow>
      ('l, 'd) plane \<Rightarrow> ('l, 'd) plane option" where
  "dp_exec T nstep [] pl = Some pl"
| "dp_exec T nstep (e # es) pl =
     (case (case e of Node_ev now n \<Rightarrow> nstep now n pl | Main_ev now \<Rightarrow> main_step T (\<lambda>_. True) now pl) of
        None \<Rightarrow> None | Some pl1 \<Rightarrow> dp_exec T nstep es pl1)"

lemma dp_exec_reach: "dp_reach T nstep pl0 pl \<Longrightarrow> dp_exec T nstep es pl = Some pl' \<Longrightarrow> dp_reach T nstep pl0 pl'"
  by (induction T nstep es pl rule: dp_exec.induct)
    (auto intro: dp_reach.intros split: option.splits dp_event.splits)

end
