(* ===== verification/Dp_Inv.thy ===== *)
theory Dp_Inv
  imports Dp_Net
begin

text \<open>
  The packets in flight in a network of nodes and channels. The locale states what a program has
  to provide (a route for every path that its handlers follow); inside it, every packet is on
  its route and the steps of the nodes and of the main thread change the packets in flight
  only at the two ends.
\<close>

section \<open>Routes\<close>

datatype ('l, 'd) place = At_link 'l | At_node node | At_done 'd

type_synonym ('l, 'd) routes = "path_id \<Rightarrow> ('l, 'd) place list"

text \<open>Two places that follow each other on the route of a path.\<close>

definition hop :: "('l, 'd) routes \<Rightarrow> path_id \<Rightarrow> ('l, 'd) place \<Rightarrow> ('l, 'd) place \<Rightarrow> bool" where
  "hop route p a b \<longleftrightarrow> (a, b) \<in> set (zip (route p) (tl (route p)))"

lemma hop_split: "hop route p a b \<Longrightarrow> \<exists>us vs. route p = us @ a # b # vs"
proof -
  assume "hop route p a b"
  then obtain i where "i < length (tl (route p))" "route p ! i = a" "route p ! Suc i = b"
    by (auto simp: hop_def set_zip nth_tl)
  then have "route p = take i (route p) @ a # b # drop (Suc (Suc i)) (route p)"
    by (metis Cons_nth_drop_Suc Suc_lessD append_take_drop_id length_tl less_diff_conv Suc_eq_plus1)
  then show ?thesis by blast
qed

lemma hop_places: "hop route p a b \<Longrightarrow> a \<in> set (route p) \<and> b \<in> set (route p)"
  using hop_split by fastforce

section \<open>Packets in flight\<close>

text \<open>The packets at a place, with their paths; a node holds the packet it is sending.\<close>

definition action_held :: "('l, 'd) action \<Rightarrow> (path_id \<times> u32) list" where
  "action_held a =
     (case a of SendPkt l x \<Rightarrow> [(path x, seq x)] | SendDone d m \<Rightarrow> [(d_path m, d_seq m)] | Drop \<Rightarrow> [])"

definition held :: "('l, 'd) place \<Rightarrow> ('l, 'd) plane \<Rightarrow> (path_id \<times> u32) list" where
  "held c pl =
     (case c of
        At_link l \<Rightarrow> map (\<lambda>x. (path x, seq x)) (link_q pl l)
      | At_done d \<Rightarrow> map (\<lambda>m. (d_path m, d_seq m)) (done_q pl d)
      | At_node n \<Rightarrow>
          (case node_pcs pl n of Send a \<Rightarrow> action_held a | _ \<Rightarrow> []))"

definition seqs :: "path_id \<Rightarrow> ('l, 'd) plane \<Rightarrow> ('l, 'd) place \<Rightarrow> u32 list" where
  "seqs p pl c = map snd (filter (\<lambda>x. fst x = p) (held c pl))"

text \<open>The sequence numbers of a path in flight, the oldest (closest to the end) first.\<close>

definition flight :: "('l, 'd) routes \<Rightarrow> path_id \<Rightarrow> ('l, 'd) plane \<Rightarrow> u32 list" where
  "flight route p pl = concat (map (seqs p pl) (rev (route p)))"

lemma flight_same: "(\<And>c. c \<in> set (route p) \<Longrightarrow> seqs p pl' c = seqs p pl c) \<Longrightarrow> flight route p pl' = flight route p pl"
  unfolding flight_def by (metis (mono_tags, lifting) map_cong set_rev)

text \<open>A node sends a packet to the next place of its route.\<close>

definition action_ok :: "('l, 'd) routes \<Rightarrow> node \<Rightarrow> ('l, 'd) action \<Rightarrow> bool" where
  "action_ok route n a \<longleftrightarrow>
     (case a of SendPkt l x \<Rightarrow> hop route (path x) (At_node n) (At_link l)
      | SendDone d m \<Rightarrow> hop route (d_path m) (At_node n) (At_done d) | Drop \<Rightarrow> False)"

definition dp_typed :: "('l, 'd) routes \<Rightarrow> ('l, 'd) plane \<Rightarrow> bool" where
  "dp_typed route pl \<longleftrightarrow>
     (\<forall>l x. x \<in> set (link_q pl l) \<longrightarrow> At_link l \<in> set (route (path x))) \<and>
     (\<forall>d m. m \<in> set (done_q pl d) \<longrightarrow> At_done d \<in> set (route (d_path m))) \<and>
     (\<forall>n a. node_pcs pl n = Send a \<longrightarrow> action_ok route n a)"

lemma held_simps:
  "held (At_link l) pl = map (\<lambda>x. (path x, seq x)) (link_q pl l)"
  "held (At_done d) pl = map (\<lambda>m. (d_path m, d_seq m)) (done_q pl d)"
  "node_pcs pl n = Send a \<Longrightarrow> held (At_node n) pl = action_held a"
  "(\<And>a. node_pcs pl n \<noteq> Send a) \<Longrightarrow> held (At_node n) pl = []"
  "node_pcs pl' n = node_pcs pl n \<Longrightarrow> held (At_node n) pl' = held (At_node n) pl"
  by (auto simp: held_def split: node_pc.splits)

lemma dp_typedI:
  assumes "\<And>l x. x \<in> set (link_q pl l) \<Longrightarrow> At_link l \<in> set (route (path x))"
    and "\<And>d m. m \<in> set (done_q pl d) \<Longrightarrow> At_done d \<in> set (route (d_path m))"
    and "\<And>n a. node_pcs pl n = Send a \<Longrightarrow> action_ok route n a"
  shows "dp_typed route pl"
  using assms by (simp add: dp_typed_def)

lemma dp_typedD:
  assumes "dp_typed route pl"
  shows "x \<in> set (link_q pl l) \<Longrightarrow> At_link l \<in> set (route (path x))"
    "m \<in> set (done_q pl d) \<Longrightarrow> At_done d \<in> set (route (d_path m))"
    "node_pcs pl n = Send a \<Longrightarrow> action_ok route n a"
  using assms by (simp_all add: dp_typed_def)

lemma held_main:
  assumes "node_pcs pl' = node_pcs pl" "link_q pl' = link_q pl" "done_q pl' = done_q pl"
  shows "held c pl' = held c pl"
  using assms by (simp add: held_def split: place.splits)

lemma link_put_cases:
  assumes "link_put T l x pl = Some (ok, pl')"
  obtains "\<not> ok" "pl' = pl" "link_closed pl l"
  | "ok" "\<not> link_closed pl l" "pl' = pl\<lparr>link_q := (link_q pl)(l := link_q pl l @ [x])\<rparr>"
      "length (link_q pl l) < link_cap T l"
  using assms by (auto simp: link_put_def split: if_splits)

lemma done_put_cases:
  assumes "done_put T d x pl = Some (ok, pl')"
  obtains "\<not> ok" "pl' = pl" "done_closed pl d"
  | "ok" "\<not> done_closed pl d" "pl' = pl\<lparr>done_q := (done_q pl)(d := done_q pl d @ [x])\<rparr>"
  using assms by (auto simp: done_put_def split: if_splits)

lemma inject_packet_cases:
  assumes "inject_packet T p pl = Some (ok, pl')"
  obtains "\<not> ok" "pl' = pl"
  | "ok" "pl' = pl\<lparr>link_q := (link_q pl)(inject_to T p := link_q pl (inject_to T p) @
        [\<lparr>seq = ucast (sent (stats pl p)), path = p\<rparr>]),
      stats := (stats pl)(p := (stats pl p)\<lparr>sent := sent (stats pl p) + 1\<rparr>)\<rparr>"
      "length (link_q pl (inject_to T p)) < link_cap T (inject_to T p)"
  using assms by (auto simp: inject_packet_def split: option.splits prod.splits bool.splits elim!: link_put_cases)

lemma poll_done_cases:
  obtains "done_q pl d = []" "poll_done_try realloc d pl = pl"
  | m ms where "done_q pl d = m # ms" "done_q (poll_done_try realloc d pl) = (done_q pl)(d := ms)"
      "stats (poll_done_try realloc d pl) =
        (stats pl)(d_path m := fst (stat_on_recv (d_seq m) (stats pl (d_path m))))"
  by (cases "done_q pl d") (auto simp: poll_done_try_def done_get_def Let_def split: prod.splits)

lemma poll_done_frame:
  "link_q (poll_done_try realloc d pl) = link_q pl" "node_pcs (poll_done_try realloc d pl) = node_pcs pl"
  "link_closed (poll_done_try realloc d pl) = link_closed pl" "done_closed (poll_done_try realloc d pl) = done_closed pl"
  "cfg (poll_done_try realloc d pl) = cfg pl" "main_pcs (poll_done_try realloc d pl) = main_pcs pl"
  "stop (poll_done_try realloc d pl) = stop pl" "deadline (poll_done_try realloc d pl) = deadline pl"
  by (auto simp: poll_done_try_def done_get_def Let_def split: list.splits prod.splits)

section \<open>The contract of a network\<close>

text \<open>
  What the invariant needs of a program: its nodes run the common loop; every path has a route
  that starts where its packets are injected and ends at a completion channel, without meeting
  a place twice; a node's handler sends a packet on to the next place; and no channel between
  nodes is closed early.
\<close>

locale dp_network =
  fixes T :: "('l, 'd) net"
    and nstep :: "int \<Rightarrow> node \<Rightarrow> ('l, 'd) plane \<Rightarrow> ('l, 'd) plane option"
    and ports :: "node \<Rightarrow> 'l list"
    and closed :: "node \<Rightarrow> ('l, 'd) plane \<Rightarrow> bool"
    and handle :: "node \<Rightarrow> 'l \<Rightarrow> int \<Rightarrow> pkt \<Rightarrow> ('l, 'd) action"
    and route :: "('l, 'd) routes"
  assumes nstep_eq: "nstep now n = node_loop T n (ports n) (closed n) (handle n) now"
    and route_distinct: "distinct (route p)"
    and inject_route: "\<exists>us. route p = At_link (inject_to T p) # us"
    and done_route: "At_done d \<in> set (route p) \<Longrightarrow> \<exists>us. route p = us @ [At_done d]"
    and hop_not_early: "hop route p (At_node n) (At_link l) \<Longrightarrow> l \<notin> set (early_close T)"
    and handle_ok: "l \<in> set (ports n) \<Longrightarrow> At_link l \<in> set (route (path x)) \<Longrightarrow>
      hop route (path x) (At_link l) (At_node n) \<and> action_ok route n (handle n l now x) \<and>
      action_held (handle n l now x) = [(path x, seq x)]"
begin

lemmas nstep_defs = nstep_eq node_loop_def

lemma flight_hop:
  assumes "hop route p a b" and "seqs p pl a = xs @ seqs p pl' a" and "seqs p pl' b = seqs p pl b @ xs"
    and "\<And>c. c \<noteq> a \<Longrightarrow> c \<noteq> b \<Longrightarrow> seqs p pl' c = seqs p pl c"
  shows "flight route p pl' = flight route p pl"
proof -
  obtain us vs where r: "route p = us @ a # b # vs" using hop_split [OF assms(1)] by blast
  then have d: "a \<notin> set us \<union> set vs" "b \<notin> set us \<union> set vs" "a \<noteq> b"
    using route_distinct [of p] by auto
  then have "map (seqs p pl') us = map (seqs p pl) us" "map (seqs p pl') vs = map (seqs p pl) vs"
    by (intro map_cong refl assms(4); use d in blast)+
  then show ?thesis
    using assms(2,3) by (simp add: flight_def r del: map_eq_conv flip: rev_map)
qed

lemma flight_enter:
  assumes "route p = a # us" and "seqs p pl' a = seqs p pl a @ xs"
    and "\<And>c. c \<noteq> a \<Longrightarrow> seqs p pl' c = seqs p pl c"
  shows "flight route p pl' = flight route p pl @ xs"
proof -
  have "map (seqs p pl') us = map (seqs p pl) us"
    by (intro map_cong refl assms(3); use assms(1) route_distinct [of p] in auto)
  then show ?thesis using assms(1,2) by (simp add: flight_def del: map_eq_conv flip: rev_map)
qed

lemma flight_leave:
  assumes "route p = us @ [a]" and "seqs p pl a = xs @ seqs p pl' a"
    and "\<And>c. c \<noteq> a \<Longrightarrow> seqs p pl' c = seqs p pl c"
  shows "flight route p pl = xs @ flight route p pl'"
proof -
  have "map (seqs p pl') us = map (seqs p pl) us"
    by (intro map_cong refl assms(3); use assms(1) route_distinct [of p] in auto)
  then show ?thesis using assms(1,2) by (simp add: flight_def del: map_eq_conv flip: rev_map)
qed

text \<open>The steps of a node, as changes of queues and of its program point.\<close>

lemma node_step_frame:
  assumes "nstep now n pl = Some pl'"
  shows "stats pl' = stats pl" "main_pcs pl' = main_pcs pl" "link_closed pl' = link_closed pl"
    "done_closed pl' = done_closed pl" "stop pl' = stop pl" "cfg pl' = cfg pl" "lat pl' = lat pl"
    "deadline pl' = deadline pl" "m \<noteq> n \<Longrightarrow> node_pcs pl' m = node_pcs pl m"
  using assms
  by (auto simp: nstep_defs link_get_def perform_def split: node_pc.splits if_splits list.splits
      action.splits elim!: link_put_cases done_put_cases)

lemma node_step_cases:
  assumes "nstep now n pl = Some pl'"
  obtains (quiet) "\<And>a. node_pcs pl n \<noteq> Send a" "\<And>a. node_pcs pl' n \<noteq> Send a"
      "link_q pl' = link_q pl" "done_q pl' = done_q pl"
  | (take) l x xs where "l \<in> set (ports n)" "link_q pl l = x # xs" "\<And>a. node_pcs pl n \<noteq> Send a"
      "link_q pl' = (link_q pl)(l := xs)" "done_q pl' = done_q pl"
      "node_pcs pl' n = Send (handle n l now x)"
  | (pass) l x where "node_pcs pl n = Send (SendPkt l x)" "\<not> link_closed pl l" "node_pcs pl' n = Loop"
      "link_q pl' = (link_q pl)(l := link_q pl l @ [x])" "done_q pl' = done_q pl"
      "length (link_q pl l) < link_cap T l"
  | (finish) d m where "node_pcs pl n = Send (SendDone d m)" "\<not> done_closed pl d" "node_pcs pl' n = Loop"
      "done_q pl' = (done_q pl)(d := done_q pl d @ [m])" "link_q pl' = link_q pl"
  | (fail) a where "node_pcs pl n = Send a" "node_pcs pl' n = Loop" "link_q pl' = link_q pl"
      "done_q pl' = done_q pl"
      "case a of SendPkt l x \<Rightarrow> link_closed pl l | SendDone d m \<Rightarrow> done_closed pl d | Drop \<Rightarrow> True"
proof (cases "node_pcs pl n")
  case (Poll i)
  then show ?thesis
  proof (cases "i < length (ports n) \<and> link_q pl (ports n ! i) \<noteq> []")
    case True
    then obtain x xs where "link_q pl (ports n ! i) = x # xs" by (auto simp: neq_Nil_conv)
    with Poll True assms show ?thesis
      by - (rule take [of "ports n ! i" x xs], auto simp: nstep_defs link_get_def)
  next
    case False
    with Poll assms show ?thesis
      by - (rule quiet, auto simp: nstep_defs link_get_def split: if_splits)
  qed
next
  case (Send a)
  show ?thesis
  proof (cases a)
    case (SendPkt l x)
    with Send assms show ?thesis
      by (auto simp: nstep_defs perform_def elim!: link_put_cases intro: pass fail)
  next
    case (SendDone d m)
    with Send assms show ?thesis
      by (auto simp: nstep_defs perform_def elim!: done_put_cases intro: finish fail)
  next
    case Drop
    with Send assms show ?thesis
      by (auto simp: nstep_defs perform_def intro: fail)
  qed
qed (use assms in \<open>auto simp: nstep_defs split: if_splits intro: quiet\<close>)

lemma node_step_typed:
  assumes "nstep now n pl = Some pl'" "dp_typed route pl"
  shows "dp_typed route pl'"
proof -
  note T = dp_typedD [OF assms(2)]
  have others: "action_ok route m a" if "node_pcs pl' m = Send a" "m \<noteq> n" for m a
    using that node_step_frame(9) [OF assms(1)] T(3) by metis
  from assms(1) show ?thesis
  proof (cases rule: node_step_cases)
    case quiet
    have act: "action_ok route m a" if "node_pcs pl' m = Send a" for m a
      using that quiet(2) others by (cases "m = n") auto
    show ?thesis by (rule dp_typedI) (use quiet T(1,2) act in auto)
  next
    case (take l x xs)
    then have on: "At_link l \<in> set (route (path x))" using T(1) [of x l] by simp
    have act: "action_ok route m a" if "node_pcs pl' m = Send a" for m a
      using that take(6) handle_ok [OF take(1) on, of now] others by (cases "m = n") auto
    show ?thesis by (rule dp_typedI) (use take T(1,2) act in \<open>auto split: if_splits\<close>)
  next
    case (pass l x)
    then have "At_link l \<in> set (route (path x))"
      using T(3) [OF pass(1)] by (auto simp: action_ok_def dest: hop_places)
    moreover have act: "action_ok route m a" if "node_pcs pl' m = Send a" for m a
      using that pass(3) others by (cases "m = n") auto
    ultimately show ?thesis
      by - (rule dp_typedI, use pass T(1,2) in \<open>auto split: if_splits\<close>)
  next
    case (finish d m)
    then have "At_done d \<in> set (route (d_path m))"
      using T(3) [OF finish(1)] by (auto simp: action_ok_def dest: hop_places)
    moreover have act: "action_ok route m a" if "node_pcs pl' m = Send a" for m a
      using that finish(3) others by (cases "m = n") auto
    ultimately show ?thesis
      by - (rule dp_typedI, use finish T(1,2) in \<open>auto split: if_splits\<close>)
  next
    case (fail a)
    have act: "action_ok route m a" if "node_pcs pl' m = Send a" for m a
      using that fail(2) others by (cases "m = n") auto
    show ?thesis by (rule dp_typedI) (use fail T(1,2) act in auto)
  qed
qed

lemma flight_move:
  assumes hp: "hop route (fst y) a b"
    and ab: "held a pl = y # held a pl'" "held b pl' = held b pl @ [y]"
    and same: "\<And>c. c \<noteq> a \<Longrightarrow> c \<noteq> b \<Longrightarrow> held c pl' = held c pl"
  shows "flight route p pl' = flight route p pl"
proof (cases "p = fst y")
  case True
  show ?thesis
    by (rule flight_hop [where xs = "[snd y]" and a = a and b = b])
      (use True hp ab same in \<open>simp_all add: seqs_def\<close>)
next
  case False
  then have "seqs p pl' c = seqs p pl c" for c
    using ab same by (cases "c = a"; cases "c = b") (simp_all add: seqs_def)
  then show ?thesis by (rule flight_same)
qed

lemma node_step_flight:
  assumes "nstep now n pl = Some pl'" "dp_typed route pl"
    and open_links: "\<And>l. link_closed pl l \<Longrightarrow> l \<in> set (early_close T)" "\<And>d. \<not> done_closed pl d"
  shows "flight route p pl' = flight route p pl"
proof -
  have frame: "held (At_node m) pl' = held (At_node m) pl" if "m \<noteq> n" for m
    using node_step_frame [OF assms(1)] that by (intro held_simps) blast
  have ok: "action_ok route n a" if "node_pcs pl n = Send a" for a
    using that assms(2) by (auto simp: dp_typed_def)
  from assms(1) show ?thesis
  proof (cases rule: node_step_cases)
    case quiet
    have "held (At_node n) pl' = []" "held (At_node n) pl = []"
      using quiet by (blast intro: held_simps(4))+
    then have "held c pl' = held c pl" for c
      using frame quiet(3,4) by (cases c) (auto simp: held_simps(1,2), metis)
    then show ?thesis by (intro flight_same) (simp add: seqs_def)
  next
    case (take l x xs)
    then have on: "At_link l \<in> set (route (path x))" using assms(2) by (auto simp: dp_typed_def)
    have node: "held (At_node n) pl = []" using take(3) by (rule held_simps(4))
    have same: "held c pl' = held c pl" if "c \<noteq> At_link l" "c \<noteq> At_node n" for c
      using that frame take(4,5) by (cases c) (auto simp: held_simps(1,2))
    show ?thesis
      by (rule flight_move [where y = "(path x, seq x)" and a = "At_link l" and b = "At_node n", OF _ _ _ same])
        (use take handle_ok [OF take(1) on] node in \<open>simp_all add: held_simps(1-3)\<close>)
  next
    case (pass l x)
    have same: "held c pl' = held c pl" if "c \<noteq> At_node n" "c \<noteq> At_link l" for c
      using that frame pass(4,5) by (cases c) (auto simp: held_simps(1,2))
    show ?thesis
      by (rule flight_move [where y = "(path x, seq x)" and a = "At_node n" and b = "At_link l", OF _ _ _ same])
        (use pass ok in \<open>simp_all add: held_simps(1-4) action_held_def action_ok_def\<close>)
  next
    case (finish d m)
    have same: "held c pl' = held c pl" if "c \<noteq> At_node n" "c \<noteq> At_done d" for c
      using that frame finish(4,5) by (cases c) (auto simp: held_simps(1,2))
    show ?thesis
      by (rule flight_move [where y = "(d_path m, d_seq m)" and a = "At_node n" and b = "At_done d", OF _ _ _ same])
        (use finish ok in \<open>simp_all add: held_simps(1-4) action_held_def action_ok_def\<close>)
  next
    case (fail a)
    then have False
      using ok [of a] open_links hop_not_early
      by (cases a) (simp_all add: action_ok_def, blast)
    then show ?thesis ..
  qed
qed

lemma inject_flight:
  assumes "inject_packet T p pl = Some (True, pl')"
  shows "flight route q pl' = flight route q pl @ (if q = p then [ucast (sent (stats pl p))] else [])"
proof -
  have pl': "pl' = pl\<lparr>link_q := (link_q pl)(inject_to T p := link_q pl (inject_to T p) @
        [\<lparr>seq = ucast (sent (stats pl p)), path = p\<rparr>]),
      stats := (stats pl)(p := (stats pl p)\<lparr>sent := sent (stats pl p) + 1\<rparr>)\<rparr>"
    using assms by (cases rule: inject_packet_cases) auto
  have s: "seqs q pl' c = seqs q pl c @ (if q = p \<and> c = At_link (inject_to T p) then [ucast (sent (stats pl p))] else [])" for c
    by (cases c) (auto simp: pl' seqs_def held_def)
  show ?thesis
  proof (cases "q = p")
    case True
    then obtain us where r: "route q = At_link (inject_to T p) # us" using inject_route by blast
    show ?thesis
      using flight_enter [OF r, of pl' pl "[ucast (sent (stats pl p))]"] s True by simp
  qed (auto intro!: flight_same simp: s)
qed

lemma inject_typed:
  assumes "inject_packet T p pl = Some (ok, pl')" "dp_typed route pl"
  shows "dp_typed route pl'"
  using assms(1)
proof (cases rule: inject_packet_cases)
  case 2
  have "At_link (inject_to T p) \<in> set (route p)" using inject_route [of p] by auto
  then show ?thesis
    by - (rule dp_typedI, use dp_typedD [OF assms(2)] 2 in \<open>auto split: if_splits\<close>)
qed (use assms(2) in simp)

lemma poll_done_typed:
  assumes "dp_typed route pl"
  shows "dp_typed route (poll_done_try realloc d pl)"
proof (cases realloc d pl rule: poll_done_cases)
  case (2 m ms)
  show ?thesis
    by (rule dp_typedI) (use 2 dp_typedD [OF assms] in \<open>auto simp: poll_done_frame split: if_splits\<close>)
qed (use assms in simp)

lemma poll_done_flight:
  assumes "dp_typed route pl" "done_q pl d = m # ms"
  shows "flight route q pl = (if q = d_path m then [d_seq m] else []) @ flight route q (poll_done_try realloc d pl)"
proof -
  let ?pl = "poll_done_try realloc d pl"
  have q: "done_q ?pl = (done_q pl)(d := ms)"
    using assms(2) by (cases realloc d pl rule: poll_done_cases) auto
  have s: "seqs q pl c = (if q = d_path m \<and> c = At_done d then [d_seq m] else []) @ seqs q ?pl c" for c
    by (cases c) (use q assms(2) in \<open>auto simp: seqs_def held_def poll_done_frame\<close>)
  show ?thesis
  proof (cases "q = d_path m")
    case True
    have "At_done d \<in> set (route q)" using dp_typedD(2) [OF assms(1), of m d] assms(2) True by simp
    then obtain us where r: "route q = us @ [At_done d]" using done_route by blast
    show ?thesis using flight_leave [OF r, of pl "[d_seq m]" ?pl] s True by simp
  qed (auto intro!: flight_same simp: s)
qed

end

end
