(* ===== verification/Dp_Verdict.thy ===== *)
theory Dp_Verdict
  imports Dp_Inv
begin

text \<open>
  The counters of a data-plane self-test against the packets in flight, the number of packets
  the main thread has injected at each of its program points, and the verdict: a run by count
  that is not cut short reports success. Everything is proved once, for every network.
\<close>

section \<open>Counters\<close>

text \<open>\<open>ns p\<close> packets of path \<open>p\<close> were sent and \<open>nr p\<close> received; the rest is in flight, in order.\<close>

definition counts_ok :: "('l, 'd) routes \<Rightarrow> ('l, 'd) plane \<Rightarrow> (path_id \<Rightarrow> nat) \<Rightarrow> (path_id \<Rightarrow> nat) \<Rightarrow> bool" where
  "counts_ok route pl ns nr \<longleftrightarrow>
     (\<forall>p. nr p \<le> ns p \<and> flight route p pl = map of_nat [nr p..<ns p] \<and>
        stats pl p = \<lparr>enabled = path_enabled (cfg pl) p, sent = of_nat (ns p), recv = of_nat (nr p),
          dup = 0, lost = 0, next_expected = of_nat (nr p)\<rparr> \<and>
        (path_enabled (cfg pl) p \<or> ns p = 0))"

lemma counts_okD:
  assumes "counts_ok route pl ns nr"
  shows "nr p \<le> ns p" "flight route p pl = map of_nat [nr p..<ns p]"
    "stats pl p = \<lparr>enabled = path_enabled (cfg pl) p, sent = of_nat (ns p), recv = of_nat (nr p),
          dup = 0, lost = 0, next_expected = of_nat (nr p)\<rparr>"
    "path_enabled (cfg pl) p \<or> ns p = 0"
  using assms by (simp_all add: counts_ok_def)

lemma counts_frame:
  assumes "counts_ok route pl ns nr" "\<And>p. flight route p pl' = flight route p pl" "stats pl' = stats pl" "cfg pl' = cfg pl"
  shows "counts_ok route pl' ns nr"
  using assms by (simp add: counts_ok_def)

lemma ucast_of_nat_u64: "ucast (of_nat n :: u64) = (of_nat n :: u32)"
  by (simp add: unsigned_of_nat take_bit_eq_mod flip: word_of_nat_eq_iff) (simp add: word_of_nat_eq_iff take_bit_eq_mod mod_mod_cancel)

lemma unat_ucast_u32: "unat (ucast (s :: u32) :: u64) = unat s"
proof -
  have "unat s < 2 ^ LENGTH(32)" by (rule unsigned_less)
  then have "unat s < 2 ^ 64" by simp
  then show ?thesis by (simp add: unsigned_ucast_eq take_bit_nat_eq_self_iff)
qed

lemma stat_on_recv_expected:
  "enabled st \<Longrightarrow> seqn = next_expected st \<Longrightarrow>
    fst (stat_on_recv seqn st) = st\<lparr>next_expected := next_expected st + 1, recv := recv st + 1\<rparr>"
  by (simp add: stat_on_recv_def)

section \<open>How many packets were injected\<close>

definition path_idx :: "path_id \<Rightarrow> nat" where
  "path_idx p =
     (case p of PATH_TUN_FORWARD_ENC_TUNNEL \<Rightarrow> 0 | PATH_TUNNEL_ENC_FORWARD_TUN \<Rightarrow> 1
      | PATH_TUNNEL_FORWARD_TUN \<Rightarrow> 2 | PATH_TUN_FORWARD_TUNNEL \<Rightarrow> 3
      | PATH_TUNNEL_FORWARD_OAM \<Rightarrow> 4 | PATH_OAM_FORWARD_TUNNEL \<Rightarrow> 5)"

lemma path_idx_less [simp]: "path_idx p < PATH_COUNT"
  by (cases p) (simp_all add: path_idx_def PATH_COUNT_def)

lemma all_paths_idx [simp]: "all_paths ! path_idx p = p"
  by (cases p) (simp_all add: path_idx_def all_paths_def eval_nat_numeral)

lemma path_idx_nth [simp]: "i < PATH_COUNT \<Longrightarrow> path_idx (all_paths ! i) = i"
  by (auto simp: PATH_COUNT_def all_paths_def path_idx_def less_Suc_eq eval_nat_numeral)

lemma path_idx_eq: "i < PATH_COUNT \<Longrightarrow> path_idx p = i \<longleftrightarrow> p = all_paths ! i"
  using all_paths_idx path_idx_nth by metis

text \<open>
  The packets of an enabled path injected when a run by count is at a program point of the
  main thread, and the bounds of its loop counters.
\<close>

definition plan :: "nat \<Rightarrow> main_pc \<Rightarrow> nat \<Rightarrow> nat" where
  "plan c pc i =
     (case pc of
        M_round r \<Rightarrow> r
      | M_path j \<Rightarrow> if i < j then c else 0
      | M_next (Par r j) \<Rightarrow> if i < j then Suc r else r
      | M_send _ (Par r j) \<Rightarrow> if i < j then Suc r else r
      | M_poll _ (Par r j) \<Rightarrow> if i \<le> j then Suc r else r
      | M_next (Seq j n) \<Rightarrow> if i < j then c else if i = j then n else 0
      | M_send _ (Seq j n) \<Rightarrow> if i < j then c else if i = j then n else 0
      | M_poll _ (Seq j n) \<Rightarrow> if i < j then c else if i = j then Suc n else 0
      | M_drain (Some j) \<Rightarrow> if i \<le> j then c else 0
      | M_drain_poll _ (Some j) \<Rightarrow> if i \<le> j then c else 0
      | _ \<Rightarrow> c)"

definition loop_ok :: "nat \<Rightarrow> main_pc \<Rightarrow> bool" where
  "loop_ok c pc \<longleftrightarrow>
     (case pc of
        M_round r \<Rightarrow> r \<le> c
      | M_next (Par r j) \<Rightarrow> r < c
      | M_send p (Par r j) \<Rightarrow> r < c
      | M_poll _ (Par r j) \<Rightarrow> r < c
      | M_next (Seq j n) \<Rightarrow> n \<le> c
      | M_send p (Seq j n) \<Rightarrow> n < c
      | M_poll _ (Seq j n) \<Rightarrow> n < c
      | _ \<Rightarrow> True)"

definition plan_ok :: "run_config \<Rightarrow> main_pc \<Rightarrow> (path_id \<Rightarrow> nat) \<Rightarrow> bool" where
  "plan_ok cf pc ns \<longleftrightarrow>
     duration cf = None \<and> (\<forall>rc. pc = M_stop rc \<longrightarrow> rc = 0) \<longrightarrow>
       loop_ok (unat (count cf)) pc \<and>
       (\<forall>p. ns p = (if path_enabled cf p then plan (unat (count cf)) pc (path_idx p) else 0))"

text \<open>The path a program point is about is the one the index names, and it is enabled.\<close>

definition index_ok :: "run_config \<Rightarrow> main_pc \<Rightarrow> bool" where
  "index_ok cf pc \<longleftrightarrow>
     (case pc of
        M_send p k \<Rightarrow> (case k of Par r j \<Rightarrow> j < PATH_COUNT \<and> p = all_paths ! j
                       | Seq j n \<Rightarrow> j < PATH_COUNT \<and> p = all_paths ! j) \<and> path_enabled cf p
      | M_next (Par r j) \<Rightarrow> j \<le> PATH_COUNT
      | M_poll _ (Par r j) \<Rightarrow> j < PATH_COUNT
      | M_next (Seq j n) \<Rightarrow> j < PATH_COUNT \<and> path_enabled cf (all_paths ! j)
      | M_poll _ (Seq j n) \<Rightarrow> j < PATH_COUNT \<and> path_enabled cf (all_paths ! j)
      | M_path j \<Rightarrow> j \<le> PATH_COUNT
      | M_drain (Some j) \<Rightarrow> j < PATH_COUNT
      | M_drain_poll _ (Some j) \<Rightarrow> j < PATH_COUNT
      | _ \<Rightarrow> True)"

section \<open>The invariant\<close>

definition running :: "main_pc \<Rightarrow> bool" where
  "running pc \<longleftrightarrow> (case pc of M_close_all k rc \<Rightarrow> False | M_join rc \<Rightarrow> False | M_exit c \<Rightarrow> False | _ \<Rightarrow> True)"

text \<open>The outcome the self-test promises: every packet of every enabled path arrived, once and in order.\<close>

definition delivered :: "('l, 'd) plane \<Rightarrow> bool" where
  "delivered pl \<longleftrightarrow>
     (\<forall>p. path_enabled (cfg pl) p \<longrightarrow>
        stats pl p = \<lparr>enabled = True, sent = count (cfg pl), recv = count (cfg pl), dup = 0, lost = 0,
          next_expected = ucast (count (cfg pl))\<rparr>) \<and>
     (\<forall>p. \<not> path_enabled (cfg pl) p \<longrightarrow> \<not> enabled (stats pl p))"

definition verdict_ok :: "('l, 'd) plane \<Rightarrow> bool" where
  "verdict_ok pl \<longleftrightarrow>
     duration (cfg pl) = None \<longrightarrow>
       (case main_pcs pl of
          M_stop rc \<Rightarrow> rc = 0 \<longrightarrow> delivered pl
        | M_close_all k rc \<Rightarrow> rc = 0 \<longrightarrow> delivered pl
        | M_join rc \<Rightarrow> rc = 0 \<longrightarrow> delivered pl
        | M_exit c \<Rightarrow> c = 0 \<longrightarrow> delivered pl
        | _ \<Rightarrow> True)"

definition dp_inv :: "('l, 'd) net \<Rightarrow> ('l, 'd) routes \<Rightarrow> ('l, 'd) plane \<Rightarrow> bool" where
  "dp_inv T route pl \<longleftrightarrow> dp_typed route pl \<and> verdict_ok pl \<and>
     (running (main_pcs pl) \<longrightarrow>
        (\<forall>l. link_closed pl l \<longrightarrow> l \<in> set (early_close T)) \<and> (\<forall>d. \<not> done_closed pl d) \<and>
        index_ok (cfg pl) (main_pcs pl) \<and>
        (\<exists>ns nr. counts_ok route pl ns nr \<and> plan_ok (cfg pl) (main_pcs pl) ns))"

lemma enabled_counts: "counts_ok route pl ns nr \<Longrightarrow> enabled (stats pl p) = path_enabled (cfg pl) p"
  using counts_okD(3) [of route pl ns nr p] by simp

lemma drained_delivered:
  assumes "counts_ok route pl ns nr" "all_drained (stats pl)" "duration (cfg pl) = None"
    and ns: "\<And>p. path_enabled (cfg pl) p \<Longrightarrow> ns p = unat (count (cfg pl))"
  shows "delivered pl"
proof -
  note C = counts_okD [OF assms(1)]
  have nr: "nr p = unat (count (cfg pl))" if "path_enabled (cfg pl) p" for p
  proof -
    have "p \<in> set all_paths" by (cases p) (simp_all add: all_paths_def)
    then have "\<not> (of_nat (nr p) :: u64) < of_nat (ns p)"
      using assms(2) C(3) [of p] that by (auto simp: all_drained_def list_all_iff)
    moreover have "nr p < 2 ^ 64" "ns p < 2 ^ 64"
      using C(1) [of p] ns [OF that] unsigned_less [of "count (cfg pl)", where 'a = nat] by simp_all
    ultimately have "\<not> nr p < ns p" by (simp add: word_less_nat_alt unat_of_nat)
    then show ?thesis using C(1) [of p] ns [OF that] by simp
  qed
  have "(of_nat (unat (count (cfg pl))) :: u32) = ucast (count (cfg pl))"
    using ucast_of_nat_u64 [of "unat (count (cfg pl))"] by simp
  then show ?thesis
    unfolding delivered_def using C(3) nr ns by auto
qed

lemmas pc_simps = plan_ok_def plan_def loop_ok_def index_ok_def verdict_ok_def running_def go_on_injecting_def

lemma inject_note_frame:
  assumes "inject_note realloc now p pl = Some pl'"
  shows "\<exists>ctx. pl' = pl\<lparr>lat := ctx\<rparr>"
  using assms by (auto simp: inject_note_def)

section \<open>Every reachable state\<close>

lemma plane_init_fields:
  "link_q (plane_init now ctx cf) = (\<lambda>_. [])" "done_q (plane_init now ctx cf) = (\<lambda>_. [])"
  "link_closed (plane_init now ctx cf) = (\<lambda>_. False)" "done_closed (plane_init now ctx cf) = (\<lambda>_. False)"
  "node_pcs (plane_init now ctx cf) = (\<lambda>_. Loop)" "main_pcs (plane_init now ctx cf) = run_traffic cf"
  "stats (plane_init now ctx cf) = init_stats cf" "cfg (plane_init now ctx cf) = cf"
  "lat (plane_init now ctx cf) = ctx" "stop (plane_init now ctx cf) = False"
  by (simp_all add: plane_init_def start_clock_def split: option.splits)

lemma main_step_cfg: "main_step T realloc now pl = Some pl' \<Longrightarrow> cfg pl' = cfg pl"
  by (auto simp: main_step_defs main_next_def poll_done_frame close_nth_def close_link_def start_clock_def
      dest!: inject_note_frame elim!: inject_packet_cases
      split: main_pc.splits main_loop.splits if_splits option.splits)

lemma delivered_exit: "delivered pl \<Longrightarrow> exit_code 0 pl = 0"
  by (auto simp: exit_code_def delivered_def path_ok_def list_all_iff)



section \<open>Every step keeps the invariant\<close>

context dp_network
begin

lemma inject_counts:
  assumes "counts_ok route pl ns nr" "inject_packet T p pl = Some (True, pl')" "enabled (stats pl p)"
  shows "counts_ok route pl' (ns(p := Suc (ns p))) nr"
proof -
  have pl': "stats pl' = (stats pl)(p := (stats pl p)\<lparr>sent := sent (stats pl p) + 1\<rparr>)" "cfg pl' = cfg pl"
    using assms(2) by (cases rule: inject_packet_cases; simp)+
  have en: "path_enabled (cfg pl) p" using assms(3) counts_okD(3) [OF assms(1), of p] by simp
  show ?thesis
    unfolding counts_ok_def
    using counts_okD [OF assms(1)] inject_flight [OF assms(2)] pl' en
    by (auto simp: ucast_of_nat_u64 le_Suc_eq)
qed

lemma poll_done_counts:
  assumes "counts_ok route pl ns nr" "dp_typed route pl"
  shows "\<exists>nr. counts_ok route (poll_done_try realloc d pl) ns nr"
proof (cases realloc d pl rule: poll_done_cases)
  case 1
  then show ?thesis using assms(1) by auto
next
  case (2 m ms)
  let ?p = "d_path m" and ?pl = "poll_done_try realloc d pl"
  note C = counts_okD [OF assms(1)] and F = poll_done_flight [OF assms(2) 2(1), where realloc = realloc]
  have M: "map of_nat [nr ?p..<ns ?p] = d_seq m # flight route ?p ?pl" using F [of ?p] C(2) by simp
  then have lt: "nr ?p < ns ?p" by (metis list.distinct(1) list.map(1) linorder_not_less upt_conv_Nil)
  have "of_nat (nr ?p) # map of_nat [Suc (nr ?p)..<ns ?p] = d_seq m # flight route ?p ?pl"
    using M unfolding upt_conv_Cons [OF lt] list.map .
  then have seq: "d_seq m = of_nat (nr ?p)" and fl: "flight route ?p ?pl = map of_nat [Suc (nr ?p)..<ns ?p]"
    by (metis list.inject)+
  have en: "path_enabled (cfg pl) ?p" using C(4) [of ?p] lt by auto
  then have st: "stats ?pl ?p = \<lparr>enabled = True, sent = of_nat (ns ?p), recv = of_nat (Suc (nr ?p)),
      dup = 0, lost = 0, next_expected = of_nat (Suc (nr ?p))\<rparr>"
    using C(3) [of ?p] seq stat_on_recv_expected [of "stats pl ?p" "d_seq m"] 2(3) by simp
  have "flight route q ?pl = flight route q pl \<and> stats ?pl q = stats pl q" if "q \<noteq> ?p" for q
    using that F [of q] 2(3) by simp
  then have "counts_ok route ?pl ns (nr(?p := Suc (nr ?p)))"
    using C fl lt st en by (simp add: counts_ok_def poll_done_frame(5) Suc_leI)
  then show ?thesis by blast
qed

lemma node_step_inv:
  assumes "nstep now n pl = Some pl'" "dp_inv T route pl"
  shows "dp_inv T route pl'"
proof -
  note F = node_step_frame [OF assms(1)]
  have t: "dp_typed route pl" using assms(2) by (simp add: dp_inv_def)
  have "counts_ok route pl' ns nr" if "running (main_pcs pl)" "counts_ok route pl ns nr" for ns nr
    using assms(2) that by (intro counts_frame [OF that(2)] node_step_flight [OF assms(1) t])
      (auto simp: dp_inv_def F)
  moreover have "delivered pl' = delivered pl" by (simp add: delivered_def F)
  then have "verdict_ok pl' = verdict_ok pl" by (simp add: verdict_ok_def F split: main_pc.splits)
  ultimately show ?thesis
    using assms(2) node_step_typed [OF assms(1) t] unfolding dp_inv_def F by blast
qed

section \<open>The main thread keeps the invariant\<close>

text \<open>Steps that change nothing but the main thread's own variables and closed channels.\<close>

lemma main_control:
  assumes inv: "dp_inv T route pl" "running (main_pcs pl)"
    and same: "node_pcs pl' = node_pcs pl" "link_q pl' = link_q pl" "done_q pl' = done_q pl"
      "stats pl' = stats pl" "cfg pl' = cfg pl" "done_closed pl' = done_closed pl"
    and closed: "\<And>l. link_closed pl' l \<Longrightarrow> link_closed pl l \<or> l \<in> set (early_close T)"
    and pc: "index_ok (cfg pl) (main_pcs pl')" "verdict_ok pl'"
    and plan: "\<And>ns nr. counts_ok route pl ns nr \<Longrightarrow> plan_ok (cfg pl) (main_pcs pl) ns \<Longrightarrow>
      plan_ok (cfg pl) (main_pcs pl') ns"
  shows "dp_inv T route pl'"
proof -
  have h: "held x pl' = held x pl" for x using same(1-3) by (rule held_main)
  have "flight route p pl' = flight route p pl" for p
    by (rule flight_same) (simp add: seqs_def h)
  then have "counts_ok route pl' ns nr" if "counts_ok route pl ns nr" for ns nr
    using that same(4,5) by (intro counts_frame [OF that]) auto
  moreover have "dp_typed route pl'" using inv(1) same(1-3) by (simp add: dp_inv_def dp_typed_def)
  ultimately show ?thesis
    using inv closed pc plan same(5,6) unfolding dp_inv_def by metis
qed

text \<open>Steps that look at one completion channel.\<close>

lemma main_poll:
  assumes inv: "dp_inv T route pl" "running (main_pcs pl)"
    and pl': "pl' = main_at pc (poll_done_try realloc d pl)"
    and pc: "index_ok (cfg pl) pc" "verdict_ok pl'"
    and plan: "\<And>ns nr. plan_ok (cfg pl) (main_pcs pl) ns \<Longrightarrow> plan_ok (cfg pl) pc ns"
  shows "dp_inv T route pl'"
proof -
  obtain ns nr where C: "counts_ok route pl ns nr" "plan_ok (cfg pl) (main_pcs pl) ns" and t: "dp_typed route pl"
    using inv by (auto simp: dp_inv_def)
  let ?pl = "poll_done_try realloc d pl"
  obtain nr' where C': "counts_ok route ?pl ns nr'" using poll_done_counts [OF C(1) t] by blast
  have h: "held c pl' = held c ?pl" for c by (rule held_main) (simp_all add: pl')
  have "flight route p pl' = flight route p ?pl" for p by (rule flight_same) (simp add: seqs_def h)
  then have "counts_ok route pl' ns nr'" by (rule counts_frame [OF C']) (simp_all add: pl')
  moreover have "dp_typed route pl'" using poll_done_typed [OF t] by (simp add: pl' dp_typed_def)
  ultimately show ?thesis
    using inv pc plan [OF C(2)] unfolding dp_inv_def pl' by (auto simp: poll_done_frame)
qed

lemma enabled_inv: "dp_inv T route pl \<Longrightarrow> running (main_pcs pl) \<Longrightarrow> enabled (stats pl p) = path_enabled (cfg pl) p"
  by (auto simp: dp_inv_def dest: enabled_counts)

lemma inject_inv:
  assumes "dp_inv T route pl" "main_pcs pl = M_send p k" "inject_packet T p pl = Some (True, pl1)"
  shows "dp_inv T route (main_at (M_poll 0 k) pl1)"
proof -
  let ?pl = "main_at (M_poll 0 k) pl1"
  have run: "running (main_pcs pl)" by (simp add: assms(2) running_def)
  then obtain ns nr where C: "counts_ok route pl ns nr" "plan_ok (cfg pl) (main_pcs pl) ns"
    and ix: "index_ok (cfg pl) (main_pcs pl)" and t: "dp_typed route pl"
    using assms(1) by (auto simp: dp_inv_def)
  have en: "enabled (stats pl p)" using ix enabled_counts [OF C(1)] assms(2) by (simp add: index_ok_def)
  have pl1: "cfg pl1 = cfg pl" "link_closed pl1 = link_closed pl" "done_closed pl1 = done_closed pl"
    using assms(3) by (cases rule: inject_packet_cases; simp)+
  have h: "held c ?pl = held c pl1" for c by (rule held_main) simp_all
  have "flight route q ?pl = flight route q pl1" for q by (rule flight_same) (simp add: seqs_def h)
  then have "counts_ok route ?pl (ns(p := Suc (ns p))) nr"
    by (rule counts_frame [OF inject_counts [OF C(1) assms(3) en]]) simp_all
  moreover have "plan_ok (cfg pl) (M_poll 0 k) (ns(p := Suc (ns p)))"
    using C(2) ix unfolding assms(2)
    by (cases k) (auto simp: plan_ok_def plan_def loop_ok_def index_ok_def path_idx_eq less_le)
  moreover have "dp_typed route ?pl" using inject_typed [OF assms(3) t] by (simp add: dp_typed_def)
  moreover have "index_ok (cfg pl) (M_poll 0 k)"
    using ix unfolding assms(2) by (cases k) (auto simp: index_ok_def)
  ultimately show ?thesis
    using assms(1) run pl1 unfolding dp_inv_def by (auto simp: verdict_ok_def running_def)
qed

text \<open>The loop heads.\<close>

lemma main_round_inv:
  assumes "dp_inv T route pl" "main_pcs pl = M_round r"
  shows "dp_inv T route (main_at (if go_on_injecting now r pl then M_next (Par r 0) else M_close 0) pl)"
  by (rule main_control [OF assms(1)]) (auto simp: pc_simps assms(2))

lemma main_path_inv:
  assumes inv: "dp_inv T route pl" "main_pcs pl = M_path i"
  shows "dp_inv T route (if \<not> i < PATH_COUNT then main_at (M_close 0) pl
      else if \<not> enabled (stats pl (all_paths ! i)) then main_at (M_path (Suc i)) pl
      else main_at (M_next (Seq i 0)) (start_clock now pl))"
proof -
  have ix: "index_ok (cfg pl) (M_path i)" using inv by (simp add: dp_inv_def running_def)
  have run: "running (main_pcs pl)" by (simp add: inv(2) running_def)
  note en = enabled_inv [OF inv(1) run]
  have "dp_inv T route (main_at (M_close 0) pl)" if "\<not> i < PATH_COUNT"
    using that less_le_trans [OF path_idx_less]
    by (intro main_control [OF inv(1) run]) (auto simp: pc_simps inv(2) not_less)
  moreover have "dp_inv T route (main_at (M_path (Suc i)) pl)"
    if "i < PATH_COUNT" "\<not> enabled (stats pl (all_paths ! i))"
    using that en
    by (intro main_control [OF inv(1) run]) (auto simp: pc_simps inv(2) less_Suc_eq path_idx_eq)
  moreover have "dp_inv T route (main_at (M_next (Seq i 0)) (start_clock now pl))"
    if "i < PATH_COUNT" "enabled (stats pl (all_paths ! i))"
    using that en
    by (intro main_control [OF inv(1) run]) (auto simp: pc_simps inv(2) start_clock_def split: option.splits)
  ultimately show ?thesis by simp
qed

lemma main_next_inv:
  assumes inv: "dp_inv T route pl" "main_pcs pl = M_next k" and st: "main_next realloc now k pl = Some pl'"
  shows "dp_inv T route pl'"
proof -
  have ix: "index_ok (cfg pl) (M_next k)" using inv by (simp add: dp_inv_def running_def)
  have run: "running (main_pcs pl)" by (simp add: inv(2) running_def)
  note en = enabled_inv [OF inv(1) run]
  have send: "dp_inv T route (main_at (M_send (all_paths ! i) k) pl1)"
    if h: "inject_note realloc now (all_paths ! i) pl = Some pl1" "i < PATH_COUNT"
      "path_enabled (cfg pl) (all_paths ! i)"
      "(\<exists>r. k = Par r i) \<or> (\<exists>n. k = Seq i n \<and> go_on_injecting now n pl)" for i pl1
  proof -
    obtain ctx where "pl1 = pl\<lparr>lat := ctx\<rparr>" using inject_note_frame [OF h(1)] by blast
    then show ?thesis
      using h(2-4) by (intro main_control [OF inv(1) run]) (auto simp: pc_simps inv(2))
  qed
  show ?thesis
  proof (cases k)
    case (Par r i)
    have "dp_inv T route (main_at (M_round (Suc r)) pl)" if "\<not> i < PATH_COUNT"
      using that less_le_trans [OF path_idx_less]
      by (intro main_control [OF inv(1) run]) (auto simp: pc_simps inv(2) Par not_less)
    moreover have "dp_inv T route (main_at (M_next (Par r (Suc i))) pl)"
      if "i < PATH_COUNT" "\<not> enabled (stats pl (all_paths ! i))"
      using that en by (intro main_control [OF inv(1) run]) (auto simp: pc_simps inv(2) Par less_Suc_eq path_idx_eq)
    ultimately show ?thesis
      using st send [of i] en by (auto simp: main_next_def Par split: if_splits)
  next
    case (Seq i n)
    have "dp_inv T route (main_at (M_drain (Some i)) (pl\<lparr>deadline := d\<rparr>))" if "\<not> go_on_injecting now n pl" for d
      using that ix
      by (intro main_control [OF inv(1) run]) (auto simp: pc_simps inv(2) Seq le_less split: option.splits)
    then show ?thesis
      using st send [of i] ix by (auto simp: main_next_def Seq index_ok_def split: if_splits)
  qed
qed

lemma main_drain_inv:
  assumes inv: "dp_inv T route pl" "main_pcs pl = M_drain goal"
  shows "dp_inv T route (main_at
      (if \<not> now < deadline pl then M_stop (-1)
       else if drain_done goal pl then (case goal of Some i \<Rightarrow> M_path (Suc i) | None \<Rightarrow> M_stop 0)
       else M_drain_poll 0 goal) pl)"
proof -
  have ix: "index_ok (cfg pl) (M_drain goal)" using inv by (simp add: dp_inv_def running_def)
  have run: "running (main_pcs pl)" by (simp add: inv(2) running_def)
  have "dp_inv T route (main_at (M_stop 0) pl)" if g: "goal = None" "drain_done goal pl"
  proof (intro main_control [OF inv(1) run])
    obtain ns nr where C: "counts_ok route pl ns nr" "plan_ok (cfg pl) (M_drain None) ns"
      using inv run g(1) by (auto simp: dp_inv_def)
    have "delivered pl" if "duration (cfg pl) = None"
      by (rule drained_delivered [OF C(1) _ that])
        (use C(2) that g in \<open>auto simp: pc_simps drain_done_def\<close>)
    then show "verdict_ok (main_at (M_stop 0) pl)" by (simp add: verdict_ok_def delivered_def)
  qed (use g in \<open>auto simp: pc_simps inv(2)\<close>)
  moreover have "dp_inv T route (main_at (M_path (Suc i)) pl)" if "goal = Some i" for i
    using that ix by (intro main_control [OF inv(1) run]) (auto simp: pc_simps inv(2) less_Suc_eq_le)
  moreover have "dp_inv T route (main_at (M_stop (-1)) pl)"
    by (intro main_control [OF inv(1) run]) (auto simp: pc_simps)
  moreover have "dp_inv T route (main_at (M_drain_poll 0 goal) pl)"
    using ix by (intro main_control [OF inv(1) run]) (auto simp: pc_simps inv(2) split: option.splits)
  ultimately show ?thesis by (auto split: option.splits)
qed

lemma main_poll_inv:
  assumes inv: "dp_inv T route pl" "main_pcs pl = M_poll j k"
  shows "dp_inv T route (if j < length (dones T)
      then main_at (M_poll (Suc j) k) (poll_done_try realloc (dones T ! j) pl)
      else main_at (M_next (case k of Par r i \<Rightarrow> Par r (Suc i) | Seq i n \<Rightarrow> Seq i (Suc n))) pl)"
proof -
  have ix: "index_ok (cfg pl) (M_poll j k)" using inv by (simp add: dp_inv_def running_def)
  have run: "running (main_pcs pl)" by (simp add: inv(2) running_def)
  have "dp_inv T route (main_at (M_poll (Suc j) k) (poll_done_try realloc (dones T ! j) pl))"
    using ix by (intro main_poll [OF inv(1) run refl])
      (auto simp: pc_simps inv(2) poll_done_frame split: main_loop.splits)
  moreover have "dp_inv T route (main_at (M_next (case k of Par r i \<Rightarrow> Par r (Suc i) | Seq i n \<Rightarrow> Seq i (Suc n))) pl)"
    using ix by (intro main_control [OF inv(1) run])
      (auto simp: pc_simps inv(2) less_Suc_eq_le split: main_loop.splits)
  ultimately show ?thesis by simp
qed

lemma main_drain_poll_inv:
  assumes inv: "dp_inv T route pl" "main_pcs pl = M_drain_poll j goal"
  shows "dp_inv T route (if j < length (dones T)
      then main_at (M_drain_poll (Suc j) goal) (poll_done_try realloc (dones T ! j) pl)
      else main_at (M_drain goal) pl)"
proof -
  have ix: "index_ok (cfg pl) (M_drain_poll j goal)" using inv by (simp add: dp_inv_def running_def)
  have run: "running (main_pcs pl)" by (simp add: inv(2) running_def)
  have "dp_inv T route (main_at (M_drain_poll (Suc j) goal) (poll_done_try realloc (dones T ! j) pl))"
    using ix by (intro main_poll [OF inv(1) run refl])
      (auto simp: pc_simps inv(2) poll_done_frame split: option.splits)
  moreover have "dp_inv T route (main_at (M_drain goal) pl)"
    using ix by (intro main_control [OF inv(1) run]) (auto simp: pc_simps inv(2) split: option.splits)
  ultimately show ?thesis by simp
qed

lemma main_close_inv:
  assumes inv: "dp_inv T route pl" "main_pcs pl = M_close k"
  shows "dp_inv T route (if k < length (early_close T)
      then main_at (M_close (Suc k)) (close_link (early_close T ! k) pl)
      else main_at (M_drain None) (pl\<lparr>deadline := now + DRAIN_SEC * 1000000000\<rparr>))"
proof -
  have run: "running (main_pcs pl)" by (simp add: inv(2) running_def)
  have "dp_inv T route (main_at (M_close (Suc k)) (close_link (early_close T ! k) pl))" if "k < length (early_close T)"
    using that by (intro main_control [OF inv(1) run]) (auto simp: pc_simps inv(2) close_link_def split: if_splits)
  moreover have "dp_inv T route (main_at (M_drain None) (pl\<lparr>deadline := now + DRAIN_SEC * 1000000000\<rparr>))"
    by (intro main_control [OF inv(1) run]) (auto simp: pc_simps inv(2))
  ultimately show ?thesis by simp
qed

lemma stopped_inv:
  assumes "dp_inv T route pl" "\<not> running (main_pcs pl')" "verdict_ok pl'"
    and "node_pcs pl' = node_pcs pl" "link_q pl' = link_q pl" "done_q pl' = done_q pl"
  shows "dp_inv T route pl'"
  using assms by (simp add: dp_inv_def dp_typed_def)

lemma main_stopped_inv:
  assumes "dp_inv T route pl" "\<not> running (main_pcs pl) \<or> (\<exists>rc. main_pcs pl = M_stop rc)" "main_step T realloc now pl = Some pl'"
  shows "dp_inv T route pl'"
proof (rule stopped_inv [OF assms(1)])
  have v: "verdict_ok pl" using assms(1) by (simp add: dp_inv_def)
  have "stats pl' = stats pl \<and> cfg pl' = cfg pl"
    using assms(2,3) by (auto simp: main_step_defs running_def close_nth_def close_link_def split: main_pc.splits if_splits)
  then have d: "delivered pl' = delivered pl" "cfg pl' = cfg pl" by (simp_all add: delivered_def)
  show "verdict_ok pl'"
    using v assms(2,3) unfolding verdict_ok_def d
    by (auto simp: main_step_defs running_def exit_code_def split: main_pc.splits if_splits)
qed (use assms(2,3) in \<open>auto simp: main_step_defs running_def close_nth_def close_link_def split: main_pc.splits if_splits\<close>)

lemma main_step_inv:
  assumes "dp_inv T route pl" "main_step T realloc now pl = Some pl'"
  shows "dp_inv T route pl'"
proof (cases "main_pcs pl")
  case (M_send p k)
  then obtain ok pl1 where s: "inject_packet T p pl = Some (ok, pl1)"
    and pl': "pl' = main_at (if ok then M_poll 0 k else M_stop (-1)) pl1"
    using assms(2) by (auto simp: main_step_defs)
  have run: "running (main_pcs pl)" by (simp add: M_send running_def)
  from s show ?thesis
  proof (cases rule: inject_packet_cases)
    case 1
    then show ?thesis using pl' by (intro main_control [OF assms(1) run]) (auto simp: pc_simps)
  next
    case 2
    then show ?thesis using s inject_inv [OF assms(1) M_send] pl' by simp
  qed
next
  case (M_round r)
  then show ?thesis using assms(2) main_round_inv [OF assms(1) M_round, of now] by (simp add: main_step_defs)
next
  case (M_path i)
  then show ?thesis using assms(2) main_path_inv [OF assms(1) M_path, of now] by (simp add: main_step_defs)
next
  case (M_next k)
  then show ?thesis using assms(2) main_next_inv [OF assms(1) M_next] by (simp add: main_step_defs)
next
  case (M_poll j k)
  then show ?thesis using assms(2) main_poll_inv [OF assms(1) M_poll, of realloc] by (simp add: main_step_defs)
next
  case (M_drain goal)
  then show ?thesis using assms(2) main_drain_inv [OF assms(1) M_drain, of now] by (simp add: main_step_defs)
next
  case (M_drain_poll j goal)
  then show ?thesis using assms(2) main_drain_poll_inv [OF assms(1) M_drain_poll, of realloc] by (simp add: main_step_defs)
next
  case (M_close k)
  then show ?thesis using assms(2) main_close_inv [OF assms(1) M_close, of now] by (simp add: main_step_defs)
qed (use main_stopped_inv [OF assms(1) _ assms(2)] in \<open>simp_all add: running_def\<close>)

lemma init_inv: "dp_inv T route (plane_init now ctx cf)"
proof -
  let ?pl = "plane_init now ctx cf :: ('l, 'd) plane"
  have "held c ?pl = []" for c by (cases c) (simp_all add: held_def plane_init_fields)
  then have "seqs p ?pl = (\<lambda>_. [])" for p by (auto simp: seqs_def)
  then have "flight route p ?pl = []" for p by (simp add: flight_def)
  then have "counts_ok route ?pl (\<lambda>_. 0) (\<lambda>_. 0)"
    by (simp add: counts_ok_def plane_init_fields init_stats_def)
  moreover have "plan_ok cf (run_traffic cf) (\<lambda>_. 0)" "index_ok cf (run_traffic cf)" "verdict_ok ?pl"
    by (simp_all add: pc_simps run_traffic_def plane_init_fields)
  ultimately show ?thesis
    unfolding dp_inv_def dp_typed_def by (auto simp: plane_init_fields)
qed

lemma reach_inv: "dp_reach T nstep (plane_init now ctx cf) pl \<Longrightarrow> dp_inv T route pl"
  by (induction rule: dp_reach.induct) (auto intro: init_inv node_step_inv main_step_inv)

lemma reach_cfg: "dp_reach T nstep pl0 pl \<Longrightarrow> cfg pl = cfg pl0"
  by (induction rule: dp_reach.induct) (auto dest: main_step_cfg node_step_frame(6))

text \<open>What a client of the contract gets.\<close>

lemma on_route: "dp_reach T nstep (plane_init now ctx cf) pl \<Longrightarrow> dp_typed route pl"
  using reach_inv by (simp add: dp_inv_def)

lemma in_order:
  assumes "dp_reach T nstep (plane_init now ctx cf) pl" "running (main_pcs pl)"
  shows "\<exists>k n. k \<le> n \<and> flight route p pl = map of_nat [k..<n] \<and> sent (stats pl p) = of_nat n \<and>
    recv (stats pl p) = of_nat k \<and> lost (stats pl p) = 0 \<and> dup (stats pl p) = 0"
proof -
  obtain ns nr where "counts_ok route pl ns nr"
    using reach_inv [OF assms(1)] assms(2) by (auto simp: dp_inv_def)
  then show ?thesis using counts_okD(1-3) [of route pl ns nr p] by auto
qed

lemma verdict:
  assumes "dp_reach T nstep (plane_init now ctx cf) pl" "duration cf = None" "main_pcs pl = M_join rc"
  shows "exit_code rc pl = (if rc = 0 then 0 else 1) \<and> (rc = 0 \<longrightarrow> delivered pl)"
proof -
  have "verdict_ok pl" "duration (cfg pl) = None"
    using reach_inv [OF assms(1)] reach_cfg [OF assms(1)] assms(2) by (simp_all add: dp_inv_def plane_init_fields)
  then have "rc = 0 \<longrightarrow> delivered pl" using assms(3) by (simp add: verdict_ok_def)
  then show ?thesis using delivered_exit [of pl] by (auto simp: exit_code_def split: if_splits)
qed

end

end
