(* ===== verification/Dp_Latency.thy ===== *)
theory Dp_Latency
  imports Dp_Verdict
begin

text \<open>
  The array of send times of the data-plane self-tests: the doubling loop of \<open>latency_grow_send\<close>
  ends for every sequence number.
\<close>

section \<open>The doubling loop\<close>

lemma unat_double:
  assumes "unat (a :: u64) < 2 ^ 32"
  shows "unat (a * 2) = 2 * unat a"
  using assms by (simp add: unat_word_ariths(2) mult.commute)

lemma grow_cap_ends:
  assumes "c \<noteq> 0" "unat need \<le> 2 ^ 32"
  shows "\<exists>k. grow_cap c need = Some k \<and> need \<le> k \<and> (k = c \<or> unat k < 2 * unat need)"
  using assms(1)
proof (induction "unat need - unat c" arbitrary: c rule: less_induct)
  case less
  show ?case
  proof (cases "c < need")
    case True
    then have lt: "unat c < unat need" by (simp add: word_less_nat_alt)
    then have d: "unat (c * 2) = 2 * unat c" using assms(2) by (intro unat_double) linarith
    moreover have "0 < unat c" using less.prems by (simp add: unat_gt_0)
    ultimately have "c * 2 \<noteq> 0" "unat need - unat (c * 2) < unat need - unat c"
      using lt by auto
    from less.hyps [OF this(2,1)] obtain k where
      "grow_cap (c * 2) need = Some k" "need \<le> k" "k = c * 2 \<or> unat k < 2 * unat need" by blast
    then show ?thesis using True d lt by (auto simp: grow_cap.simps [of c])
  qed (simp add: grow_cap.simps [of c])
qed

text \<open>A record whose array has as many entries as its capacity says.\<close>

definition lat_ok :: "path_latency \<Rightarrow> bool" where
  "lat_ok la \<longleftrightarrow> length (send_ts la) = unat (send_cap la)"

lemma need_bound: "unat (ucast (s :: u32) + 1 :: u64) = unat s + 1"
proof -
  have "unat s < 2 ^ LENGTH(32)" by (rule unsigned_less)
  then show ?thesis by (simp add: unat_word_ariths(1) unat_ucast_u32)
qed

lemma latency_grow_send_total_aux:
  assumes "lat_ok la"
  shows "\<exists>ok la'. latency_grow_send realloc la s = Some (ok, la') \<and> lat_ok la' \<and>
    (ok \<longrightarrow> unat s < length (send_ts la') \<and>
      send_ts la' = send_ts la @ replicate (length (send_ts la') - length (send_ts la)) 0) \<and>
    (\<not> ok \<longrightarrow> la' = la)"
proof (cases "ucast s + 1 \<le> send_cap la")
  case True
  then show ?thesis
    using assms by (auto simp: latency_grow_send_def lat_ok_def word_le_nat_alt need_bound)
next
  case False
  let ?c = "if send_cap la \<noteq> 0 then send_cap la else 4096" and ?need = "ucast s + 1 :: u64"
  have "unat s < 2 ^ LENGTH(32)" by (rule unsigned_less)
  then have "unat ?need \<le> 2 ^ 32" by (simp add: need_bound)
  moreover have "?c \<noteq> 0" by simp
  ultimately obtain k where k: "grow_cap ?c ?need = Some k" "?need \<le> k"
    using grow_cap_ends by blast
  have le: "send_cap la \<le> k" using False k(2) by simp
  then have "unat (k - send_cap la) = unat k - unat (send_cap la)" by (simp add: unat_sub)
  then show ?thesis
    using assms False k le by (auto simp: latency_grow_send_def lat_ok_def word_le_nat_alt need_bound Let_def)
qed

text \<open>
  C30. Recording a send time always ends: for every sequence number the capacity doubling stops,
  and when the allocation succeeds the array has an entry for that number, keeps the old entries and is filled up with zeros.
\<close>

theorem latency_grow_send_total:
  assumes "lat_ok la"
  shows "\<exists>ok la'. latency_grow_send realloc la s = Some (ok, la') \<and> lat_ok la' \<and>
    (ok \<longrightarrow> unat s < length (send_ts la') \<and>
      send_ts la' = send_ts la @ replicate (length (send_ts la') - length (send_ts la)) 0) \<and>
    (\<not> ok \<longrightarrow> la' = la)"
  using assms by (rule latency_grow_send_total_aux)

theorem latency_grow_send_total_witness:
  "\<exists>ok la'. latency_grow_send (\<lambda>_. True) no_latency 5 = Some (ok, la') \<and> lat_ok la' \<and>
     (ok \<longrightarrow> 5 < length (send_ts la'))"
  using latency_grow_send_total [of no_latency "\<lambda>_. True" 5] by (auto simp: lat_ok_def no_latency_def)

end
