(* ===== verification/Dp_Steps.thy ===== *)
theory Dp_Steps
  imports Dp_Latency
begin

text \<open>
  Composite steps of a data-plane network, for building runs: a node takes a packet or passes it
  on, the main thread injects a packet, and a round of injections into two paths of opposite
  directions.
\<close>

lemma inject_note_total:
  assumes "\<And>q. lat_ok (lat pl q)"
  shows "\<exists>ctx. inject_note realloc now p pl = Some (pl\<lparr>lat := ctx\<rparr>) \<and> (\<forall>q. lat_ok (ctx q))"
proof -
  let ?s = "ucast (sent (stats pl p)) :: u32"
  obtain ok la where g: "latency_grow_send realloc (lat pl p) ?s = Some (ok, la)" "lat_ok la"
    using latency_grow_send_total_aux [OF assms] by blast
  define ctx where "ctx = (if ok then (lat pl)(p := la\<lparr>send_ts := (send_ts la)[unat ?s := now]\<rparr>) else lat pl)"
  have "inject_note realloc now p pl = Some (pl\<lparr>lat := ctx\<rparr>)"
    using g(1) by (simp add: inject_note_def latency_on_send_def ctx_def)
  moreover have "lat_ok (ctx q)" for q
    using g(2) assms [of q] by (auto simp: ctx_def lat_ok_def)
  ultimately show ?thesis by blast
qed

lemma poll_nothing: "done_q pl d = [] \<Longrightarrow> poll_done_try realloc d pl = pl"
  by (simp add: poll_done_try_def done_get_def)

text \<open>What the composite steps below leave alone.\<close>

definition same_env :: "('l, 'd) plane \<Rightarrow> ('l, 'd) plane \<Rightarrow> bool" where
  "same_env pl pl' \<longleftrightarrow> done_q pl' = done_q pl \<and> link_closed pl' = link_closed pl \<and>
     done_closed pl' = done_closed pl \<and> stop pl' = stop pl \<and> cfg pl' = cfg pl \<and>
     (\<forall>p. enabled (stats pl' p) = enabled (stats pl p)) \<and> (\<forall>q. lat_ok (lat pl q)) = (\<forall>q. lat_ok (lat pl' q))"

lemma same_env_trans: "same_env a b \<Longrightarrow> same_env b c \<Longrightarrow> same_env a c"
  by (simp add: same_env_def)

text \<open>
  The configuration \<open>-P -l 3,4\<close>, and the state of a run without completions.
\<close>

definition both_ways :: "run_config \<Rightarrow> bool" where
  "both_ways cf \<longleftrightarrow> parallel cf \<and> duration cf = None \<and>
     (\<forall>p. path_enabled cf p \<longleftrightarrow> p = PATH_TUNNEL_FORWARD_TUN \<or> p = PATH_TUN_FORWARD_TUNNEL)"

definition calm :: "run_config \<Rightarrow> ('l, 'd) plane \<Rightarrow> bool" where
  "calm cf pl \<longleftrightarrow> done_q pl = (\<lambda>_. []) \<and> (\<forall>l. \<not> link_closed pl l) \<and> (\<forall>d. \<not> done_closed pl d) \<and>
     \<not> stop pl \<and> cfg pl = cf \<and> (\<forall>p. enabled (stats pl p) = path_enabled cf p) \<and> (\<forall>q. lat_ok (lat pl q))"

lemma calm_same: "calm cf pl \<Longrightarrow> same_env pl pl' \<Longrightarrow> calm cf pl'"
  by (simp add: calm_def same_env_def)

lemma main_at_same: "same_env pl (main_at pc pl)"
  by (simp add: same_env_def)

section \<open>Composite steps\<close>

context dp_network
begin

lemma reach_node_step: "nstep now n pl = Some pl' \<Longrightarrow> dp_reach T nstep pl pl'"
  by (rule dp_reach.node [OF dp_reach.start])

text \<open>A node at the head of its loop takes the packet of its first non-empty port.\<close>

lemma node_take:
  assumes "node_pcs pl n = Loop" "\<not> stop pl" "i < length (ports n)"
    "\<And>j. j < i \<Longrightarrow> link_q pl (ports n ! j) = []" "link_q pl (ports n ! i) = x # xs"
  shows "dp_reach T nstep pl (pl\<lparr>node_pcs := (node_pcs pl)(n := Send (handle n (ports n ! i) now x)),
      link_q := (link_q pl)(ports n ! i := xs)\<rparr>)"
proof -
  have polls: "dp_reach T nstep pl (node_at n (Poll j) pl)" if "j \<le> i" for j
    using that
  proof (induction j)
    case 0
    have "nstep 0 n pl = Some (node_at n (Poll 0) pl)" using assms(1,2) by (simp add: nstep_defs)
    then show ?case by (rule reach_node_step)
  next
    case (Suc j)
    have st: "nstep 0 n (node_at n (Poll j) pl) = Some (node_at n (Poll (Suc j)) pl)"
      using Suc.prems assms(3,4) by (simp add: nstep_defs link_get_def)
    have "dp_reach T nstep pl (node_at n (Poll j) pl)" by (rule Suc.IH) (use Suc.prems in simp)
    then show ?case using st by (rule dp_reach.node)
  qed
  have "nstep now n (node_at n (Poll i) pl) =
    Some (pl\<lparr>node_pcs := (node_pcs pl)(n := Send (handle n (ports n ! i) now x)),
      link_q := (link_q pl)(ports n ! i := xs)\<rparr>)"
    using assms(3,5) by (simp add: nstep_defs link_get_def)
  then show ?thesis using polls [OF order_refl] by (rule dp_reach.node [rotated])
qed

text \<open>A node passes a packet on: from its first non-empty port to a channel with room.\<close>

lemma node_pass:
  assumes "node_pcs pl n = Loop" "\<not> stop pl" "i < length (ports n)"
    "\<And>j. j < i \<Longrightarrow> link_q pl (ports n ! j) = []" "link_q pl (ports n ! i) = x # xs"
    and out: "handle n (ports n ! i) 0 x = SendPkt l x" "l \<noteq> ports n ! i" "\<not> link_closed pl l"
      "length (link_q pl l) < link_cap T l"
  shows "\<exists>pl'. dp_reach T nstep pl pl' \<and> link_q pl' = (link_q pl)(ports n ! i := xs, l := link_q pl l @ [x]) \<and>
    node_pcs pl' = node_pcs pl \<and> main_pcs pl' = main_pcs pl \<and> same_env pl pl'"
proof -
  let ?pl = "pl\<lparr>node_pcs := (node_pcs pl)(n := Send (SendPkt l x)), link_q := (link_q pl)(ports n ! i := xs)\<rparr>"
  have r: "dp_reach T nstep pl ?pl" using node_take [OF assms(1-5), of 0] out(1) by simp
  define pl2 where "pl2 = pl\<lparr>link_q := (link_q pl)(ports n ! i := xs, l := link_q pl l @ [x]),
      node_pcs := (node_pcs pl)(n := Loop), node_idle_cnt := (node_idle_cnt pl)(n := 0)\<rparr>"
  have "nstep 0 n ?pl = Some pl2"
    using out(2-4) by (simp add: nstep_defs perform_def link_put_def pl2_def)
  with r have "dp_reach T nstep pl pl2" by (rule dp_reach.node)
  moreover have "node_pcs pl2 = node_pcs pl" using assms(1) by (auto simp: pl2_def)
  ultimately show ?thesis by (intro exI [of _ pl2] conjI) (simp_all add: pl2_def same_env_def)
qed

lemma reach_main_step: "main_step T realloc now pl = Some pl' \<Longrightarrow> dp_reach T nstep pl pl'"
  by (rule dp_reach.main [OF dp_reach.start])

text \<open>The main thread injects one packet and finds no completion.\<close>

lemma main_polls_nothing:
  assumes "done_q pl = (\<lambda>_. [])" "main_pcs pl = M_poll 0 (Par r i)"
  shows "dp_reach T nstep pl (main_at (M_next (Par r (Suc i))) pl)"
proof -
  let ?n = "length (dones T)"
  have polls: "dp_reach T nstep pl (main_at (M_poll j (Par r i)) pl)" if "j \<le> ?n" for j
    using that
  proof (induction j)
    case 0
    have "main_at (M_poll 0 (Par r i)) pl = pl" using assms(2) by simp
    then show ?case by (metis dp_reach.start)
  next
    case (Suc j)
    then have "dp_reach T nstep pl (main_at (M_poll j (Par r i)) pl)" by simp
    moreover have "main_step T (\<lambda>_. True) 0 (main_at (M_poll j (Par r i)) pl) = Some (main_at (M_poll (Suc j) (Par r i)) pl)"
      using Suc.prems assms(1) by (simp add: main_step_defs poll_nothing)
    ultimately show ?case by (rule dp_reach.main)
  qed
  have "main_step T (\<lambda>_. True) 0 (main_at (M_poll ?n (Par r i)) pl) = Some (main_at (M_next (Par r (Suc i))) pl)"
    by (simp add: main_step_defs)
  then show ?thesis using polls [OF order_refl] by (rule dp_reach.main [rotated])
qed

text \<open>The main thread notes the time of sending and is about to inject a packet.\<close>

lemma main_notes:
  fixes pl i defines "p \<equiv> all_paths ! i"
  assumes pc: "main_pcs pl = M_next (Par r i)" "i < PATH_COUNT" "enabled (stats pl p)"
    and lat: "\<forall>q. lat_ok (lat pl q)"
  shows "\<exists>ctx. dp_reach T nstep pl (main_at (M_send p (Par r i)) (pl\<lparr>lat := ctx\<rparr>)) \<and> (\<forall>q. lat_ok (ctx q))"
proof -
  obtain ctx where ctx: "inject_note (\<lambda>_. True) 0 p pl = Some (pl\<lparr>lat := ctx\<rparr>)" "\<forall>q. lat_ok (ctx q)"
    using inject_note_total [of pl "\<lambda>_. True" 0 p] lat by blast
  have "main_step T (\<lambda>_. True) 0 pl = Some (main_at (M_send p (Par r i)) (pl\<lparr>lat := ctx\<rparr>))"
    using pc ctx(1) by (simp add: main_step_defs main_next_def p_def)
  then show ?thesis using ctx(2) reach_main_step by blast
qed

lemma main_inject:
  fixes pl i defines "p \<equiv> all_paths ! i"
  assumes pc: "main_pcs pl = M_next (Par r i)" "i < PATH_COUNT" "enabled (stats pl p)"
    and lat: "\<forall>q. lat_ok (lat pl q)" and none: "done_q pl = (\<lambda>_. [])"
    and inj: "\<not> link_closed pl (inject_to T p)" "length (link_q pl (inject_to T p)) < link_cap T (inject_to T p)"
  shows "\<exists>pl' x. dp_reach T nstep pl pl' \<and> path x = p \<and> link_q pl' = (link_q pl)(inject_to T p := link_q pl (inject_to T p) @ [x]) \<and>
    node_pcs pl' = node_pcs pl \<and> main_pcs pl' = M_next (Par r (Suc i)) \<and> same_env pl pl'"
proof -
  obtain ctx where ctx: "dp_reach T nstep pl (main_at (M_send p (Par r i)) (pl\<lparr>lat := ctx\<rparr>))" "\<forall>q. lat_ok (ctx q)"
    using main_notes [OF pc(1,2)] pc(3) lat p_def by blast
  let ?x = "\<lparr>seq = ucast (sent (stats pl p)), path = p\<rparr>"
  define pl2 where "pl2 = pl\<lparr>lat := ctx, link_q := (link_q pl)(inject_to T p := link_q pl (inject_to T p) @ [?x]), main_pcs := M_poll 0 (Par r i),
      stats := (stats pl)(p := (stats pl p)\<lparr>sent := sent (stats pl p) + 1\<rparr>)\<rparr>"
  note ctx(1)
  moreover have "main_step T (\<lambda>_. True) 0 (main_at (M_send p (Par r i)) (pl\<lparr>lat := ctx\<rparr>)) = Some pl2"
    using inj by (simp add: main_step_defs inject_packet_def link_put_def pl2_def)
  ultimately have "dp_reach T nstep pl pl2" by (rule dp_reach.main)
  moreover have "dp_reach T nstep pl2 (main_at (M_next (Par r (Suc i))) pl2)"
    by (rule main_polls_nothing) (simp_all add: pl2_def none)
  ultimately have "dp_reach T nstep pl (main_at (M_next (Par r (Suc i))) pl2)" by (rule dp_reach_trans)
  then show ?thesis
    by (intro exI [of _ "main_at (M_next (Par r (Suc i))) pl2"] exI [of _ ?x])
      (use ctx(2) lat in \<open>simp add: pl2_def same_env_def\<close>)
qed

lemma main_skip:
  assumes "main_pcs pl = M_next (Par r i)" "i < PATH_COUNT" "\<not> enabled (stats pl (all_paths ! i))"
  shows "dp_reach T nstep pl (main_at (M_next (Par r (Suc i))) pl)"
  by (rule reach_main_step [of "\<lambda>_. True" 0]) (use assms in \<open>simp add: main_step_defs main_next_def\<close>)

section \<open>Two paths in opposite directions\<close>

lemma round_enabled:
  assumes "i < 6" "same_env pl a" "both_ways cf" "calm cf pl"
  shows "enabled (stats a (all_paths ! i)) = (i = 2 \<or> i = 3)"
  using assms by (auto simp: calm_def both_ways_def all_paths_def same_env_def less_Suc_eq eval_nat_numeral)

text \<open>The beginning of a round, up to the first of the two paths.\<close>

lemma round_starts:
  assumes cf: "both_ways cf" "calm cf pl" and pc: "main_pcs pl = M_round r" "r < unat (count cf)"
  shows "dp_reach T nstep pl (main_at (M_next (Par r 2)) pl)"
proof -
  let ?at = "\<lambda>i. main_at (M_next (Par r i)) pl"
  have en: "\<not> enabled (stats (?at i) (all_paths ! i))" if "i < 2" for i
    using round_enabled [OF _ main_at_same cf, of i "M_next (Par r i)"] that by simp
  have "main_step T (\<lambda>_. True) 0 pl = Some (?at 0)"
    using pc cf by (simp add: main_step_defs go_on_injecting_def calm_def both_ways_def)
  then have r0: "dp_reach T nstep pl (?at 0)" by (rule reach_main_step)
  have "dp_reach T nstep (?at 0) (?at 1)" "dp_reach T nstep (?at 1) (?at 2)"
    using main_skip [of "?at 0" r 0] main_skip [of "?at 1" r 1] en [of 0] en [of 1]
    by (simp_all add: PATH_COUNT_def numeral_2_eq_2)
  then show ?thesis using r0 dp_reach_trans by blast
qed

text \<open>One round of injections: a packet for either direction.\<close>

lemma round_injects:
  fixes ix iy
  defines "ix \<equiv> inject_to T PATH_TUNNEL_FORWARD_TUN" and "iy \<equiv> inject_to T PATH_TUN_FORWARD_TUNNEL"
  assumes cf: "both_ways cf" "calm cf pl" and pc: "main_pcs pl = M_round r" "r < unat (count cf)"
    and room: "length (link_q pl ix) < link_cap T ix" "length (link_q pl iy) < link_cap T iy" "ix \<noteq> iy"
  shows "\<exists>pl' x y. dp_reach T nstep pl pl' \<and> calm cf pl' \<and> main_pcs pl' = M_round (Suc r) \<and> node_pcs pl' = node_pcs pl \<and>
    path x = PATH_TUNNEL_FORWARD_TUN \<and> path y = PATH_TUN_FORWARD_TUNNEL \<and>
    link_q pl' = (link_q pl)(ix := link_q pl ix @ [x], iy := link_q pl iy @ [y])"
proof -
  let ?at = "\<lambda>i pl. main_at (M_next (Par r i)) pl"
  have en: "enabled (stats a (all_paths ! i)) = (i = 2 \<or> i = 3)" if "i < 6" "same_env pl a" for i a
    using that cf by (rule round_enabled)
  have skip: "dp_reach T nstep a (?at (Suc i) a)"
    if "main_pcs a = M_next (Par r i)" "i < 6" "i \<noteq> 2" "i \<noteq> 3" "same_env pl a" for a i
    using main_skip [of a r i] that en [of i a] by (simp add: PATH_COUNT_def)
  have r2: "dp_reach T nstep pl (?at 2 pl)" by (rule round_starts [OF cf pc])
  have path: "all_paths ! 2 = PATH_TUNNEL_FORWARD_TUN" "all_paths ! 3 = PATH_TUN_FORWARD_TUNNEL"
    by (simp_all add: all_paths_def eval_nat_numeral)
  obtain a x where a: "dp_reach T nstep (?at 2 pl) a" "path x = PATH_TUNNEL_FORWARD_TUN"
      "link_q a = (link_q pl)(ix := link_q pl ix @ [x])"
      "node_pcs a = node_pcs pl" "main_pcs a = M_next (Par r 3)" "same_env pl a"
    using main_inject [of "?at 2 pl" r 2] en [of 2 "?at 2 pl"] cf(2) path(1) room(1)
    by (auto simp: PATH_COUNT_def calm_def same_env_def numeral_3_eq_3 numeral_2_eq_2 ix_def)
  have "enabled (stats a (all_paths ! 3))" using en [of 3 a] a(6) by simp
  then obtain b y where b: "dp_reach T nstep a b" "path y = PATH_TUN_FORWARD_TUNNEL"
      "link_q b = (link_q a)(iy := link_q a iy @ [y])"
      "node_pcs b = node_pcs a" "main_pcs b = M_next (Par r 4)" "same_env a b"
    using main_inject [of a r 3] path(2) a(3,5) room(2,3) calm_same [OF cf(2) a(6)]
    by (auto simp: PATH_COUNT_def calm_def iy_def eval_nat_numeral)
  have e: "same_env pl b" using a(6) b(6) same_env_trans by blast
  have "dp_reach T nstep b (?at 5 b)" "dp_reach T nstep (?at 5 b) (?at 6 b)"
    using skip [of b 4] skip [of "?at 5 b" 5] b(5) same_env_trans [OF e main_at_same] e
    by (simp_all add: eval_nat_numeral)
  moreover have "main_step T (\<lambda>_. True) 0 (?at 6 b) = Some (main_at (M_round (Suc r)) b)"
    by (simp add: main_step_defs main_next_def PATH_COUNT_def)
  ultimately have "dp_reach T nstep pl (main_at (M_round (Suc r)) b)"
    using r2 a(1) b(1) dp_reach_trans dp_reach.main by meson
  moreover have "link_q b = (link_q pl)(ix := link_q pl ix @ [x], iy := link_q pl iy @ [y])"
    using a(3) b(3) room(3) by simp
  ultimately show ?thesis
    using a b calm_same [OF cf(2) same_env_trans [OF e main_at_same]]
    by (intro exI [of _ "main_at (M_round (Suc r)) b"] exI [of _ x] exI [of _ y]) simp
qed

text \<open>A full channel stays as it is while its reader does not run.\<close>

lemma full_kept:
  assumes "nstep now n pl = Some pl'" "length (link_q pl l) = link_cap T l" "l \<notin> set (ports n)"
  shows "link_q pl' l = link_q pl l"
  using assms(1) by (cases rule: node_step_cases) (use assms(2,3) in auto)

end

end
