(* ===== verification/Dp_Spsc.thy ===== *)
theory Dp_Spsc
  imports Dp_Steps
begin

text \<open>
  \<open>examples/dplane_pipeline.c\<close>: one single-producer single-consumer channel per link. Its channels,
  its handlers and its nodes, the routes of its paths, and the results of the network locale
  for it.
\<close>

section \<open>Channels\<close>

definition CHAN_CAP :: nat where
  "CHAN_CAP = 4096"

definition inject_ch :: "path_id \<Rightarrow> link" where
  "inject_ch p =
     (case p of
        PATH_TUN_FORWARD_ENC_TUNNEL \<Rightarrow> Inj_tun
      | PATH_TUN_FORWARD_TUNNEL \<Rightarrow> Inj_tun
      | PATH_TUNNEL_ENC_FORWARD_TUN \<Rightarrow> Inj_tunnel
      | PATH_TUNNEL_FORWARD_TUN \<Rightarrow> Inj_tunnel
      | PATH_TUNNEL_FORWARD_OAM \<Rightarrow> Inj_tunnel
      | PATH_OAM_FORWARD_TUNNEL \<Rightarrow> Inj_oam)"

definition done_links :: "done_link list" where
  "done_links = [Done_tun, Done_tunnel, Done_oam]"

definition close_inject :: "link list" where
  "close_inject = [Inj_tun, Inj_tunnel, Inj_oam]"

definition close_links :: "link list" where
  "close_links =
     [Tun_to_forward, Forward_to_enc, Enc_to_tunnel, Tunnel_to_enc, Enc_to_forward, Forward_to_tun,
      Tunnel_to_forward, Forward_to_oam, Oam_to_forward, Forward_to_tunnel, Inj_tun, Inj_tunnel, Inj_oam]"

definition spsc_net :: "(link, done_link) net" where
  "spsc_net =
     \<lparr>link_cap = \<lambda>_. CHAN_CAP, done_cap = \<lambda>_. CHAN_CAP, inject_to = inject_ch, dones = done_links,
      early_close = close_inject, link_order = close_links\<rparr>"

lemma spsc_net_simps [simp]:
  "link_cap spsc_net l = CHAN_CAP" "done_cap spsc_net d = CHAN_CAP" "inject_to spsc_net = inject_ch"
  "dones spsc_net = done_links" "early_close spsc_net = close_inject" "link_order spsc_net = close_links"
  by (simp_all add: spsc_net_def)

section \<open>Handlers\<close>

definition handle_tun_inj :: "pkt \<Rightarrow> (link, done_link) action" where
  "handle_tun_inj p = SendPkt Tun_to_forward p"

definition handle_tun_return :: "int \<Rightarrow> pkt \<Rightarrow> (link, done_link) action" where
  "handle_tun_return now p = SendDone Done_tun \<lparr>d_path = path p, d_seq = seq p, done_ns = now\<rparr>"

definition forward_route :: "pkt \<Rightarrow> (link, done_link) action" where
  "forward_route p =
     (case path p of
        PATH_TUN_FORWARD_ENC_TUNNEL \<Rightarrow> SendPkt Forward_to_enc p
      | PATH_TUN_FORWARD_TUNNEL \<Rightarrow> SendPkt Forward_to_tunnel p
      | PATH_OAM_FORWARD_TUNNEL \<Rightarrow> SendPkt Forward_to_tunnel p
      | PATH_TUNNEL_ENC_FORWARD_TUN \<Rightarrow> SendPkt Forward_to_tun p
      | PATH_TUNNEL_FORWARD_TUN \<Rightarrow> SendPkt Forward_to_tun p
      | PATH_TUNNEL_FORWARD_OAM \<Rightarrow> SendPkt Forward_to_oam p)"

definition handle_enc_pkt :: "pkt \<Rightarrow> (link, done_link) action" where
  "handle_enc_pkt p =
     (if path p = PATH_TUN_FORWARD_ENC_TUNNEL then SendPkt Enc_to_tunnel p
      else if path p = PATH_TUNNEL_ENC_FORWARD_TUN then SendPkt Enc_to_forward p
      else Drop)"

definition tunnel_outbound :: "pkt \<Rightarrow> (link, done_link) action" where
  "tunnel_outbound p =
     (if path p = PATH_TUNNEL_ENC_FORWARD_TUN then SendPkt Tunnel_to_enc p
      else SendPkt Tunnel_to_forward p)"

definition handle_tunnel_sink :: "int \<Rightarrow> pkt \<Rightarrow> (link, done_link) action" where
  "handle_tunnel_sink now p = SendDone Done_tunnel \<lparr>d_path = path p, d_seq = seq p, done_ns = now\<rparr>"

definition handle_oam_inj :: "pkt \<Rightarrow> (link, done_link) action" where
  "handle_oam_inj p = SendPkt Oam_to_forward p"

definition handle_oam_return :: "int \<Rightarrow> pkt \<Rightarrow> (link, done_link) action" where
  "handle_oam_return now p = SendDone Done_oam \<lparr>d_path = path p, d_seq = seq p, done_ns = now\<rparr>"

section \<open>Nodes\<close>

definition tun_closed :: "(link, done_link) plane \<Rightarrow> bool" where
  "tun_closed pl \<longleftrightarrow> link_closed pl Inj_tun \<and> link_closed pl Forward_to_tun"

definition tun_node :: "int \<Rightarrow> (link, done_link) plane \<Rightarrow> (link, done_link) plane option" where
  "tun_node =
     node_loop spsc_net N_tun [Inj_tun, Forward_to_tun] tun_closed
       (\<lambda>l now p. if l = Inj_tun then handle_tun_inj p else handle_tun_return now p)"

definition forward_closed :: "(link, done_link) plane \<Rightarrow> bool" where
  "forward_closed pl \<longleftrightarrow> link_closed pl Tun_to_forward \<and> link_closed pl Tunnel_to_forward \<and>
     link_closed pl Oam_to_forward \<and> link_closed pl Enc_to_forward"

definition forward_node :: "int \<Rightarrow> (link, done_link) plane \<Rightarrow> (link, done_link) plane option" where
  "forward_node =
     node_loop spsc_net N_forward [Tun_to_forward, Tunnel_to_forward, Oam_to_forward, Enc_to_forward] forward_closed
       (\<lambda>l now p. forward_route p)"

definition enc_closed :: "(link, done_link) plane \<Rightarrow> bool" where
  "enc_closed pl \<longleftrightarrow> link_closed pl Forward_to_enc \<and> link_closed pl Tunnel_to_enc"

definition enc_node :: "int \<Rightarrow> (link, done_link) plane \<Rightarrow> (link, done_link) plane option" where
  "enc_node = node_loop spsc_net N_enc [Forward_to_enc, Tunnel_to_enc] enc_closed (\<lambda>l now p. handle_enc_pkt p)"

definition tunnel_closed :: "(link, done_link) plane \<Rightarrow> bool" where
  "tunnel_closed pl \<longleftrightarrow> link_closed pl Inj_tunnel \<and> link_closed pl Enc_to_tunnel \<and> link_closed pl Forward_to_tunnel"

definition tunnel_node :: "int \<Rightarrow> (link, done_link) plane \<Rightarrow> (link, done_link) plane option" where
  "tunnel_node =
     node_loop spsc_net N_tunnel [Inj_tunnel, Enc_to_tunnel, Forward_to_tunnel] tunnel_closed
       (\<lambda>l now p. if l = Inj_tunnel then tunnel_outbound p else handle_tunnel_sink now p)"

definition oam_closed :: "(link, done_link) plane \<Rightarrow> bool" where
  "oam_closed pl \<longleftrightarrow> link_closed pl Inj_oam \<and> link_closed pl Forward_to_oam"

definition oam_node :: "int \<Rightarrow> (link, done_link) plane \<Rightarrow> (link, done_link) plane option" where
  "oam_node =
     node_loop spsc_net N_oam [Inj_oam, Forward_to_oam] oam_closed
       (\<lambda>l now p. if l = Inj_oam then handle_oam_inj p else handle_oam_return now p)"

definition node_step :: "int \<Rightarrow> node \<Rightarrow> (link, done_link) plane \<Rightarrow> (link, done_link) plane option" where
  "node_step now n =
     (case n of N_tun \<Rightarrow> tun_node now | N_forward \<Rightarrow> forward_node now | N_enc \<Rightarrow> enc_node now
      | N_tunnel \<Rightarrow> tunnel_node now | N_oam \<Rightarrow> oam_node now)"

text \<open>The nodes, uniformly.\<close>

definition ports :: "node \<Rightarrow> link list" where
  "ports n =
     (case n of
        N_tun \<Rightarrow> [Inj_tun, Forward_to_tun]
      | N_forward \<Rightarrow> [Tun_to_forward, Tunnel_to_forward, Oam_to_forward, Enc_to_forward]
      | N_enc \<Rightarrow> [Forward_to_enc, Tunnel_to_enc]
      | N_tunnel \<Rightarrow> [Inj_tunnel, Enc_to_tunnel, Forward_to_tunnel]
      | N_oam \<Rightarrow> [Inj_oam, Forward_to_oam])"

definition node_handle :: "node \<Rightarrow> link \<Rightarrow> int \<Rightarrow> pkt \<Rightarrow> (link, done_link) action" where
  "node_handle n l now p =
     (case n of
        N_tun \<Rightarrow> if l = Inj_tun then handle_tun_inj p else handle_tun_return now p
      | N_forward \<Rightarrow> forward_route p
      | N_enc \<Rightarrow> handle_enc_pkt p
      | N_tunnel \<Rightarrow> if l = Inj_tunnel then tunnel_outbound p else handle_tunnel_sink now p
      | N_oam \<Rightarrow> if l = Inj_oam then handle_oam_inj p else handle_oam_return now p)"

definition node_closed :: "node \<Rightarrow> (link, done_link) plane \<Rightarrow> bool" where
  "node_closed n pl = list_all (link_closed pl) (ports n)"

lemma node_step_eq: "node_step now n = node_loop spsc_net n (ports n) (node_closed n) (node_handle n) now"
proof -
  have c: "tun_closed = node_closed N_tun" "forward_closed = node_closed N_forward"
    "enc_closed = node_closed N_enc" "tunnel_closed = node_closed N_tunnel" "oam_closed = node_closed N_oam"
    by (auto simp: fun_eq_iff node_closed_def ports_def tun_closed_def forward_closed_def enc_closed_def
        tunnel_closed_def oam_closed_def)
  have h: "node_handle N_tun = (\<lambda>l now p. if l = Inj_tun then handle_tun_inj p else handle_tun_return now p)"
    "node_handle N_forward = (\<lambda>l now p. forward_route p)" "node_handle N_enc = (\<lambda>l now p. handle_enc_pkt p)"
    "node_handle N_tunnel = (\<lambda>l now p. if l = Inj_tunnel then tunnel_outbound p else handle_tunnel_sink now p)"
    "node_handle N_oam = (\<lambda>l now p. if l = Inj_oam then handle_oam_inj p else handle_oam_return now p)"
    by (auto simp: fun_eq_iff node_handle_def)
  show ?thesis
    by (cases n) (simp_all add: node_step_def c h ports_def tun_node_def forward_node_def enc_node_def
        tunnel_node_def oam_node_def)
qed

lemmas node_step_defs = node_step_eq node_loop_def

section \<open>Routes\<close>

definition route :: "(link, done_link) routes" where
  "route p =
     (case p of
        PATH_TUN_FORWARD_ENC_TUNNEL \<Rightarrow>
          [At_link Inj_tun, At_node N_tun, At_link Tun_to_forward, At_node N_forward,
           At_link Forward_to_enc, At_node N_enc, At_link Enc_to_tunnel, At_node N_tunnel, At_done Done_tunnel]
      | PATH_TUNNEL_ENC_FORWARD_TUN \<Rightarrow>
          [At_link Inj_tunnel, At_node N_tunnel, At_link Tunnel_to_enc, At_node N_enc,
           At_link Enc_to_forward, At_node N_forward, At_link Forward_to_tun, At_node N_tun, At_done Done_tun]
      | PATH_TUNNEL_FORWARD_TUN \<Rightarrow>
          [At_link Inj_tunnel, At_node N_tunnel, At_link Tunnel_to_forward, At_node N_forward,
           At_link Forward_to_tun, At_node N_tun, At_done Done_tun]
      | PATH_TUN_FORWARD_TUNNEL \<Rightarrow>
          [At_link Inj_tun, At_node N_tun, At_link Tun_to_forward, At_node N_forward,
           At_link Forward_to_tunnel, At_node N_tunnel, At_done Done_tunnel]
      | PATH_TUNNEL_FORWARD_OAM \<Rightarrow>
          [At_link Inj_tunnel, At_node N_tunnel, At_link Tunnel_to_forward, At_node N_forward,
           At_link Forward_to_oam, At_node N_oam, At_done Done_oam]
      | PATH_OAM_FORWARD_TUNNEL \<Rightarrow>
          [At_link Inj_oam, At_node N_oam, At_link Oam_to_forward, At_node N_forward,
           At_link Forward_to_tunnel, At_node N_tunnel, At_done Done_tunnel])"

lemmas handler_defs = node_handle_def handle_tun_inj_def
  handle_tun_return_def forward_route_def handle_enc_pkt_def tunnel_outbound_def
  handle_tunnel_sink_def handle_oam_inj_def handle_oam_return_def

interpretation spsc: dp_network spsc_net node_step ports node_closed node_handle route
proof unfold_locales
  fix now n p
  show "node_step now n = node_loop spsc_net n (ports n) (node_closed n) (node_handle n) now"
    by (rule node_step_eq)
  show "distinct (route p)" by (cases p) (simp_all add: route_def)
  show "\<exists>us. route p = At_link (inject_to spsc_net p) # us"
    by (cases p) (simp_all add: route_def inject_ch_def)
next
  fix d p
  assume "At_done d \<in> set (route p)"
  then show "\<exists>us. route p = us @ [At_done d]" by (cases p) (auto simp: route_def)
next
  fix p n l
  assume "hop route p (At_node n) (At_link l)"
  then show "l \<notin> set (early_close spsc_net)" by (cases p) (auto simp: hop_def route_def close_inject_def)
next
  fix l n now and x :: pkt
  assume "l \<in> set (ports n)" "At_link l \<in> set (route (path x))"
  then show "hop route (path x) (At_link l) (At_node n) \<and> action_ok route n (node_handle n l now x) \<and>
    action_held (node_handle n l now x) = [(path x, seq x)]"
    by (cases n; cases "path x"; auto simp: ports_def route_def hop_def action_ok_def action_held_def handler_defs)
qed

section \<open>Results\<close>

text \<open>A run of the self-test: one packet from oam over forward to the tunnel, from start to join.\<close>

definition demo_cfg :: run_config where
  "demo_cfg = default_config\<lparr>path_enabled := (\<lambda>p. p = PATH_OAM_FORWARD_TUNNEL)\<rparr>"

definition demo_plane :: "(link, done_link) plane" where
  "demo_plane = plane_init 0 (\<lambda>_. no_latency) demo_cfg"

definition demo_inject :: "dp_event list" where
  "demo_inject =
     [Main_ev 1, Main_ev 1, Main_ev 1, Main_ev 1, Main_ev 1, Main_ev 1, Main_ev 1, Main_ev 1,
      Node_ev 2 N_oam, Node_ev 2 N_oam, Node_ev 2 N_oam, Node_ev 3 N_forward, Node_ev 3 N_forward,
      Node_ev 3 N_forward, Node_ev 3 N_forward]"

definition demo_rest :: "dp_event list" where
  "demo_rest =
     [Node_ev 4 N_forward, Node_ev 4 N_tunnel, Node_ev 4 N_tunnel, Node_ev 4 N_tunnel,
      Node_ev 4 N_tunnel, Node_ev 4 N_tunnel] @
     [Main_ev 5, Main_ev 5, Main_ev 5, Main_ev 5, Main_ev 5, Main_ev 5, Main_ev 5, Main_ev 5,
      Main_ev 5, Main_ev 5, Main_ev 5, Main_ev 5, Main_ev 5, Main_ev 5, Main_ev 5, Main_ev 5,
      Main_ev 5, Main_ev 5, Main_ev 5, Main_ev 5, Main_ev 5, Main_ev 5, Main_ev 5, Main_ev 5,
      Main_ev 5, Main_ev 5, Main_ev 5, Main_ev 5, Main_ev 5] @
     [Node_ev 6 N_tun, Node_ev 6 N_forward, Node_ev 6 N_enc, Node_ev 6 N_tunnel, Node_ev 6 N_oam]"

lemmas dp_eval = spsc_net_def plane_init_def start_clock_def demo_cfg_def default_config_def run_traffic_def
  enabled_path_count_def init_stats_def all_paths_def PATH_COUNT_def main_step_defs main_next_def
  go_on_injecting_def inject_note_def latency_on_send_def latency_grow_send_def no_latency_def
  grow_cap.simps inject_packet_def inject_ch_def link_put_def CHAN_CAP_def node_step_defs ports_def
  link_get_def handler_defs perform_def done_put_def done_links_def poll_done_try_def done_get_def
  stat_on_recv_def latency_on_recv_def latency_push_def close_inject_def close_link_def close_links_def
  close_nth_def drain_done_def all_drained_def DRAIN_SEC_def

lemma demo_inject_runs:
  "\<exists>pl. dp_exec spsc_net node_step demo_inject demo_plane = Some pl \<and> running (main_pcs pl) \<and>
     node_pcs pl N_forward = Send (SendPkt Forward_to_tunnel \<lparr>seq = 0, path = PATH_OAM_FORWARD_TUNNEL\<rparr>)"
  unfolding demo_plane_def demo_inject_def by (simp add: dp_eval running_def)

lemma demo_runs: "\<exists>pl. dp_exec spsc_net node_step (demo_inject @ demo_rest) demo_plane = Some pl \<and> main_pcs pl = M_join 0"
  unfolding demo_plane_def demo_inject_def demo_rest_def by (simp add: dp_eval)

lemma demo_reach: "dp_exec spsc_net node_step es demo_plane = Some pl \<Longrightarrow> dp_reach spsc_net node_step (plane_init 0 (\<lambda>_. no_latency) demo_cfg) pl"
  unfolding demo_plane_def by (rule dp_exec_reach [OF dp_reach.start])

text \<open>
  C28. Packets never leave their route: in every reachable state of the self-test each channel
  holds only packets whose path uses it, and a node that is sending has the packet of its port
  and sends it to the next stop of that packet's path.
\<close>

theorem dplane_on_route: "dp_reach spsc_net node_step (plane_init now ctx cf) pl \<Longrightarrow> dp_typed route pl"
  by (rule spsc.on_route)

theorem dplane_on_route_witness:
  "\<exists>pl. dp_exec spsc_net node_step demo_inject demo_plane = Some pl \<and> dp_typed route pl \<and>
     (\<exists>a. node_pcs pl N_forward = Send a)"
  using demo_inject_runs dplane_on_route [OF demo_reach] by blast



text \<open>
  C12. The verdict of the self-test: a run by count that reaches the join without a timeout or a
  blocked injection has sent and received exactly the requested number of packets on every enabled
  path, and exits with 0; any other run exits with 1.
\<close>

theorem dplane_verdict:
  assumes "dp_reach spsc_net node_step (plane_init now ctx cf) pl" "duration cf = None" "main_pcs pl = M_join rc"
  shows "exit_code rc pl = (if rc = 0 then 0 else 1) \<and> (rc = 0 \<longrightarrow> delivered pl)"
  using assms by (rule spsc.verdict)

theorem dplane_verdict_witness:
  "\<exists>pl. dp_exec spsc_net node_step (demo_inject @ demo_rest) demo_plane = Some pl \<and> exit_code 0 pl = 0 \<and> delivered pl"
proof -
  have "duration demo_cfg = None" by (simp add: demo_cfg_def default_config_def)
  then show ?thesis using demo_runs dplane_verdict [OF demo_reach] by (metis (full_types))
qed

end
