(* ===== verification/Dp_Deadlock.thy ===== *)
theory Dp_Deadlock
  imports Dp_Spsc
begin

text \<open>
  The nodes of \<open>examples/dplane_pipeline.c\<close> can deadlock: forward and tunnel block on each other's
  full input channel when both directions carry traffic.
\<close>

section \<open>Filling both directions\<close>

text \<open>
  After \<open>r\<close> rounds in which forward only serves packets from tun and tunnel only serves injected
  packets, both channels between them hold \<open>r\<close> packets.
\<close>

definition queues :: "nat \<Rightarrow> (link, done_link) plane \<Rightarrow> bool" where
  "queues r pl \<longleftrightarrow> length (link_q pl Tunnel_to_forward) = r \<and> length (link_q pl Forward_to_tunnel) = r \<and>
     (\<forall>l. l \<noteq> Tunnel_to_forward \<longrightarrow> l \<noteq> Forward_to_tunnel \<longrightarrow> link_q pl l = [])"

text \<open>One whole round, in which tunnel, tun and forward each pass one packet on.\<close>

definition at_round :: "run_config \<Rightarrow> nat \<Rightarrow> (link, done_link) plane \<Rightarrow> bool" where
  "at_round cf r pl \<longleftrightarrow> calm cf pl \<and> queues r pl \<and> main_pcs pl = M_round r \<and> node_pcs pl = (\<lambda>_. Loop)"

text \<open>After the injections: tunnel holds the packet it was given, tun has passed its own on to forward.\<close>

lemma round_prepare:
  assumes cf: "both_ways cf" "at_round cf r pl" "r < unat (count cf)"
  shows "\<exists>pl' x y. dp_reach spsc_net node_step pl pl' \<and> calm cf pl' \<and> main_pcs pl' = M_round (Suc r) \<and>
    path x = PATH_TUNNEL_FORWARD_TUN \<and> path y = PATH_TUN_FORWARD_TUNNEL \<and> node_pcs pl' = (\<lambda>_. Loop) \<and>
    link_q pl' = (link_q pl)(Inj_tunnel := [x], Tun_to_forward := [y])"
proof -
  have q: "queues r pl" "calm cf pl" and n: "node_pcs pl = (\<lambda>_. Loop)" and m: "main_pcs pl = M_round r"
    using cf(2) by (simp_all add: at_round_def)
  obtain a x y where a: "dp_reach spsc_net node_step pl a" "calm cf a" "main_pcs a = M_round (Suc r)" "node_pcs a = node_pcs pl"
      "path x = PATH_TUNNEL_FORWARD_TUN" "path y = PATH_TUN_FORWARD_TUNNEL"
      "link_q a = (link_q pl)(Inj_tunnel := [x], Inj_tun := [y])"
    using spsc.round_injects [OF cf(1) q(2) m cf(3)] q(1) by (auto simp: queues_def inject_ch_def CHAN_CAP_def)
  have "\<exists>b. dp_reach spsc_net node_step a b \<and> link_q b = (link_q a)(ports N_tun ! 0 := [], Tun_to_forward := link_q a Tun_to_forward @ [y]) \<and>
      node_pcs b = node_pcs a \<and> main_pcs b = main_pcs a \<and> same_env a b"
    by (rule spsc.node_pass) (use a n q in \<open>auto simp: ports_def handler_defs calm_def queues_def CHAN_CAP_def\<close>)
  then obtain b where b: "dp_reach spsc_net node_step a b" "node_pcs b = node_pcs a" "main_pcs b = main_pcs a" "same_env a b"
      "link_q b = (link_q a)(Inj_tun := [], Tun_to_forward := link_q a Tun_to_forward @ [y])"
    by (auto simp: ports_def)
  have "link_q b = (link_q pl)(Inj_tunnel := [x], Tun_to_forward := [y])"
    using b(5) a(7) q(1) by (auto simp: queues_def)
  then show ?thesis
    using a b n calm_same [OF a(2) b(4)] dp_reach_trans [OF a(1) b(1)]
    by (intro exI [of _ b] exI [of _ x] exI [of _ y]) simp
qed

lemma round_step:
  assumes cf: "both_ways cf" "at_round cf r pl" "r < unat (count cf)" "r < CHAN_CAP"
  shows "\<exists>pl'. dp_reach spsc_net node_step pl pl' \<and> at_round cf (Suc r) pl'"
proof -
  have q: "queues r pl" using cf(2) by (simp add: at_round_def)
  obtain a x y where a: "dp_reach spsc_net node_step pl a" "calm cf a" "main_pcs a = M_round (Suc r)"
      "path x = PATH_TUNNEL_FORWARD_TUN" "path y = PATH_TUN_FORWARD_TUNNEL" "node_pcs a = (\<lambda>_. Loop)"
      "link_q a = (link_q pl)(Inj_tunnel := [x], Tun_to_forward := [y])"
    using round_prepare [OF cf(1-3)] by blast
  have "\<exists>b. dp_reach spsc_net node_step a b \<and> link_q b = (link_q a)(ports N_tunnel ! 0 := [], Tunnel_to_forward := link_q a Tunnel_to_forward @ [x]) \<and>
      node_pcs b = node_pcs a \<and> main_pcs b = main_pcs a \<and> same_env a b"
    by (rule spsc.node_pass) (use a q cf(4) in \<open>auto simp: ports_def handler_defs calm_def queues_def\<close>)
  then obtain b where b: "dp_reach spsc_net node_step a b" "node_pcs b = node_pcs a" "main_pcs b = main_pcs a" "same_env a b"
      "link_q b = (link_q a)(Inj_tunnel := [], Tunnel_to_forward := link_q a Tunnel_to_forward @ [x])"
    by (auto simp: ports_def)
  note cb = calm_same [OF a(2) b(4)]
  have "\<exists>c. dp_reach spsc_net node_step b c \<and> link_q c = (link_q b)(ports N_forward ! 0 := [], Forward_to_tunnel := link_q b Forward_to_tunnel @ [y]) \<and>
      node_pcs c = node_pcs b \<and> main_pcs c = main_pcs b \<and> same_env b c"
    by (rule spsc.node_pass) (use a b q cf(4) cb in \<open>auto simp: ports_def handler_defs calm_def queues_def\<close>)
  then obtain c where c: "dp_reach spsc_net node_step b c" "node_pcs c = node_pcs b" "main_pcs c = main_pcs b" "same_env b c"
      "link_q c = (link_q b)(Tun_to_forward := [], Forward_to_tunnel := link_q b Forward_to_tunnel @ [y])"
    by (auto simp: ports_def)
  have "at_round cf (Suc r) c"
    using a b c q calm_same [OF cb c(4)] by (auto simp: at_round_def queues_def)
  then show ?thesis using dp_reach_trans [OF dp_reach_trans [OF a(1) b(1)] c(1)] by blast
qed

lemma rounds:
  assumes "both_ways cf" "at_round cf 0 pl" "CHAN_CAP < unat (count cf)" "r \<le> CHAN_CAP"
  shows "\<exists>pl'. dp_reach spsc_net node_step pl pl' \<and> at_round cf r pl'"
  using assms(4)
proof (induction r)
  case 0
  then show ?case using assms(2) dp_reach.start by blast
next
  case (Suc r)
  then obtain a where a: "dp_reach spsc_net node_step pl a" "at_round cf r a" by auto
  obtain b where "dp_reach spsc_net node_step a b" "at_round cf (Suc r) b"
    using round_step [OF assms(1) a(2)] Suc.prems assms(3) by auto
  then show ?case using dp_reach_trans [OF a(1)] by blast
qed

section \<open>The deadlock\<close>

text \<open>Forward and tunnel wait for room in channels only the other one empties.\<close>

definition stuck :: "(link, done_link) plane \<Rightarrow> bool" where
  "stuck pl \<longleftrightarrow>
     (\<exists>x. node_pcs pl N_tunnel = Send (SendPkt Tunnel_to_forward x)) \<and>
     (\<exists>y. node_pcs pl N_forward = Send (SendPkt Forward_to_tunnel y)) \<and>
     length (link_q pl Tunnel_to_forward) = CHAN_CAP \<and> length (link_q pl Forward_to_tunnel) = CHAN_CAP \<and>
     \<not> link_closed pl Tunnel_to_forward \<and> \<not> link_closed pl Forward_to_tunnel \<and> running (main_pcs pl)"

lemma stuck_reached:
  assumes cf: "both_ways cf" "at_round cf CHAN_CAP pl" "CHAN_CAP < unat (count cf)"
  shows "\<exists>pl'. dp_reach spsc_net node_step pl pl' \<and> stuck pl' \<and> \<not> stop pl'"
proof -
  have q: "queues CHAN_CAP pl" using cf(2) by (simp add: at_round_def)
  obtain a x y where a: "dp_reach spsc_net node_step pl a" "calm cf a" "main_pcs a = M_round (Suc CHAN_CAP)"
      "path x = PATH_TUNNEL_FORWARD_TUN" "path y = PATH_TUN_FORWARD_TUNNEL" "node_pcs a = (\<lambda>_. Loop)"
      "link_q a = (link_q pl)(Inj_tunnel := [x], Tun_to_forward := [y])"
    using round_prepare [OF cf] by blast
  define b where "b = a\<lparr>node_pcs := (node_pcs a)(N_tunnel := Send (SendPkt Tunnel_to_forward x)),
      link_q := (link_q a)(Inj_tunnel := [])\<rparr>"
  define c where "c = b\<lparr>node_pcs := (node_pcs b)(N_forward := Send (SendPkt Forward_to_tunnel y)),
      link_q := (link_q b)(Tun_to_forward := [])\<rparr>"
  have "dp_reach spsc_net node_step a b"
    using spsc.node_take [of a N_tunnel 0 x "[]" 0] a by (simp add: ports_def handler_defs b_def calm_def)
  moreover have "dp_reach spsc_net node_step b c"
    using spsc.node_take [of b N_forward 0 y "[]" 0] a by (simp add: ports_def handler_defs b_def c_def calm_def)
  moreover have "stuck c \<and> \<not> stop c"
    using a q by (auto simp: stuck_def b_def c_def queues_def calm_def running_def)
  ultimately show ?thesis using a(1) dp_reach_trans by blast
qed

lemma stuck_blocked:
  assumes "stuck pl"
  shows "node_step now N_forward pl = None" "node_step now N_tunnel pl = None"
  using assms by (auto simp: stuck_def node_step_defs perform_def link_put_def)

lemma stuck_node:
  assumes "stuck pl" "node_step now n pl = Some pl'"
  shows "stuck pl'"
proof -
  have n: "n \<noteq> N_tunnel" "n \<noteq> N_forward" using assms stuck_blocked by (metis option.distinct(1))+
  note F = spsc.node_step_frame [OF assms(2)]
  have "Tunnel_to_forward \<notin> set (ports n)" "Forward_to_tunnel \<notin> set (ports n)"
    using n by (cases n; simp add: ports_def)+
  then have "link_q pl' Tunnel_to_forward = link_q pl Tunnel_to_forward \<and>
    link_q pl' Forward_to_tunnel = link_q pl Forward_to_tunnel"
    using spsc.full_kept [OF assms(2)] assms(1) by (simp add: stuck_def)
  then show ?thesis using assms(1) F(2,3) F(9) [OF n(1) [symmetric]] F(9) [OF n(2) [symmetric]]
    by (auto simp: stuck_def)
qed

lemma main_step_stop: "main_step spsc_net realloc now pl = Some pl' \<Longrightarrow> stop pl \<Longrightarrow> stop pl'"
  by (auto simp: main_step_defs main_next_def poll_done_frame close_nth_def close_link_def start_clock_def
      dest!: inject_note_frame elim!: inject_packet_cases
      split: main_pc.splits main_loop.splits if_splits option.splits)

lemma inject_link: "inject_ch p \<noteq> Tunnel_to_forward" "inject_ch p \<noteq> Forward_to_tunnel"
  by (cases p; simp add: inject_ch_def)+

text \<open>What a step of the main thread does to the two channels, unless it stops the nodes.\<close>

definition keeps :: "(link, done_link) plane \<Rightarrow> (link, done_link) plane \<Rightarrow> bool" where
  "keeps pl pl' \<longleftrightarrow> node_pcs pl' = node_pcs pl \<and> running (main_pcs pl') \<and>
     (\<forall>l \<in> {Tunnel_to_forward, Forward_to_tunnel}. link_q pl' l = link_q pl l \<and> link_closed pl' l = link_closed pl l)"

lemma main_keeps:
  assumes "main_step spsc_net realloc now pl = Some pl'" "running (main_pcs pl)"
  shows "keeps pl pl' \<or> stop pl'"
proof (cases "main_pcs pl")
  case (M_next k)
  with assms(1) show ?thesis
    by (cases k) (auto simp: main_step_defs main_next_def keeps_def running_def dest!: inject_note_frame split: if_splits)
next
  case (M_send p k)
  with assms(1) show ?thesis
    using inject_link [of p] by (auto simp: main_step_defs keeps_def running_def elim!: inject_packet_cases)
next
  case (M_close k)
  have "close_inject ! k \<notin> {Tunnel_to_forward, Forward_to_tunnel}" if "k < length close_inject"
    using that by (auto simp: close_inject_def less_Suc_eq)
  with M_close assms(1) show ?thesis
    by (auto simp: main_step_defs keeps_def running_def close_link_def split: if_splits)
qed (use assms in \<open>auto simp: main_step_defs keeps_def running_def poll_done_frame start_clock_def split: option.splits if_splits\<close>)

lemma stuck_main:
  assumes "stuck pl" "main_step spsc_net realloc now pl = Some pl'"
  shows "stuck pl' \<or> stop pl'"
  using main_keeps [OF assms(2)] assms(1) by (auto simp: stuck_def keeps_def)

lemma stuck_forever:
  assumes "dp_reach spsc_net node_step pl pl'" "stuck pl"
  shows "stuck pl' \<or> stop pl'"
  using assms
proof (induction rule: dp_reach.induct)
  case (node a now n b)
  then show ?case using stuck_node spsc.node_step_frame(5) by metis
next
  case (main a f now b)
  then show ?case using stuck_main main_step_stop by metis
qed simp

text \<open>
  C29. The self-test can deadlock: with paths 3 and 4 injected in parallel and more packets than
  a channel holds, a state is reachable in which forward and tunnel both wait to send into a
  full channel that only the other one empties; they stay blocked, whatever the other threads do,
  until the main thread gives up and stops the nodes.
\<close>

theorem dplane_deadlock:
  assumes "both_ways cf" "CHAN_CAP < unat (count cf)" "\<forall>q. lat_ok (ctx q)"
  shows "\<exists>pl. dp_reach spsc_net node_step (plane_init now ctx cf) pl \<and> \<not> stop pl \<and>
    (\<forall>pl' t. dp_reach spsc_net node_step pl pl' \<longrightarrow> \<not> stop pl' \<longrightarrow>
       node_step t N_forward pl' = None \<and> node_step t N_tunnel pl' = None)"
proof -
  have "run_traffic cf = M_round 0" using assms(1) by (simp add: run_traffic_def both_ways_def)
  moreover have "calm cf (plane_init now ctx cf)" "queues 0 (plane_init now ctx cf)"
    using assms(3) by (simp_all add: calm_def queues_def plane_init_fields init_stats_def)
  ultimately have "at_round cf 0 (plane_init now ctx cf)"
    by (simp add: at_round_def plane_init_fields)
  from rounds [OF assms(1) this assms(2) order_refl] obtain a where
    a: "dp_reach spsc_net node_step (plane_init now ctx cf) a" "at_round cf CHAN_CAP a" by blast
  then obtain b where "dp_reach spsc_net node_step a b" "stuck b" "\<not> stop b" using stuck_reached [OF assms(1) a(2) assms(2)] by blast
  then show ?thesis using dp_reach_trans [OF a(1)] stuck_forever stuck_blocked by blast
qed

definition deadlock_cfg :: run_config where
  "deadlock_cfg = default_config\<lparr>path_enabled := (\<lambda>p. p = PATH_TUNNEL_FORWARD_TUN \<or> p = PATH_TUN_FORWARD_TUNNEL),
     count := 5000, parallel := True\<rparr>"

theorem dplane_deadlock_witness:
  "\<exists>pl. dp_reach spsc_net node_step (plane_init 0 (\<lambda>_. no_latency) deadlock_cfg) pl \<and>
     \<not> stop pl \<and> node_step 0 N_forward pl = None \<and> node_step 0 N_tunnel pl = None"
proof -
  have "both_ways deadlock_cfg" "CHAN_CAP < unat (count deadlock_cfg)"
    by (simp_all add: deadlock_cfg_def both_ways_def default_config_def CHAN_CAP_def)
  moreover have "lat_ok no_latency" by (simp add: lat_ok_def no_latency_def)
  ultimately obtain pl where pl: "dp_reach spsc_net node_step (plane_init 0 (\<lambda>_. no_latency) deadlock_cfg) pl" "\<not> stop pl"
      "\<forall>pl' t. dp_reach spsc_net node_step pl pl' \<longrightarrow> \<not> stop pl' \<longrightarrow> node_step t N_forward pl' = None \<and> node_step t N_tunnel pl' = None"
    using dplane_deadlock [of deadlock_cfg "\<lambda>_. no_latency" 0] by auto
  then show ?thesis using dp_reach.start [of spsc_net node_step pl] by blast
qed

end
