(* ===== verification/Dp_Mpsc.thy ===== *)
theory Dp_Mpsc
  imports Dp_Spsc
begin

text \<open>
  \<open>examples/dplane_pipeline_mpsc.c\<close>: every node owns one inbox that all other threads send to. Its
  inboxes, routing and nodes, the routes of its paths, and the results of the network
  locale for it. Statistics, latencies, injection loops and shutdown are those of
  \<open>Dp_Net\<close>, on this program's channels.
\<close>

section \<open>Inboxes\<close>

datatype inbox = In_tun | In_forward | In_enc | In_tunnel | In_oam

datatype done_inbox = In_done

definition CHAN_CAP_HOT :: nat where
  "CHAN_CAP_HOT = CHAN_CAP * 2"

definition inbox_cap :: "inbox \<Rightarrow> nat" where
  "inbox_cap l =
     (case l of In_tun \<Rightarrow> CHAN_CAP | In_forward \<Rightarrow> CHAN_CAP_HOT | In_enc \<Rightarrow> CHAN_CAP
      | In_tunnel \<Rightarrow> CHAN_CAP_HOT | In_oam \<Rightarrow> CHAN_CAP)"

definition inject_inbox :: "path_id \<Rightarrow> inbox" where
  "inject_inbox p =
     (case p of
        PATH_TUN_FORWARD_ENC_TUNNEL \<Rightarrow> In_tun
      | PATH_TUN_FORWARD_TUNNEL \<Rightarrow> In_tun
      | PATH_TUNNEL_ENC_FORWARD_TUN \<Rightarrow> In_tunnel
      | PATH_TUNNEL_FORWARD_TUN \<Rightarrow> In_tunnel
      | PATH_TUNNEL_FORWARD_OAM \<Rightarrow> In_tunnel
      | PATH_OAM_FORWARD_TUNNEL \<Rightarrow> In_oam)"

definition close_inboxes :: "inbox list" where
  "close_inboxes = [In_tun, In_forward, In_enc, In_tunnel, In_oam]"

text \<open>No inbox is closed before \<open>close_all\<close>.\<close>

definition mpsc_net :: "(inbox, done_inbox) net" where
  "mpsc_net =
     \<lparr>link_cap = inbox_cap, done_cap = \<lambda>_. CHAN_CAP_HOT, inject_to = inject_inbox, dones = [In_done],
      early_close = [], link_order = close_inboxes\<rparr>"

lemma mpsc_net_simps [simp]:
  "link_cap mpsc_net = inbox_cap" "done_cap mpsc_net d = CHAN_CAP_HOT" "inject_to mpsc_net = inject_inbox"
  "dones mpsc_net = [In_done]" "early_close mpsc_net = []" "link_order mpsc_net = close_inboxes"
  by (simp_all add: mpsc_net_def)

section \<open>Routing\<close>

type_synonym mpsc_action = "(inbox, done_inbox) action"
type_synonym mpsc_plane = "(inbox, done_inbox) plane"

definition send_done :: "int \<Rightarrow> pkt \<Rightarrow> mpsc_action" where
  "send_done now p = SendDone In_done \<lparr>d_path = path p, d_seq = seq p, done_ns = now\<rparr>"

definition mpsc_forward_route :: "pkt \<Rightarrow> mpsc_action" where
  "mpsc_forward_route p =
     (case path p of
        PATH_TUN_FORWARD_ENC_TUNNEL \<Rightarrow> SendPkt In_enc p
      | PATH_TUN_FORWARD_TUNNEL \<Rightarrow> SendPkt In_tunnel p
      | PATH_OAM_FORWARD_TUNNEL \<Rightarrow> SendPkt In_tunnel p
      | PATH_TUNNEL_ENC_FORWARD_TUN \<Rightarrow> SendPkt In_tun p
      | PATH_TUNNEL_FORWARD_TUN \<Rightarrow> SendPkt In_tun p
      | PATH_TUNNEL_FORWARD_OAM \<Rightarrow> SendPkt In_oam p)"

definition mpsc_handle_enc_pkt :: "pkt \<Rightarrow> mpsc_action" where
  "mpsc_handle_enc_pkt p =
     (if path p = PATH_TUN_FORWARD_ENC_TUNNEL then SendPkt In_tunnel p
      else if path p = PATH_TUNNEL_ENC_FORWARD_TUN then SendPkt In_forward p
      else Drop)"

definition mpsc_tunnel_outbound :: "pkt \<Rightarrow> mpsc_action" where
  "mpsc_tunnel_outbound p =
     (if path p = PATH_TUNNEL_ENC_FORWARD_TUN then SendPkt In_enc p else SendPkt In_forward p)"

definition tun_pkt_forward :: "pkt \<Rightarrow> bool" where
  "tun_pkt_forward p \<longleftrightarrow> path p = PATH_TUN_FORWARD_ENC_TUNNEL \<or> path p = PATH_TUN_FORWARD_TUNNEL"

definition tun_pkt_sink :: "pkt \<Rightarrow> bool" where
  "tun_pkt_sink p \<longleftrightarrow> path p = PATH_TUNNEL_ENC_FORWARD_TUN \<or> path p = PATH_TUNNEL_FORWARD_TUN"

definition tunnel_pkt_outbound :: "pkt \<Rightarrow> bool" where
  "tunnel_pkt_outbound p \<longleftrightarrow> path p = PATH_TUNNEL_ENC_FORWARD_TUN \<or> path p = PATH_TUNNEL_FORWARD_TUN \<or>
     path p = PATH_TUNNEL_FORWARD_OAM"

definition tunnel_pkt_sink :: "pkt \<Rightarrow> bool" where
  "tunnel_pkt_sink p \<longleftrightarrow> path p = PATH_TUN_FORWARD_ENC_TUNNEL \<or> path p = PATH_TUN_FORWARD_TUNNEL \<or>
     path p = PATH_OAM_FORWARD_TUNNEL"

section \<open>Nodes\<close>

definition inbox_done :: "inbox \<Rightarrow> mpsc_plane \<Rightarrow> bool" where
  "inbox_done l pl = link_closed pl l"

definition mpsc_tun_node :: "int \<Rightarrow> mpsc_plane \<Rightarrow> mpsc_plane option" where
  "mpsc_tun_node =
     node_loop mpsc_net N_tun [In_tun] (inbox_done In_tun)
       (\<lambda>l now p. if tun_pkt_forward p then SendPkt In_forward p
                  else if tun_pkt_sink p then send_done now p else Drop)"

definition mpsc_forward_node :: "int \<Rightarrow> mpsc_plane \<Rightarrow> mpsc_plane option" where
  "mpsc_forward_node =
     node_loop mpsc_net N_forward [In_forward] (inbox_done In_forward) (\<lambda>l now p. mpsc_forward_route p)"

definition mpsc_enc_node :: "int \<Rightarrow> mpsc_plane \<Rightarrow> mpsc_plane option" where
  "mpsc_enc_node =
     node_loop mpsc_net N_enc [In_enc] (inbox_done In_enc) (\<lambda>l now p. mpsc_handle_enc_pkt p)"

definition mpsc_tunnel_node :: "int \<Rightarrow> mpsc_plane \<Rightarrow> mpsc_plane option" where
  "mpsc_tunnel_node =
     node_loop mpsc_net N_tunnel [In_tunnel] (inbox_done In_tunnel)
       (\<lambda>l now p. if tunnel_pkt_outbound p then mpsc_tunnel_outbound p
                  else if tunnel_pkt_sink p then send_done now p else Drop)"

definition mpsc_oam_node :: "int \<Rightarrow> mpsc_plane \<Rightarrow> mpsc_plane option" where
  "mpsc_oam_node =
     node_loop mpsc_net N_oam [In_oam] (inbox_done In_oam)
       (\<lambda>l now p. if path p = PATH_OAM_FORWARD_TUNNEL then SendPkt In_forward p
                  else if path p = PATH_TUNNEL_FORWARD_OAM then send_done now p else Drop)"

definition mpsc_node_step :: "int \<Rightarrow> node \<Rightarrow> mpsc_plane \<Rightarrow> mpsc_plane option" where
  "mpsc_node_step now n =
     (case n of N_tun \<Rightarrow> mpsc_tun_node now | N_forward \<Rightarrow> mpsc_forward_node now | N_enc \<Rightarrow> mpsc_enc_node now
      | N_tunnel \<Rightarrow> mpsc_tunnel_node now | N_oam \<Rightarrow> mpsc_oam_node now)"

text \<open>The main thread, on the inboxes.\<close>

definition mpsc_main_step :: "(u64 \<Rightarrow> bool) \<Rightarrow> int \<Rightarrow> mpsc_plane \<Rightarrow> mpsc_plane option" where
  "mpsc_main_step = main_step mpsc_net"

abbreviation mpsc_reach :: "mpsc_plane \<Rightarrow> mpsc_plane \<Rightarrow> bool" where
  "mpsc_reach \<equiv> dp_reach mpsc_net mpsc_node_step"

section \<open>Routes\<close>

text \<open>The nodes, uniformly.\<close>

definition mpsc_inbox :: "node \<Rightarrow> inbox" where
  "mpsc_inbox n =
     (case n of N_tun \<Rightarrow> In_tun | N_forward \<Rightarrow> In_forward | N_enc \<Rightarrow> In_enc | N_tunnel \<Rightarrow> In_tunnel
      | N_oam \<Rightarrow> In_oam)"

definition mpsc_handle :: "node \<Rightarrow> inbox \<Rightarrow> int \<Rightarrow> pkt \<Rightarrow> mpsc_action" where
  "mpsc_handle n l now p =
     (case n of
        N_tun \<Rightarrow> (if tun_pkt_forward p then SendPkt In_forward p
                 else if tun_pkt_sink p then send_done now p else Drop)
      | N_forward \<Rightarrow> mpsc_forward_route p
      | N_enc \<Rightarrow> mpsc_handle_enc_pkt p
      | N_tunnel \<Rightarrow> (if tunnel_pkt_outbound p then mpsc_tunnel_outbound p
                    else if tunnel_pkt_sink p then send_done now p else Drop)
      | N_oam \<Rightarrow> (if path p = PATH_OAM_FORWARD_TUNNEL then SendPkt In_forward p
                 else if path p = PATH_TUNNEL_FORWARD_OAM then send_done now p else Drop))"

lemma mpsc_node_step_eq:
  "mpsc_node_step now n = node_loop mpsc_net n [mpsc_inbox n] (inbox_done (mpsc_inbox n)) (mpsc_handle n) now"
  by (cases n)
    (simp_all add: mpsc_node_step_def mpsc_inbox_def mpsc_handle_def [abs_def] mpsc_tun_node_def
      mpsc_forward_node_def mpsc_enc_node_def mpsc_tunnel_node_def mpsc_oam_node_def)

lemmas mpsc_node_step_defs = mpsc_node_step_eq node_loop_def

lemmas mpsc_handler_defs = mpsc_handle_def send_done_def mpsc_forward_route_def mpsc_handle_enc_pkt_def
  mpsc_tunnel_outbound_def tun_pkt_forward_def tun_pkt_sink_def tunnel_pkt_outbound_def tunnel_pkt_sink_def

definition mpsc_route :: "(inbox, done_inbox) routes" where
  "mpsc_route p =
     (case p of
        PATH_TUN_FORWARD_ENC_TUNNEL \<Rightarrow>
          [At_link In_tun, At_node N_tun, At_link In_forward, At_node N_forward,
           At_link In_enc, At_node N_enc, At_link In_tunnel, At_node N_tunnel, At_done In_done]
      | PATH_TUNNEL_ENC_FORWARD_TUN \<Rightarrow>
          [At_link In_tunnel, At_node N_tunnel, At_link In_enc, At_node N_enc,
           At_link In_forward, At_node N_forward, At_link In_tun, At_node N_tun, At_done In_done]
      | PATH_TUNNEL_FORWARD_TUN \<Rightarrow>
          [At_link In_tunnel, At_node N_tunnel, At_link In_forward, At_node N_forward,
           At_link In_tun, At_node N_tun, At_done In_done]
      | PATH_TUN_FORWARD_TUNNEL \<Rightarrow>
          [At_link In_tun, At_node N_tun, At_link In_forward, At_node N_forward,
           At_link In_tunnel, At_node N_tunnel, At_done In_done]
      | PATH_TUNNEL_FORWARD_OAM \<Rightarrow>
          [At_link In_tunnel, At_node N_tunnel, At_link In_forward, At_node N_forward,
           At_link In_oam, At_node N_oam, At_done In_done]
      | PATH_OAM_FORWARD_TUNNEL \<Rightarrow>
          [At_link In_oam, At_node N_oam, At_link In_forward, At_node N_forward,
           At_link In_tunnel, At_node N_tunnel, At_done In_done])"

interpretation mpsc: dp_network mpsc_net mpsc_node_step "\<lambda>n. [mpsc_inbox n]" "\<lambda>n. inbox_done (mpsc_inbox n)"
  mpsc_handle mpsc_route
proof unfold_locales
  fix now n p
  show "mpsc_node_step now n =
      node_loop mpsc_net n [mpsc_inbox n] (inbox_done (mpsc_inbox n)) (mpsc_handle n) now"
    by (rule mpsc_node_step_eq)
  show "distinct (mpsc_route p)" by (cases p) (simp_all add: mpsc_route_def)
  show "\<exists>us. mpsc_route p = At_link (inject_to mpsc_net p) # us"
    by (cases p) (simp_all add: mpsc_route_def inject_inbox_def)
next
  fix d p
  show "\<exists>us. mpsc_route p = us @ [At_done d]" by (cases d; cases p) (simp_all add: mpsc_route_def)
next
  fix l n now and x :: pkt
  assume "l \<in> set [mpsc_inbox n]" "At_link l \<in> set (mpsc_route (path x))"
  then show "hop mpsc_route (path x) (At_link l) (At_node n) \<and> action_ok mpsc_route n (mpsc_handle n l now x) \<and>
    action_held (mpsc_handle n l now x) = [(path x, seq x)]"
    by (cases n; cases "path x";
        auto simp: mpsc_inbox_def mpsc_route_def hop_def action_ok_def action_held_def mpsc_handler_defs)
qed simp

section \<open>Results\<close>

text \<open>A run of the self-test: one packet from oam over forward to the tunnel, from start to join.\<close>

definition mpsc_demo_plane :: mpsc_plane where
  "mpsc_demo_plane = plane_init 0 (\<lambda>_. no_latency) demo_cfg"

definition mpsc_demo_inject :: "dp_event list" where
  "mpsc_demo_inject =
     [Main_ev 1, Main_ev 1, Main_ev 1, Main_ev 1, Main_ev 1, Main_ev 1, Main_ev 1, Main_ev 1,
      Node_ev 2 N_oam, Node_ev 2 N_oam, Node_ev 2 N_oam, Node_ev 3 N_forward, Node_ev 3 N_forward]"

definition mpsc_demo_rest :: "dp_event list" where
  "mpsc_demo_rest =
     [Node_ev 4 N_forward, Node_ev 4 N_tunnel, Node_ev 4 N_tunnel, Node_ev 4 N_tunnel] @
     [Main_ev 5, Main_ev 5, Main_ev 5, Main_ev 5, Main_ev 5, Main_ev 5, Main_ev 5, Main_ev 5,
      Main_ev 5, Main_ev 5, Main_ev 5, Main_ev 5, Main_ev 5, Main_ev 5] @
     [Node_ev 6 N_tun, Node_ev 6 N_forward, Node_ev 6 N_enc, Node_ev 6 N_tunnel, Node_ev 6 N_oam]"

lemmas mpsc_eval = mpsc_net_def close_inboxes_def inject_inbox_def inbox_cap_def CHAN_CAP_HOT_def
  mpsc_node_step_defs mpsc_inbox_def mpsc_handler_defs inbox_done_def dp_eval

lemma mpsc_demo_inject_runs:
  "\<exists>pl. dp_exec mpsc_net mpsc_node_step mpsc_demo_inject mpsc_demo_plane = Some pl \<and> running (main_pcs pl) \<and>
     node_pcs pl N_forward = Send (SendPkt In_tunnel \<lparr>seq = 0, path = PATH_OAM_FORWARD_TUNNEL\<rparr>)"
  unfolding mpsc_demo_plane_def mpsc_demo_inject_def by (simp add: mpsc_eval running_def)

lemma mpsc_demo_runs:
  "\<exists>pl. dp_exec mpsc_net mpsc_node_step (mpsc_demo_inject @ mpsc_demo_rest) mpsc_demo_plane = Some pl \<and>
     main_pcs pl = M_join 0"
  unfolding mpsc_demo_plane_def mpsc_demo_inject_def mpsc_demo_rest_def by (simp add: mpsc_eval)

lemma mpsc_demo_reach:
  "dp_exec mpsc_net mpsc_node_step es mpsc_demo_plane = Some pl \<Longrightarrow>
    mpsc_reach (plane_init 0 (\<lambda>_. no_latency) demo_cfg) pl"
  unfolding mpsc_demo_plane_def by (rule dp_exec_reach [OF dp_reach.start])



end
