(* ===== verification/Dp_Hang.thy ===== *)
theory Dp_Hang
  imports Dp_Mpsc
begin

text \<open>
  \<open>examples/dplane_pipeline_mpsc.c\<close> can hang: when both directions carry traffic, forward and tunnel
  block on each other's full inbox and the main thread blocks on the inbox of tunnel, so that
  it never comes to its drain timeout.
\<close>

section \<open>Filling the inboxes\<close>

text \<open>After \<open>r\<close> rounds in which only tun works, the inboxes of tunnel and of forward hold \<open>r\<close> packets.\<close>

definition inboxes_hold :: "nat \<Rightarrow> mpsc_plane \<Rightarrow> bool" where
  "inboxes_hold r pl \<longleftrightarrow> length (link_q pl In_tunnel) = r \<and> length (link_q pl In_forward) = r \<and> link_q pl In_tun = [] \<and>
     (\<forall>x \<in> set (link_q pl In_tunnel). path x = PATH_TUNNEL_FORWARD_TUN) \<and>
     (\<forall>x \<in> set (link_q pl In_forward). path x = PATH_TUN_FORWARD_TUNNEL)"

lemma hot_caps [simp]: "inbox_cap In_tunnel = CHAN_CAP_HOT" "inbox_cap In_forward = CHAN_CAP_HOT"
  "inbox_cap In_tun = CHAN_CAP" "0 < CHAN_CAP" "0 < CHAN_CAP_HOT"
  by (simp_all add: inbox_cap_def CHAN_CAP_HOT_def CHAN_CAP_def)

text \<open>One round, in which tun passes its packet on.\<close>

lemma mpsc_round:
  assumes cf: "both_ways cf" "calm cf pl" and pc: "main_pcs pl = M_round r" "r < unat (count cf)"
    and h: "inboxes_hold k pl" "k < CHAN_CAP_HOT" and tun: "node_pcs pl N_tun = Loop"
  shows "\<exists>pl'. mpsc_reach pl pl' \<and> calm cf pl' \<and> main_pcs pl' = M_round (Suc r) \<and>
    node_pcs pl' = node_pcs pl \<and> inboxes_hold (Suc k) pl'"
proof -
  obtain a x y where a: "mpsc_reach pl a" "calm cf a" "main_pcs a = M_round (Suc r)" "node_pcs a = node_pcs pl"
      "path x = PATH_TUNNEL_FORWARD_TUN" "path y = PATH_TUN_FORWARD_TUNNEL"
      "link_q a = (link_q pl)(In_tunnel := link_q pl In_tunnel @ [x], In_tun := [y])"
    using mpsc.round_injects [OF cf pc] h by (auto simp: inboxes_hold_def inject_inbox_def)
  have "\<exists>b. mpsc_reach a b \<and>
      link_q b = (link_q a)([mpsc_inbox N_tun] ! 0 := [], In_forward := link_q a In_forward @ [y]) \<and>
      node_pcs b = node_pcs a \<and> main_pcs b = main_pcs a \<and> same_env a b"
    by (rule mpsc.node_pass)
      (use a h tun in \<open>auto simp: mpsc_inbox_def mpsc_handler_defs calm_def inboxes_hold_def\<close>)
  then obtain b where b: "mpsc_reach a b" "node_pcs b = node_pcs a" "main_pcs b = main_pcs a" "same_env a b"
      "link_q b = (link_q a)(In_tun := [], In_forward := link_q a In_forward @ [y])"
    by (auto simp: mpsc_inbox_def)
  have "inboxes_hold (Suc k) b" using h(1) a(5-7) b(5) by (simp add: inboxes_hold_def)
  then show ?thesis
    using a b calm_same [OF a(2) b(4)] dp_reach_trans [OF a(1) b(1)] by (intro exI [of _ b]) simp
qed

lemma mpsc_rounds:
  assumes "both_ways cf" "calm cf pl" "main_pcs pl = M_round 0" "inboxes_hold 0 pl" "node_pcs pl = (\<lambda>_. Loop)"
    and "CHAN_CAP_HOT < unat (count cf)" "r \<le> CHAN_CAP_HOT"
  shows "\<exists>pl'. mpsc_reach pl pl' \<and> calm cf pl' \<and> main_pcs pl' = M_round r \<and> inboxes_hold r pl' \<and>
    node_pcs pl' = (\<lambda>_. Loop)"
  using assms(7)
proof (induction r)
  case 0
  then show ?case using assms(2-5) dp_reach.start by blast
next
  case (Suc r)
  then obtain a where a: "mpsc_reach pl a" "calm cf a" "main_pcs a = M_round r" "inboxes_hold r a" "node_pcs a = (\<lambda>_. Loop)"
    by auto
  obtain b where "mpsc_reach a b" "calm cf b" "main_pcs b = M_round (Suc r)" "inboxes_hold (Suc r) b" "node_pcs b = node_pcs a"
    using mpsc_round [OF assms(1) a(2,3) _ a(4)] a(5) Suc.prems assms(6) by auto
  then show ?case using dp_reach_trans [OF a(1)] a(5) by metis
qed

section \<open>The hang\<close>

text \<open>
  Forward and tunnel wait for room in each other's inbox, and the main thread for room in the
  inbox of tunnel.
\<close>

definition hung :: "mpsc_plane \<Rightarrow> bool" where
  "hung pl \<longleftrightarrow>
     (\<exists>x. node_pcs pl N_tunnel = Send (SendPkt In_forward x)) \<and>
     (\<exists>y. node_pcs pl N_forward = Send (SendPkt In_tunnel y)) \<and>
     length (link_q pl In_forward) = CHAN_CAP_HOT \<and> length (link_q pl In_tunnel) = CHAN_CAP_HOT \<and>
     \<not> link_closed pl In_forward \<and> \<not> link_closed pl In_tunnel \<and>
     (\<exists>k. main_pcs pl = M_send PATH_TUNNEL_FORWARD_TUN k)"

lemma hung_blocked:
  assumes "hung pl"
  shows "mpsc_node_step now N_forward pl = None" "mpsc_node_step now N_tunnel pl = None"
    "main_step mpsc_net realloc now pl = None"
  using assms
  by (auto simp: hung_def mpsc_node_step_defs perform_def link_put_def main_step_defs inject_packet_def inject_inbox_def)

lemma hung_node:
  assumes "hung pl" "mpsc_node_step now n pl = Some pl'"
  shows "hung pl'"
proof -
  have n: "n \<noteq> N_tunnel" "n \<noteq> N_forward" using assms hung_blocked by (metis option.distinct(1))+
  note F = mpsc.node_step_frame [OF assms(2)]
  have "In_forward \<notin> set [mpsc_inbox n]" "In_tunnel \<notin> set [mpsc_inbox n]"
    using n by (cases n; simp add: mpsc_inbox_def)+
  then have "link_q pl' In_forward = link_q pl In_forward \<and> link_q pl' In_tunnel = link_q pl In_tunnel"
    using mpsc.full_kept [OF assms(2)] assms(1) by (simp add: hung_def)
  then show ?thesis using assms(1) F(2,3) F(9) [OF n(1) [symmetric]] F(9) [OF n(2) [symmetric]]
    by (auto simp: hung_def)
qed

lemma hung_forever: "mpsc_reach pl pl' \<Longrightarrow> hung pl \<Longrightarrow> hung pl'"
  by (induction rule: dp_reach.induct) (auto simp: hung_blocked intro: hung_node)

text \<open>Tunnel and forward each take a packet when the inboxes are full.\<close>

lemma take_both:
  assumes "calm cf pl" "inboxes_hold (Suc k) pl" "node_pcs pl = (\<lambda>_. Loop)"
  shows "\<exists>pl' x y. mpsc_reach pl pl' \<and> calm cf pl' \<and> main_pcs pl' = main_pcs pl \<and> inboxes_hold k pl' \<and>
    node_pcs pl' = (\<lambda>_. Loop)(N_tunnel := Send (SendPkt In_forward x), N_forward := Send (SendPkt In_tunnel y))"
proof -
  obtain x xs y ys where q: "link_q pl In_tunnel = x # xs" "link_q pl In_forward = y # ys"
    using assms(2) by (auto simp: inboxes_hold_def length_Suc_conv)
  have xy: "path x = PATH_TUNNEL_FORWARD_TUN" "path y = PATH_TUN_FORWARD_TUNNEL"
    using assms(2) q by (auto simp: inboxes_hold_def)
  define a where "a = pl\<lparr>node_pcs := (node_pcs pl)(N_tunnel := Send (SendPkt In_forward x)),
      link_q := (link_q pl)(In_tunnel := xs)\<rparr>"
  define b where "b = a\<lparr>node_pcs := (node_pcs a)(N_forward := Send (SendPkt In_tunnel y)),
      link_q := (link_q a)(In_forward := ys)\<rparr>"
  have "mpsc_reach pl a"
    using mpsc.node_take [of pl N_tunnel 0 x xs 0] assms(1,3) q(1) xy(1)
    by (simp add: mpsc_inbox_def mpsc_handler_defs a_def calm_def)
  moreover have "mpsc_reach a b"
    using mpsc.node_take [of a N_forward 0 y ys 0] assms(1,3) q(2) xy(2)
    by (simp add: mpsc_inbox_def mpsc_handler_defs a_def b_def calm_def)
  ultimately have "mpsc_reach pl b" by (rule dp_reach_trans)
  moreover have "calm cf b \<and> main_pcs b = main_pcs pl \<and> inboxes_hold k b"
    using assms(1,2) q by (simp add: a_def b_def calm_def inboxes_hold_def)
  moreover have "node_pcs b = (\<lambda>_. Loop)(N_tunnel := Send (SendPkt In_forward x), N_forward := Send (SendPkt In_tunnel y))"
    by (simp add: a_def b_def assms(3))
  ultimately show ?thesis by blast
qed

lemma hung_reached:
  assumes cf: "both_ways cf" "calm cf pl" and pc: "main_pcs pl = M_round CHAN_CAP_HOT"
    and h: "inboxes_hold CHAN_CAP_HOT pl" "node_pcs pl = (\<lambda>_. Loop)" and c: "Suc CHAN_CAP_HOT < unat (count cf)"
  shows "\<exists>pl'. mpsc_reach pl pl' \<and> hung pl'"
proof -
  obtain k where k: "CHAN_CAP_HOT = Suc k" using hot_caps(5) gr0_implies_Suc by blast
  obtain a x y where a: "mpsc_reach pl a" "calm cf a" "main_pcs a = main_pcs pl" "inboxes_hold k a"
      "node_pcs a = (\<lambda>_. Loop)(N_tunnel := Send (SendPkt In_forward x), N_forward := Send (SendPkt In_tunnel y))"
    using take_both [of cf pl k] cf(2) h k by auto
  have "node_pcs a N_tun = Loop" "k < CHAN_CAP_HOT" "CHAN_CAP_HOT < unat (count cf)" using a(5) k c by simp_all
  then obtain b where b: "mpsc_reach a b" "calm cf b" "main_pcs b = M_round (Suc CHAN_CAP_HOT)"
      "node_pcs b = node_pcs a" "inboxes_hold CHAN_CAP_HOT b"
    using mpsc_round [OF cf(1) a(2) _ _ a(4), of CHAN_CAP_HOT] a(3) pc k by auto
  let ?c = "main_at (M_next (Par (Suc CHAN_CAP_HOT) 2)) b"
  have bc: "mpsc_reach b ?c" by (rule mpsc.round_starts [OF cf(1) b(2,3) c])
  have p2: "all_paths ! 2 = PATH_TUNNEL_FORWARD_TUN" by (simp add: all_paths_def eval_nat_numeral)
  obtain ctx where d: "mpsc_reach ?c (main_at (M_send PATH_TUNNEL_FORWARD_TUN (Par (Suc CHAN_CAP_HOT) 2)) (?c\<lparr>lat := ctx\<rparr>))"
    using mpsc.main_notes [of ?c "Suc CHAN_CAP_HOT" 2] cf(1) b(2)
    by (auto simp: p2 PATH_COUNT_def calm_def both_ways_def)
  have "hung (main_at (M_send PATH_TUNNEL_FORWARD_TUN (Par (Suc CHAN_CAP_HOT) 2)) (?c\<lparr>lat := ctx\<rparr>))"
    using a(5) b(2,4,5) by (simp add: hung_def inboxes_hold_def calm_def)
  then show ?thesis using a(1) b(1) bc d dp_reach_trans by blast
qed

text \<open>
  C14. The self-test with inboxes can hang for ever: with paths 3 and 4 injected in parallel
  and more than 8193 packets per path, a state is reachable after which forward, tunnel and
  the main thread never make another step, whatever the other threads, the clock and the
  allocator do. The drain timeout of 30 seconds does not help, because the main thread is
  blocked in \<open>inject_packet\<close> before it gets there.
\<close>

theorem mpsc_deadlock:
  assumes "both_ways cf" "Suc CHAN_CAP_HOT < unat (count cf)" "\<forall>q. lat_ok (ctx q)"
  shows "\<exists>pl. mpsc_reach (plane_init now ctx cf) pl \<and>
    (\<forall>pl' t realloc. mpsc_reach pl pl' \<longrightarrow>
       mpsc_node_step t N_forward pl' = None \<and> mpsc_node_step t N_tunnel pl' = None \<and>
       mpsc_main_step realloc t pl' = None)"
proof -
  let ?pl = "plane_init now ctx cf :: mpsc_plane"
  have "main_pcs ?pl = M_round 0"
    using assms(1) by (simp add: plane_init_fields run_traffic_def both_ways_def)
  moreover have "calm cf ?pl" "inboxes_hold 0 ?pl" "node_pcs ?pl = (\<lambda>_. Loop)"
    using assms(3) by (simp_all add: calm_def inboxes_hold_def plane_init_fields init_stats_def)
  ultimately obtain a where a: "mpsc_reach ?pl a" "calm cf a" "main_pcs a = M_round CHAN_CAP_HOT"
      "inboxes_hold CHAN_CAP_HOT a" "node_pcs a = (\<lambda>_. Loop)"
    using mpsc_rounds [OF assms(1), of ?pl CHAN_CAP_HOT] assms(2) by auto
  then obtain b where b: "mpsc_reach a b" "hung b" using hung_reached [OF assms(1)] assms(2) by blast
  have "mpsc_reach ?pl b" using a(1) b(1) by (rule dp_reach_trans)
  then show ?thesis using hung_forever [OF _ b(2)] hung_blocked unfolding mpsc_main_step_def by blast
qed

definition hang_cfg :: run_config where
  "hang_cfg = default_config\<lparr>path_enabled := (\<lambda>p. p = PATH_TUNNEL_FORWARD_TUN \<or> p = PATH_TUN_FORWARD_TUNNEL),
     count := 10000, parallel := True\<rparr>"

theorem mpsc_deadlock_witness:
  "\<exists>pl. mpsc_reach (plane_init 0 (\<lambda>_. no_latency) hang_cfg) pl \<and> mpsc_node_step 0 N_forward pl = None \<and>
     mpsc_node_step 0 N_tunnel pl = None \<and> mpsc_main_step (\<lambda>_. True) 0 pl = None"
proof -
  have "both_ways hang_cfg" "Suc CHAN_CAP_HOT < unat (count hang_cfg)"
    by (simp_all add: hang_cfg_def both_ways_def default_config_def CHAN_CAP_HOT_def CHAN_CAP_def)
  moreover have "lat_ok no_latency" by (simp add: lat_ok_def no_latency_def)
  ultimately obtain pl where "mpsc_reach (plane_init 0 (\<lambda>_. no_latency) hang_cfg) pl"
      "\<forall>pl' t realloc. mpsc_reach pl pl' \<longrightarrow> mpsc_node_step t N_forward pl' = None \<and>
        mpsc_node_step t N_tunnel pl' = None \<and> mpsc_main_step realloc t pl' = None"
    using mpsc_deadlock [of hang_cfg "\<lambda>_. no_latency" 0] by auto
  then show ?thesis using dp_reach.start [of mpsc_net mpsc_node_step pl] by blast
qed

end
