(* ===== verification/Dp_Parse.thy ===== *)
theory Dp_Parse
  imports Dp_Verdict
begin

text \<open>
  The option parsers of \<open>examples/dplane_pipeline.c\<close> read back what a user would write, and
  the completion counters report a clean path exactly when every packet arrived once and in
  order.
\<close>

section \<open>Path lists\<close>

definition id_char :: "nat \<Rightarrow> char" where
  "id_char i = ''123456'' ! i"

text \<open>Path indices written as the option \<open>-l\<close> has them: 1-based, with commas between them.\<close>

fun show_ids :: "nat list \<Rightarrow> string" where
  "show_ids [] = []"
| "show_ids [i] = [id_char i]"
| "show_ids (i # is) = id_char i # CHR '','' # show_ids is"

lemma strtol_id:
  assumes "i < PATH_COUNT" "rest = [] \<or> hd rest = CHR '',''"
  shows "strtol (id_char i # rest) = Some (int i + 1, rest)"
proof -
  have r: "takeWhile is_digit rest = []" "dropWhile is_digit rest = rest"
    using assms(2) by (cases rest; auto simp: is_digit_def)+
  have "i = 0 \<or> i = 1 \<or> i = 2 \<or> i = 3 \<or> i = 4 \<or> i = 5" using assms(1) by (auto simp: PATH_COUNT_def)
  then have c: "is_digit (id_char i)" "\<not> is_space (id_char i)" "digit_val (id_char i) = i + 1"
    "id_char i \<noteq> CHR ''-''" "id_char i \<noteq> CHR ''+''"
    by (auto simp: id_char_def is_digit_def is_space_def digit_val_def)
  have "int i < 6" using assms(1) by (simp add: PATH_COUNT_def)
  then show ?thesis
    using c r by (simp add: strtol_def read_number_def read_digits_def Let_def)
qed

lemma parse_ids:
  assumes "is \<noteq> []" "\<forall>i \<in> set is. i < PATH_COUNT"
  shows "parse_path_from (show_ids is) en n =
    Some (n + card ({p. path_idx p \<in> set is} - {p. en p}), \<lambda>p. en p \<or> path_idx p \<in> set is)"
  using assms
proof (induction "is" arbitrary: en n rule: show_ids.induct)
  case (2 i)
  then have i: "i < PATH_COUNT" by simp
  have "{p. path_idx p = i} = {all_paths ! i}" using path_idx_eq [OF i] by auto
  then show ?case
    using strtol_id [OF i, of "[]"] i path_idx_eq [OF i]
    by (auto simp: parse_path_from.simps [of "[id_char i]"] parse_path_from.simps [of "[]"] Let_def PATH_COUNT_def
        fun_eq_iff insert_Diff_if)
next
  case (3 i j js)
  let ?a = "all_paths ! i" and ?is = "j # js"
  have i: "i < PATH_COUNT" using "3.prems" by simp
  have "parse_path_from (show_ids (i # ?is)) en n =
      parse_path_from (show_ids ?is) (en(?a := True)) (if en ?a then n else n + 1)"
    using strtol_id [OF i, of "CHR '','' # show_ids ?is"] i
    by (simp add: parse_path_from.simps [of "show_ids (i # ?is)"] Let_def PATH_COUNT_def)
  also have "\<dots> = Some ((if en ?a then n else n + 1) + card ({p. path_idx p \<in> set ?is} - {p. (en(?a := True)) p}),
      \<lambda>p. (en(?a := True)) p \<or> path_idx p \<in> set ?is)"
    by (rule "3.IH") (use "3.prems" in simp_all)
  also have "(\<lambda>p. (en(?a := True)) p \<or> path_idx p \<in> set ?is) = (\<lambda>p. en p \<or> path_idx p \<in> set (i # ?is))"
    using path_idx_eq [OF i] by (auto simp: fun_eq_iff)
  also have "(if en ?a then n else n + 1) + card ({p. path_idx p \<in> set ?is} - {p. (en(?a := True)) p}) =
      n + card ({p. path_idx p \<in> set (i # ?is)} - {p. en p})"
  proof -
    have fin: "finite S" for S :: "path_id set"
      by (rule finite_subset [of _ "set all_paths"]) (auto intro: path_id.exhaust simp: all_paths_def)
    have "{p. path_idx p \<in> set (i # ?is)} - {p. en p} =
        (if en ?a then {} else {?a}) \<union> ({p. path_idx p \<in> set ?is} - {p. (en(?a := True)) p})"
      using path_idx_eq [OF i] by auto
    moreover have "?a \<notin> {p. path_idx p \<in> set ?is} - {p. (en(?a := True)) p}" by simp
    ultimately show ?thesis using fin by (simp add: card_insert_if)
  qed
  finally show ?case .
qed simp

text \<open>
  C31. The path list option round-trips: writing any non-empty list of path numbers with commas
  between them and parsing it gives exactly those paths, and the number of different ones.
\<close>

theorem parse_path_list_roundtrip:
  assumes "is \<noteq> []" "\<forall>i \<in> set is. i < PATH_COUNT"
  shows "parse_path_list (show_ids is) = Some (card (set is), \<lambda>p. path_idx p \<in> set is)"
proof -
  have "bij_betw path_idx {p. path_idx p \<in> set is} (set is)"
    by (rule bij_betw_byWitness [where f' = "\<lambda>i. all_paths ! i"]) (use assms(2) in auto)
  then have "card {p. path_idx p \<in> set is} = card (set is)" by (rule bij_betw_same_card)
  then show ?thesis using parse_ids [OF assms] by (simp add: parse_path_list_def)
qed

theorem parse_path_list_roundtrip_witness:
  "parse_path_list ''1,3,6'' = Some (3, \<lambda>p. path_idx p \<in> {0, 2, 5})"
  using parse_path_list_roundtrip [of "[0, 2, 5]"] by (simp add: PATH_COUNT_def id_char_def numeral_eq_Suc)

section \<open>Completion counters\<close>

text \<open>The counters of a path after a sequence of completions.\<close>

definition zero_stat :: path_stat where
  "zero_stat = \<lparr>enabled = True, sent = 0, recv = 0, dup = 0, lost = 0, next_expected = 0\<rparr>"

definition after :: "u32 list \<Rightarrow> path_stat" where
  "after xs = foldl (\<lambda>st s. fst (stat_on_recv s st)) zero_stat xs"

lemma after_snoc: "after (xs @ [s]) = fst (stat_on_recv s (after xs))"
  by (simp add: after_def)

lemma after_enabled: "enabled (after xs)"
  by (induction xs rule: rev_induct) (auto simp: after_snoc stat_on_recv_def, simp add: after_def zero_stat_def)

lemma unat_add_less: "unat (a :: u64) + unat b < 2 ^ 64 \<Longrightarrow> unat (a + b) = unat a + unat b"
  by (simp add: unat_word_ariths(1))

text \<open>Nothing wraps within \<open>2 ^ 32\<close> completions.\<close>

lemma after_bounds:
  "length xs \<le> 2 ^ 32 \<Longrightarrow> unat (lost (after xs)) \<le> length xs * (2 ^ 32 - 1) \<and>
     unat (recv (after xs)) + unat (dup (after xs)) = length xs"
proof (induction xs rule: rev_induct)
  case (snoc s xs)
  let ?st = "after xs" and ?gap = "ucast (s - next_expected (after xs)) :: u64"
  have len: "length xs \<le> 2 ^ 32" "length xs < 2 ^ 32" using snoc.prems by simp_all
  note IH = snoc.IH [OF len(1)]
  have gap: "unat ?gap \<le> 2 ^ 32 - 1"
  proof -
    have "unat (s - next_expected ?st) < 2 ^ LENGTH(32)" by (rule unsigned_less)
    then show ?thesis by (simp add: unat_ucast_u32)
  qed
  have "length xs * (2 ^ 32 - 1) + (2 ^ 32 - 1) < (2 ^ 64 :: nat)" using len(2) by simp
  then have l: "unat (lost ?st + ?gap) = unat (lost ?st) + unat ?gap"
    using IH gap by (intro unat_add_less) linarith
  have d: "unat (dup ?st + 1) = unat (dup ?st) + 1" "unat (recv ?st + 1) = unat (recv ?st) + 1"
    using IH len(2) by (simp_all add: unat_add_less)
  show ?case
    using IH d l gap after_enabled [of xs] by (auto simp: after_snoc stat_on_recv_def)
qed (simp add: after_def zero_stat_def)

lemma after_counts_up:
  assumes "length xs < 2 ^ 32"
  shows "dup (after xs) + 1 \<noteq> 0" "next_expected (after xs) < s \<Longrightarrow>
    lost (after xs) + ucast (s - next_expected (after xs)) \<noteq> 0"
proof -
  let ?st = "after xs" and ?gap = "ucast (s - next_expected (after xs)) :: u64"
  note B = after_bounds [OF less_imp_le [OF assms]]
  have "unat (dup ?st + 1) = unat (dup ?st) + 1" using B assms by (simp add: unat_add_less)
  then show "dup ?st + 1 \<noteq> 0" by (metis Suc_eq_plus1 nat.distinct(1) unat_0)
  assume lt: "next_expected ?st < s"
  have g: "unat ?gap = unat (s - next_expected ?st)" "unat (s - next_expected ?st) < 2 ^ LENGTH(32)"
    using unsigned_less [of "s - next_expected ?st", where 'a = nat]
    by (simp_all add: unat_ucast_u32)
  have "length xs * (2 ^ 32 - 1) + (2 ^ 32 - 1) < (2 ^ 64 :: nat)" using assms by simp
  then have "unat (lost ?st + ?gap) = unat (lost ?st) + unat ?gap"
    using B g by (intro unat_add_less) simp
  moreover have "0 < unat (s - next_expected ?st)" using lt by (metis eq_iff_diff_eq_0 less_irrefl unat_gt_0)
  ultimately show "lost ?st + ?gap \<noteq> 0" using g(1) by (metis add_is_0 less_irrefl unat_0)
qed

lemma after_in_order:
  "length xs \<le> 2 ^ 32 \<Longrightarrow>
     (dup (after xs) = 0 \<and> lost (after xs) = 0 \<longleftrightarrow> xs = map of_nat [0..<length xs]) \<and>
     (xs = map of_nat [0..<length xs] \<longrightarrow> next_expected (after xs) = of_nat (length xs))"
proof (induction xs rule: rev_induct)
  case (snoc s xs)
  have len: "length xs \<le> 2 ^ 32" "length xs < 2 ^ 32" using snoc.prems by simp_all
  note IH = snoc.IH [OF len(1)] and up = after_counts_up [OF len(2)]
  have split: "xs @ [s] = map of_nat [0..<length (xs @ [s])] \<longleftrightarrow>
      xs = map of_nat [0..<length xs] \<and> s = of_nat (length xs)" by simp
  show ?case
    unfolding split using IH up(1) up(2) [of s] after_enabled [of xs]
    by (auto simp: after_snoc stat_on_recv_def not_less)
qed (simp add: after_def zero_stat_def)

text \<open>
  C27. The verdict on a path is exact: after up to \<open>2 ^ 32\<close> completions, \<open>path_ok\<close> holds for
  the number of packets sent exactly when the completions were the sequence numbers from 0
  to that number, each once and in order.
\<close>

theorem path_ok_exact:
  assumes "length xs \<le> 2 ^ 32" "n \<le> 2 ^ 32"
  shows "path_ok ((after xs)\<lparr>sent := of_nat n\<rparr>) \<longleftrightarrow> xs = map of_nat [0..<n]"
proof -
  have n: "unat (of_nat n :: u64) = n" using assms(2) by (simp add: unat_of_nat)
  have "path_ok ((after xs)\<lparr>sent := of_nat n\<rparr>) \<longleftrightarrow>
      dup (after xs) = 0 \<and> lost (after xs) = 0 \<and> recv (after xs) = of_nat n"
    using after_enabled [of xs] by (auto simp: path_ok_def)
  moreover have "recv (after xs) = of_nat n \<longleftrightarrow> length xs = n" if "dup (after xs) = 0"
    using after_bounds [OF assms(1)] that n by (metis add.right_neutral unat_0 unat_eq_nat_uint word_unat_eq_iff)
  ultimately show ?thesis using after_in_order [OF assms(1)] by (auto simp: length_map)
qed

theorem path_ok_exact_witness: "path_ok ((after [0, 1, 2])\<lparr>sent := 3\<rparr>)"
  using path_ok_exact [of "[0, 1, 2]" 3] by (simp add: upt_conv_Cons)

end
