(* ===== verification/Dp_Link.thy ===== *)
theory Dp_Link
  imports Dp_Mpsc Chan_Seq
begin

text \<open>
  The channels of \<open>examples/dplane_pipeline.c\<close> and \<open>examples/dplane_pipeline_mpsc.c\<close>: how they are
  created, and that the queues the nodes are modelled with answer as the channels of the
  library do, on packets laid out as bytes.
\<close>

section \<open>Creation\<close>

text \<open>\<open>sizeof(pkt_t)\<close> and \<open>sizeof(done_msg_t)\<close>.\<close>

definition pkt_size :: u64 where "pkt_size = 8"
definition done_msg_size :: u64 where "done_msg_size = 16"

text \<open>
  \<open>links_init\<close> and \<open>test_io_init\<close> create all channels before they test the results; \<open>alloc\<close>
  gives the answers of the allocator for each of them.
\<close>

definition pkt_chan :: "(link \<Rightarrow> bool \<times> (u64 \<Rightarrow> byte list option)) \<Rightarrow> link \<Rightarrow> chan option" where
  "pkt_chan alloc l = chan_create_spsc (fst (alloc l)) (snd (alloc l)) pkt_size (of_nat CHAN_CAP)"

definition done_chan :: "(done_link \<Rightarrow> bool \<times> (u64 \<Rightarrow> byte list option)) \<Rightarrow> done_link \<Rightarrow> chan option" where
  "done_chan alloc d = chan_create_spsc (fst (alloc d)) (snd (alloc d)) done_msg_size (of_nat CHAN_CAP)"

definition links_init :: "(link \<Rightarrow> bool \<times> (u64 \<Rightarrow> byte list option)) \<Rightarrow> bool" where
  "links_init alloc \<longleftrightarrow>
     list_all (\<lambda>l. pkt_chan alloc l \<noteq> None)
       [Tun_to_forward, Forward_to_enc, Enc_to_tunnel, Tunnel_to_enc, Enc_to_forward, Forward_to_tun,
        Tunnel_to_forward, Forward_to_oam, Oam_to_forward, Forward_to_tunnel]"

definition test_io_init ::
    "(link \<Rightarrow> bool \<times> (u64 \<Rightarrow> byte list option)) \<Rightarrow> (done_link \<Rightarrow> bool \<times> (u64 \<Rightarrow> byte list option)) \<Rightarrow> bool" where
  "test_io_init alloc dalloc \<longleftrightarrow>
     list_all (\<lambda>l. pkt_chan alloc l \<noteq> None) [Inj_tun, Inj_tunnel, Inj_oam] \<and>
     list_all (\<lambda>d. done_chan dalloc d \<noteq> None) [Done_tun, Done_tunnel, Done_oam]"

text \<open>\<open>inboxes_init\<close> of the program with inboxes.\<close>

definition inbox_chan :: "(inbox \<Rightarrow> bool \<times> (u64 \<Rightarrow> byte list option)) \<Rightarrow> inbox \<Rightarrow> chan option" where
  "inbox_chan alloc l = chan_create (fst (alloc l)) (snd (alloc l)) pkt_size (of_nat (inbox_cap l))"

definition in_done_chan :: "bool \<times> (u64 \<Rightarrow> byte list option) \<Rightarrow> chan option" where
  "in_done_chan alloc = chan_create (fst alloc) (snd alloc) done_msg_size (of_nat CHAN_CAP_HOT)"

definition inboxes_init ::
    "(inbox \<Rightarrow> bool \<times> (u64 \<Rightarrow> byte list option)) \<Rightarrow> bool \<times> (u64 \<Rightarrow> byte list option) \<Rightarrow> bool" where
  "inboxes_init alloc dalloc \<longleftrightarrow>
     list_all (\<lambda>l. inbox_chan alloc l \<noteq> None) [In_tun, In_forward, In_enc, In_tunnel, In_oam] \<and>
     in_done_chan dalloc \<noteq> None"

section \<open>The queues as bounded FIFOs\<close>

text \<open>A send that would wait is a refused \<open>chan_try_send\<close>.\<close>

definition link_try_put :: "('l, 'd) net \<Rightarrow> 'l \<Rightarrow> ('l, 'd) plane \<Rightarrow> pkt \<Rightarrow> (bool \<times> ('l, 'd) plane) option" where
  "link_try_put T l pl x = (case link_put T l x pl of None \<Rightarrow> Some (False, pl) | Some r \<Rightarrow> Some r)"

definition link_try_get :: "'l \<Rightarrow> ('l, 'd) plane \<Rightarrow> (pkt option \<times> ('l, 'd) plane) option" where
  "link_try_get l pl = Some (link_get l pl)"

definition link_open :: "('l, 'd) net \<Rightarrow> 'l \<Rightarrow> ('l, 'd) plane \<Rightarrow> bool" where
  "link_open T l pl \<longleftrightarrow> \<not> link_closed pl l \<and> length (link_q pl l) \<le> link_cap T l"

interpretation lk: bounded_fifo "link_open T l" "\<lambda>pl. link_q pl l" "\<lambda>_. link_cap T l" "\<lambda>_ _. True"
  "link_try_put T l" "link_try_get l" for T l
  by unfold_locales
    (auto simp: link_open_def link_try_put_def link_put_def link_try_get_def link_get_def
      split: list.splits)

section \<open>The same answers as the library\<close>

text \<open>A packet in memory: the sequence number and the path, little endian.\<close>

definition path_code :: "path_id \<Rightarrow> u32" where
  "path_code p =
     (case p of PATH_TUN_FORWARD_ENC_TUNNEL \<Rightarrow> 0 | PATH_TUNNEL_ENC_FORWARD_TUN \<Rightarrow> 1
      | PATH_TUNNEL_FORWARD_TUN \<Rightarrow> 2 | PATH_TUN_FORWARD_TUNNEL \<Rightarrow> 3
      | PATH_TUNNEL_FORWARD_OAM \<Rightarrow> 4 | PATH_OAM_FORWARD_TUNNEL \<Rightarrow> 5)"

definition u32_bytes :: "u32 \<Rightarrow> byte list" where
  "u32_bytes x = [ucast x, ucast (drop_bit 8 x), ucast (drop_bit 16 x), ucast (drop_bit 24 x)]"

definition pkt_bytes :: "pkt \<Rightarrow> byte list" where
  "pkt_bytes x = u32_bytes (seq x) @ u32_bytes (path_code (path x))"

lemma spec_run_map:
  "spec_run c (map f q) (map (map_fifo_op f) ops) =
     map_prod (map (map_fifo_res f)) (map f) (spec_run c q ops)"
  by (induction c q ops rule: spec_run.induct)
    (auto simp: apfst_def map_prod_def split: prod.splits list.splits)

lemma pkt_chan_fits:
  assumes "n = CHAN_CAP \<or> n = CHAN_CAP_HOT"
  shows "next_pow2 (ucast (of_nat n :: u64)) = of_nat n" "init_fits (of_nat n) pkt_size" "n < 2 ^ 32" "0 < n"
proof -
  have "next_pow2 4096 = 4096" "next_pow2 8192 = 8192" by (simp_all add: next_pow2_def Let_def)
  then show "next_pow2 (ucast (of_nat n :: u64)) = of_nat n" "init_fits (of_nat n) pkt_size" "n < 2 ^ 32" "0 < n"
    using assms by (auto simp: init_fits_def CHAN_CAP_def CHAN_CAP_HOT_def pkt_size_def)
qed

text \<open>A new channel for packets is empty and has the capacity asked for.\<close>

lemma pkt_chan_capacity:
  assumes "malloc_spec malloc" "chan_create_impl True malloc pkt_size (of_nat n) sp = Some ch"
    and n: "n = CHAN_CAP \<or> n = CHAN_CAP_HOT"
  shows "rcap (ring ch) = n" "chan_quiet ch" "items_of ch = []" "\<not> closed ch" "elem_size ch = pkt_size"
proof -
  note F = pkt_chan_fits [OF n]
  note Q = chan_create_quiet [OF assms(1) F(2) assms(2)]
  show "chan_quiet ch" "items_of ch = []" "\<not> closed ch" "elem_size ch = pkt_size" using Q by simp_all
  obtain r where r: "ring_lf_init malloc (of_nat n) pkt_size = Some r" "ring ch = r"
    using assms(2) n by (auto simp: chan_create_impl_def CHAN_CAP_def CHAN_CAP_HOT_def split: option.splits if_splits)
  from r(1) have "ring_capacity r = next_pow2 (ucast (of_nat n :: u64))"
    by (auto simp: ring_lf_init_def Let_def split: option.splits if_splits)
  then show "rcap (ring ch) = n" using F(1,3) r(2) by (simp add: rcap_def unat_of_nat)
qed

text \<open>A queue of a network against a channel of the same capacity.\<close>

lemma queue_matches_channel:
  assumes Q: "rcap (ring (chans (sw s) c)) = link_cap T l" "chan_quiet (chans (sw s) c)" "items_of (chans (sw s) c) = []"
      "\<not> closed (chans (sw s) c)" "elem_size (chans (sw s) c) = pkt_size"
    and m: "8 \<le> length (mem (sw s) d)" and l: "link_q pl l = []" "\<not> link_closed pl l"
  shows "\<exists>rs pl' s'. fifo_run (link_try_put T l) (link_try_get l) pl ops = Some (rs, pl') \<and>
    fifo_run (chan_put t d c) (chan_get t d c) s (map (map_fifo_op pkt_bytes) ops) =
      Some (map (map_fifo_res pkt_bytes) rs, s') \<and>
    items_of (chans (sw s') c) = map pkt_bytes (link_q pl' l)"
proof -
  have u: "chan_usable d c s" using Q m by (simp add: chan_usable_def pkt_size_def)
  have "op_valid (\<lambda>x. length x = 8) (map_fifo_op pkt_bytes oper)" for oper
    by (cases oper) (simp_all add: pkt_bytes_def u32_bytes_def)
  then have v: "list_all (op_valid (\<lambda>x. length x = unat (elem_size (chans (sw s) c)))) (map (map_fifo_op pkt_bytes) ops)"
    by (simp add: list_all_iff Q(5) pkt_size_def)
  have "op_valid (\<lambda>_. True) oper" for oper :: "pkt fifo_op" by (cases oper) simp_all
  then have o: "link_open T l pl" "list_all (op_valid (\<lambda>_. True)) ops"
    using l by (simp_all add: link_open_def list_all_iff)
  obtain rs pl' where 1: "fifo_run (link_try_put T l) (link_try_get l) pl ops = Some (rs, pl')"
      "spec_run (link_cap T l) (link_q pl l) ops = (rs, link_q pl' l)"
    using lk.run_refines [OF o] by blast
  obtain rs' s' where 2: "fifo_run (chan_put t d c) (chan_get t d c) s (map (map_fifo_op pkt_bytes) ops) = Some (rs', s')"
      "spec_run (link_cap T l) [] (map (map_fifo_op pkt_bytes) ops) = (rs', items_of (chans (sw s') c))"
    using ch.run_refines [OF u v, of t] Q(1,3) by auto
  have "rs' = map (map_fifo_res pkt_bytes) rs" "items_of (chans (sw s') c) = map pkt_bytes (link_q pl' l)"
    using spec_run_map [of "link_cap T l" pkt_bytes "[]" ops] 1(2) 2(2) l(1) by simp_all
  then show ?thesis using 1(1) 2(1) by blast
qed

text \<open>
  C24. The queues of the data-plane models are channels of the library: on every sequence of sends
  and receives an empty link of \<open>dplane_pipeline.c\<close> gives the same replies, and holds the same
  packets, as the full machines of \<open>chan_try_send\<close> and \<open>chan_try_recv\<close> on the channel that
  \<open>links_init\<close> or \<open>test_io_init\<close> makes for it, with packets laid out as bytes; and so does an inbox of
  \<open>dplane_pipeline_mpsc.c\<close> with the channel \<open>inboxes_init\<close> makes.
\<close>

theorem link_matches_channel:
  assumes "malloc_spec malloc" "8 \<le> length (mem (sw s) d)"
    and "pkt_chan (\<lambda>_. (True, malloc)) l = Some (chans (sw s) c)" "link_q pl l = []" "\<not> link_closed pl l"
    and "inbox_chan (\<lambda>_. (True, malloc)) i = Some (chans (sw s) e)" "link_q pm i = []" "\<not> link_closed pm i"
  shows "(\<exists>rs pl' s'. fifo_run (link_try_put spsc_net l) (link_try_get l) pl ops = Some (rs, pl') \<and>
      fifo_run (chan_put t d c) (chan_get t d c) s (map (map_fifo_op pkt_bytes) ops) =
        Some (map (map_fifo_res pkt_bytes) rs, s') \<and>
      items_of (chans (sw s') c) = map pkt_bytes (link_q pl' l)) \<and>
    (\<exists>rs pm' s'. fifo_run (link_try_put mpsc_net i) (link_try_get i) pm ops = Some (rs, pm') \<and>
      fifo_run (chan_put t d e) (chan_get t d e) s (map (map_fifo_op pkt_bytes) ops) =
        Some (map (map_fifo_res pkt_bytes) rs, s') \<and>
      items_of (chans (sw s') e) = map pkt_bytes (link_q pm' i))"
proof
  have "chan_create_impl True malloc pkt_size (of_nat CHAN_CAP) True = Some (chans (sw s) c)"
    using assms(3) by (simp add: pkt_chan_def chan_create_spsc_def)
  note Q = pkt_chan_capacity [OF assms(1) this]
  show "\<exists>rs pl' s'. fifo_run (link_try_put spsc_net l) (link_try_get l) pl ops = Some (rs, pl') \<and>
      fifo_run (chan_put t d c) (chan_get t d c) s (map (map_fifo_op pkt_bytes) ops) =
        Some (map (map_fifo_res pkt_bytes) rs, s') \<and>
      items_of (chans (sw s') c) = map pkt_bytes (link_q pl' l)"
    by (rule queue_matches_channel) (use Q assms(2,4,5) in simp_all)
  have "chan_create_impl True malloc pkt_size (of_nat (inbox_cap i)) False = Some (chans (sw s) e)"
    using assms(6) by (simp add: inbox_chan_def chan_create_def)
  moreover have "inbox_cap i = CHAN_CAP \<or> inbox_cap i = CHAN_CAP_HOT" by (cases i) (simp_all add: inbox_cap_def)
  ultimately have Q: "rcap (ring (chans (sw s) e)) = inbox_cap i" "chan_quiet (chans (sw s) e)"
      "items_of (chans (sw s) e) = []" "\<not> closed (chans (sw s) e)" "elem_size (chans (sw s) e) = pkt_size"
    using pkt_chan_capacity [OF assms(1)] by blast+
  show "\<exists>rs pm' s'. fifo_run (link_try_put mpsc_net i) (link_try_get i) pm ops = Some (rs, pm') \<and>
      fifo_run (chan_put t d e) (chan_get t d e) s (map (map_fifo_op pkt_bytes) ops) =
        Some (map (map_fifo_res pkt_bytes) rs, s') \<and>
      items_of (chans (sw s') e) = map pkt_bytes (link_q pm' i)"
    by (rule queue_matches_channel) (use Q assms(2,7,8) in simp_all)
qed

text \<open>A system with a link of one program at address 0 and an inbox of the other at address 1.\<close>

definition zero_malloc :: "u64 \<Rightarrow> byte list option" where
  "zero_malloc n = Some (replicate (unat n) 0)"

definition demo_link :: chan where
  "demo_link = the (pkt_chan (\<lambda>_. (True, zero_malloc)) Inj_tun)"

definition demo_inbox :: chan where
  "demo_inbox = the (inbox_chan (\<lambda>_. (True, zero_malloc)) In_tunnel)"

definition demo_channels :: sys where
  "demo_channels = (demo_sys demo_link)\<lparr>sw := (sw (demo_sys demo_link))\<lparr>chans := (\<lambda>_. demo_link)(1 := demo_inbox),
     mem := \<lambda>_. replicate 8 0\<rparr>\<rparr>"

lemma demo_channels_made:
  "pkt_chan (\<lambda>_. (True, zero_malloc)) Inj_tun = Some (chans (sw demo_channels) 0)"
  "inbox_chan (\<lambda>_. (True, zero_malloc)) In_tunnel = Some (chans (sw demo_channels) 1)"
proof -
  have "pkt_chan (\<lambda>_. (True, zero_malloc)) Inj_tun \<noteq> None" "inbox_chan (\<lambda>_. (True, zero_malloc)) In_tunnel \<noteq> None"
    by (simp_all add: pkt_chan_def inbox_chan_def chan_create_spsc_def chan_create_def chan_create_impl_def
        ring_lf_init_def Let_def zero_malloc_def pkt_size_def CHAN_CAP_def CHAN_CAP_HOT_def inbox_cap_def)
  then show "pkt_chan (\<lambda>_. (True, zero_malloc)) Inj_tun = Some (chans (sw demo_channels) 0)"
    "inbox_chan (\<lambda>_. (True, zero_malloc)) In_tunnel = Some (chans (sw demo_channels) 1)"
    by (auto simp: demo_link_def demo_inbox_def demo_channels_def demo_sys_def)
qed

theorem link_matches_channel_witness:
  "(\<exists>rs pl' s'. fifo_run (link_try_put spsc_net Inj_tun) (link_try_get Inj_tun) demo_plane
       [Enq \<lparr>seq = 7, path = PATH_TUN_FORWARD_TUNNEL\<rparr>, Deq] = Some (rs, pl') \<and>
     fifo_run (chan_put 0 1 0) (chan_get 0 1 0) demo_channels
       (map (map_fifo_op pkt_bytes) [Enq \<lparr>seq = 7, path = PATH_TUN_FORWARD_TUNNEL\<rparr>, Deq]) =
       Some (map (map_fifo_res pkt_bytes) rs, s')) \<and>
   (\<exists>rs pm' s'. fifo_run (link_try_put mpsc_net In_tunnel) (link_try_get In_tunnel) mpsc_demo_plane
       [Enq \<lparr>seq = 7, path = PATH_TUN_FORWARD_TUNNEL\<rparr>, Deq] = Some (rs, pm') \<and>
     fifo_run (chan_put 0 1 1) (chan_get 0 1 1) demo_channels
       (map (map_fifo_op pkt_bytes) [Enq \<lparr>seq = 7, path = PATH_TUN_FORWARD_TUNNEL\<rparr>, Deq]) =
       Some (map (map_fifo_res pkt_bytes) rs, s'))"
proof -
  have m: "malloc_spec zero_malloc" "8 \<le> length (mem (sw demo_channels) 1)"
    by (simp_all add: malloc_spec_def zero_malloc_def demo_channels_def)
  have q: "link_q demo_plane Inj_tun = []" "\<not> link_closed demo_plane Inj_tun"
      "link_q mpsc_demo_plane In_tunnel = []" "\<not> link_closed mpsc_demo_plane In_tunnel"
    by (simp_all add: demo_plane_def mpsc_demo_plane_def plane_init_fields)
  show ?thesis
    using link_matches_channel [OF m demo_channels_made(1) q(1,2) demo_channels_made(2) q(3,4)] by blast
qed

end
