(* ===== verification/Snake.thy ===== *)
theory Snake
  imports Chan_Prelude
begin

text \<open>
  \<open>examples/snake_chan.c\<close>: the keyboard decoder of the input thread, the rules of the game, one
  iteration of the game loop, and the frame that is drawn. \<open>rand()\<close> is a parameter: the
  sequence of its results, which the C standard promises to be non-negative. What the input
  thread sends and the game loop receives passes through a channel of capacity 4; the
  directions a call of \<open>apply_dirs\<close> receives are a parameter of the step.
\<close>

section \<open>Types and constants\<close>

datatype dir = DIR_UP | DIR_DOWN | DIR_LEFT | DIR_RIGHT | DIR_NONE

record pos =
  px :: int
  py :: int

definition W :: nat where "W = 44"

definition H :: nat where "H = 24"

definition MAXLEN :: nat where "MAXLEN = W * H"

definition DRAWBUF :: nat where "DRAWBUF = W * H + 256"

definition TICK_MS :: nat where "TICK_MS = 140"

section \<open>The keyboard\<close>

text \<open>
  The results of \<open>read_byte\<close> are a list: a byte, or \<open>-1\<close> when no byte is there. A decoder
  returns the direction and the results it has not consumed, or \<open>None\<close> when it needs more
  of them.
\<close>

definition final_dir :: "int \<Rightarrow> dir" where
  "final_dir f =
     (if f = of_char CHR ''A'' then DIR_UP else if f = of_char CHR ''B'' then DIR_DOWN
      else if f = of_char CHR ''C'' then DIR_RIGHT else if f = of_char CHR ''D'' then DIR_LEFT
      else DIR_NONE)"

fun csi_dir :: "int list \<Rightarrow> (dir \<times> int list) option" where
  "csi_dir [] = None"
| "csi_dir (f # fs) =
     (if f < 0 then Some (DIR_NONE, fs)
      else if of_char CHR ''A'' \<le> f \<and> f \<le> of_char CHR ''~'' then Some (final_dir f, fs)
      else csi_dir fs)"

definition read_escape_seq :: "int list \<Rightarrow> (dir \<times> int list) option" where
  "read_escape_seq cs =
     (case cs of
        [] \<Rightarrow> None
      | c # cs1 \<Rightarrow>
          (if c < 0 then Some (DIR_NONE, cs1)
           else if c = of_char CHR ''O'' then
             (case cs1 of [] \<Rightarrow> None
              | f # cs2 \<Rightarrow> Some (if f < 0 then DIR_NONE else final_dir f, cs2))
           else if c = of_char CHR ''['' then csi_dir cs1
           else Some (DIR_NONE, cs1)))"

definition key_to_dir :: "int \<Rightarrow> dir" where
  "key_to_dir c =
     (if c = of_char CHR ''w'' \<or> c = of_char CHR ''W'' then DIR_UP
      else if c = of_char CHR ''s'' \<or> c = of_char CHR ''S'' then DIR_DOWN
      else if c = of_char CHR ''a'' then DIR_LEFT
      else if c = of_char CHR ''d'' \<or> c = of_char CHR ''D'' then DIR_RIGHT
      else DIR_NONE)"

text \<open>
  The input thread: what it does to the channel while it works through a list of results.
  It ends after \<open>q\<close>, which closes the channel.
\<close>

datatype input_ev = Send_dir dir | Close_dirs

lemma csi_dir_shorter: "csi_dir cs = Some (d, rest) \<Longrightarrow> length rest < length cs"
  by (induction cs) (auto split: if_splits)

lemma read_escape_shorter: "read_escape_seq cs = Some (d, rest) \<Longrightarrow> length rest < length cs"
  by (auto simp: read_escape_seq_def split: list.splits if_splits dest!: csi_dir_shorter)

function input_thread :: "int list \<Rightarrow> input_ev list" where
  "input_thread [] = []"
| "input_thread (c # cs) =
     (if c < 0 then input_thread cs
      else if c = of_char CHR ''q'' \<or> c = of_char CHR ''Q'' then [Close_dirs]
      else if key_to_dir c = DIR_NONE \<and> c = 27 then
        (case read_escape_seq cs of
           None \<Rightarrow> []
         | Some (d, rest) \<Rightarrow> (if d \<noteq> DIR_NONE then [Send_dir d] else []) @ input_thread rest)
      else (if key_to_dir c \<noteq> DIR_NONE then [Send_dir (key_to_dir c)] else []) @ input_thread cs)"
  by pat_completeness auto
termination
  by (relation "measure length") (auto dest: read_escape_shorter)

section \<open>The rules\<close>

definition opposite :: "dir \<Rightarrow> dir \<Rightarrow> bool" where
  "opposite a b \<longleftrightarrow> a = DIR_UP \<and> b = DIR_DOWN \<or> a = DIR_DOWN \<and> b = DIR_UP \<or>
     a = DIR_LEFT \<and> b = DIR_RIGHT \<or> a = DIR_RIGHT \<and> b = DIR_LEFT"

fun apply_dirs :: "dir list \<Rightarrow> dir \<Rightarrow> dir" where
  "apply_dirs [] cur = cur"
| "apply_dirs (d # ds) cur = apply_dirs ds (if opposite cur d then cur else d)"

definition same_cell :: "pos \<Rightarrow> pos \<Rightarrow> bool" where
  "same_cell p q \<longleftrightarrow> px p = px q \<and> py p = py q"

text \<open>\<open>place_food\<close>: at most a thousand tries; the last try stays when all of them hit the snake.\<close>

fun place_food_tries :: "(nat \<Rightarrow> nat) \<Rightarrow> pos list \<Rightarrow> nat \<Rightarrow> nat \<Rightarrow> pos \<Rightarrow> nat \<Rightarrow> pos \<times> nat" where
  "place_food_tries rand snake len 0 food k = (food, k)"
| "place_food_tries rand snake len (Suc n) food k =
     (let food1 = \<lparr>px = 1 + int (rand k mod (W - 2)), py = 1 + int (rand (Suc k) mod (H - 2))\<rparr>
      in if list_ex (\<lambda>p. same_cell p food1) (take len snake)
         then place_food_tries rand snake len n food1 (k + 2) else (food1, k + 2))"

definition place_food :: "(nat \<Rightarrow> nat) \<Rightarrow> pos list \<Rightarrow> nat \<Rightarrow> pos \<Rightarrow> nat \<Rightarrow> pos \<times> nat" where
  "place_food rand snake len food k = place_food_tries rand snake len 1000 food k"

definition hit_wall :: "pos \<Rightarrow> bool" where
  "hit_wall p \<longleftrightarrow> px p \<le> 0 \<or> int W - 1 \<le> px p \<or> py p \<le> 0 \<or> int H - 1 \<le> py p"

definition hit_self :: "pos list \<Rightarrow> nat \<Rightarrow> pos \<Rightarrow> bool" where
  "hit_self snake len head \<longleftrightarrow> list_ex (\<lambda>i. same_cell (snake ! i) head) [1..<len]"

definition next_head :: "dir \<Rightarrow> pos \<Rightarrow> pos" where
  "next_head cur head =
     (case cur of
        DIR_UP \<Rightarrow> head\<lparr>py := py head - 1\<rparr>
      | DIR_DOWN \<Rightarrow> head\<lparr>py := py head + 1\<rparr>
      | DIR_LEFT \<Rightarrow> head\<lparr>px := px head - 1\<rparr>
      | DIR_RIGHT \<Rightarrow> head\<lparr>px := px head + 1\<rparr>
      | DIR_NONE \<Rightarrow> head)"

section \<open>The game loop\<close>

text \<open>
  The local variables of \<open>main\<close>. \<open>snake\<close> is the whole array, of which the first \<open>len\<close>
  entries are in use; \<open>rnd\<close> counts the calls of \<open>rand\<close>.
\<close>

record game =
  snake :: "pos list"
  len :: nat
  cur :: dir
  food :: pos
  score :: nat
  rnd :: nat

datatype game_outcome = Going game | Game_over game pos | Quit game

text \<open>\<open>memmove(snake + 1, snake, (len - 1) * sizeof(pos_t))\<close> and the store of the new head.\<close>

definition shift_in :: "pos \<Rightarrow> nat \<Rightarrow> pos list \<Rightarrow> pos list" where
  "shift_in head n xs = (take 1 xs @ take (n - 1) xs @ drop n xs)[0 := head]"

text \<open>
  One iteration, up to the drawing: \<open>ds\<close> are the directions \<open>apply_dirs\<close> receives and
  \<open>closed\<close> is what \<open>chan_is_closed\<close> answers.
\<close>

definition game_step :: "(nat \<Rightarrow> nat) \<Rightarrow> dir list \<Rightarrow> bool \<Rightarrow> game \<Rightarrow> game_outcome" where
  "game_step rand ds closed g =
     (let g1 = g\<lparr>cur := apply_dirs ds (cur g)\<rparr>
      in if closed then Quit g1
         else
           (let head = next_head (cur g1) (snake g1 ! 0)
            in if hit_wall head \<or> hit_self (snake g1) (len g1) head then Game_over g1 head
               else
                 (let g2 =
                        (if same_cell head (food g1)
                         then (let n = (if len g1 < MAXLEN then len g1 + 1 else len g1);
                                   (fd, k) = place_food rand (snake g1) n (food g1) (rnd g1)
                               in g1\<lparr>score := score g1 + 1, len := n, food := fd, rnd := k\<rparr>)
                         else g1)
                  in Going (g2\<lparr>snake := shift_in head (len g2) (snake g2)\<rparr>))))"

text \<open>
  \<open>tick_sleep\<close>: every 5 ms the directions received meanwhile are applied; it ends early when
  the channel is closed. \<open>polls\<close> lists what the polls find.
\<close>

fun tick_sleep :: "nat \<Rightarrow> (dir list \<times> bool) list \<Rightarrow> dir \<Rightarrow> dir" where
  "tick_sleep elapsed [] c = c"
| "tick_sleep elapsed ((ds, closed) # polls) c =
     (if elapsed < TICK_MS
      then (if closed then apply_dirs ds c else tick_sleep (elapsed + 5) polls (apply_dirs ds c))
      else c)"

text \<open>The start: a snake of three cells in the middle; the rest of the array is uninitialised.\<close>

definition start_game :: "(nat \<Rightarrow> nat) \<Rightarrow> pos list \<Rightarrow> pos \<Rightarrow> game" where
  "start_game rand junk junk_food =
     (let mid = int (W div 2); midy = int (H div 2);
          body = [\<lparr>px = mid, py = midy\<rparr>, \<lparr>px = mid - 1, py = midy\<rparr>, \<lparr>px = mid - 2, py = midy\<rparr>] @ junk;
          (fd, k) = place_food rand body 3 junk_food 0
      in \<lparr>snake = body, len = 3, cur = DIR_RIGHT, food = fd, score = 0, rnd = k\<rparr>)"

inductive snake_reach :: "(nat \<Rightarrow> nat) \<Rightarrow> game \<Rightarrow> game \<Rightarrow> bool" for rand g0 where
  start: "snake_reach rand g0 g0"
| step: "snake_reach rand g0 g \<Longrightarrow> DIR_NONE \<notin> set ds \<Longrightarrow> game_step rand ds False g = Going g1 \<Longrightarrow>
     DIR_NONE \<notin> set (concat (map fst polls)) \<Longrightarrow>
     snake_reach rand g0 (g1\<lparr>cur := tick_sleep 0 polls (cur g1)\<rparr>)"

section \<open>The input thread sends only directions\<close>

lemma input_thread_dirs: "Send_dir DIR_NONE \<notin> set (input_thread cs)"
proof (induction cs rule: input_thread.induct)
  case (2 c cs)
  then show ?case by (cases "read_escape_seq cs") auto
qed simp

section \<open>The invariant\<close>

definition adjacent :: "pos \<Rightarrow> pos \<Rightarrow> bool" where
  "adjacent p q \<longleftrightarrow> \<bar>px p - px q\<bar> + \<bar>py p - py q\<bar> = 1"

abbreviation body :: "game \<Rightarrow> pos list" where
  "body g \<equiv> take (len g) (snake g)"

definition snake_ok :: "game \<Rightarrow> bool" where
  "snake_ok g \<longleftrightarrow> length (snake g) = MAXLEN \<and> 3 \<le> len g \<and> len g \<le> MAXLEN \<and> cur g \<noteq> DIR_NONE \<and>
     distinct (body g) \<and> (\<forall>p \<in> set (body g). \<not> hit_wall p) \<and> successively adjacent (body g) \<and>
     \<not> hit_wall (food g) \<and> score g + 3 = len g"

lemma same_cell_eq: "same_cell p q \<longleftrightarrow> p = q" for p q :: pos
  by (auto simp: same_cell_def)

lemma apply_dirs_dir: "DIR_NONE \<notin> set ds \<Longrightarrow> c \<noteq> DIR_NONE \<Longrightarrow> apply_dirs ds c \<noteq> DIR_NONE"
  by (induction ds c rule: apply_dirs.induct) auto

lemma tick_sleep_dir: "DIR_NONE \<notin> set (concat (map fst polls)) \<Longrightarrow> c \<noteq> DIR_NONE \<Longrightarrow> tick_sleep e polls c \<noteq> DIR_NONE"
  by (induction e polls c rule: tick_sleep.induct) (auto simp: apply_dirs_dir)

lemma food_inside:
  "\<not> hit_wall \<lparr>px = 1 + int (a mod (W - 2)), py = 1 + int (b mod (H - 2))\<rparr>"
proof -
  have "a mod 42 < 42" "b mod 22 < 22" by simp_all
  then show ?thesis by (simp add: hit_wall_def W_def H_def not_le)
qed

lemma place_food_inside:
  "0 < n \<Longrightarrow> \<not> hit_wall (fst (place_food_tries rand xs m n fd k))"
proof (induction rand xs m n fd k rule: place_food_tries.induct)
  case (2 rand xs m n fd k)
  then show ?case using food_inside by (cases n) (auto simp: Let_def)
qed simp

text \<open>The cells inside the walls, and how many there are.\<close>

lemma inside_card: "finite {p. \<not> hit_wall p}" "card {p. \<not> hit_wall p} = (W - 2) * (H - 2)"
proof -
  let ?f = "\<lambda>(a, b). \<lparr>px = a, py = b\<rparr>" and ?R = "{1 .. int W - 2} \<times> {1 .. int H - 2}"
  have eq: "{p. \<not> hit_wall p} = ?f ` ?R"
  proof (intro equalityI subsetI)
    fix p assume "p \<in> {p. \<not> hit_wall p}"
    then show "p \<in> ?f ` ?R" by (intro image_eqI [of _ _ "(px p, py p)"]) (auto simp: hit_wall_def)
  qed (auto simp: hit_wall_def)
  have "inj_on ?f ?R" by (auto simp: inj_on_def)
  then have "card (?f ` ?R) = card ?R" by (rule card_image)
  also have "\<dots> = (W - 2) * (H - 2)" by (simp add: card_cartesian_product W_def H_def)
  finally show "card {p. \<not> hit_wall p} = (W - 2) * (H - 2)" using eq by simp
  show "finite {p. \<not> hit_wall p}" unfolding eq by simp
qed

lemma distinct_inside:
  assumes "distinct xs" "\<forall>p \<in> set xs. \<not> hit_wall p"
  shows "length xs \<le> (W - 2) * (H - 2)"
proof -
  have "card (set xs) \<le> card {p. \<not> hit_wall p}" using assms(2) inside_card(1) by (intro card_mono) auto
  with assms(1) inside_card(2) show ?thesis by (simp add: distinct_card)
qed

lemma snake_ok_len: "snake_ok g \<Longrightarrow> len g \<le> (W - 2) * (H - 2) \<and> len g < MAXLEN"
  using distinct_inside [of "body g"] by (auto simp: snake_ok_def W_def H_def MAXLEN_def)

lemma shift_in_take:
  assumes "0 < n" "n \<le> length xs"
  shows "take n (shift_in p n xs) = p # take (n - 1) xs" "length (shift_in p n xs) = length xs"
  using assms by (cases xs; cases n; simp add: shift_in_def)+

lemma next_head_adjacent: "c \<noteq> DIR_NONE \<Longrightarrow> adjacent (next_head c p) p"
  by (cases c) (auto simp: adjacent_def next_head_def)

lemma not_adjacent_self: "\<not> adjacent p p"
  by (simp add: adjacent_def)

lemma hit_self_body:
  assumes "\<not> hit_self xs n p" "p \<noteq> xs ! 0" "n \<le> length xs"
  shows "p \<notin> set (take n xs)"
proof
  assume "p \<in> set (take n xs)"
  then obtain i where "i < n" "xs ! i = p" using assms(3) by (auto simp: in_set_conv_nth)
  with assms(1,2) show False
    by (cases "i = 0") (auto simp: hit_self_def list_ex_iff same_cell_eq)
qed

text \<open>Moving a well-formed body one cell on, with or without growing, gives a well-formed body.\<close>

lemma moved_body:
  assumes "distinct (take m xs)" "\<forall>p \<in> set (take m xs). \<not> hit_wall p" "successively adjacent (take m xs)"
    and "adjacent p (xs ! 0)" "p \<notin> set (take m xs)" "\<not> hit_wall p" "n - 1 \<le> m" "0 < n" "n \<le> length xs"
  shows "distinct (take n (shift_in p n xs)) \<and> (\<forall>q \<in> set (take n (shift_in p n xs)). \<not> hit_wall q) \<and>
    successively adjacent (take n (shift_in p n xs))"
proof -
  have t: "take (n - 1) xs = take (n - 1) (take m xs)" using assms(7) by (simp add: min_absorb1)
  have sub: "set (take (n - 1) xs) \<subseteq> set (take m xs)" unfolding t by (rule set_take_subset)
  have d: "distinct (take (n - 1) xs)" unfolding t using assms(1) by (rule distinct_take)
  have "successively adjacent (take (n - 1) (take m xs) @ drop (n - 1) (take m xs))"
    using assms(3) by (simp only: append_take_drop_id)
  then have s: "successively adjacent (take (n - 1) xs)" unfolding t successively_append_iff by blast
  have "successively adjacent (p # take (n - 1) xs)"
    using s assms(4,9) by (cases "take (n - 1) xs"; cases xs) (auto simp: take_Cons' split: if_splits)
  with d sub assms(2,5,6) show ?thesis
    by (auto simp: shift_in_take [OF assms(8,9)])
qed

lemma game_step_ok:
  assumes ok: "snake_ok g" and ds: "DIR_NONE \<notin> set ds" and step: "game_step rand ds False g = Going g'"
  shows "snake_ok g'"
proof -
  let ?c = "apply_dirs ds (cur g)"
  let ?head = "next_head ?c (snake g ! 0)"
  note O = ok [unfolded snake_ok_def]
  have c: "?c \<noteq> DIR_NONE" using O ds by (simp add: apply_dirs_dir)
  have adj: "adjacent ?head (snake g ! 0)" using c by (rule next_head_adjacent)
  have live: "\<not> hit_wall ?head" "\<not> hit_self (snake g) (len g) ?head"
    using step by (auto simp: game_step_def Let_def split: if_splits)
  have "?head \<noteq> snake g ! 0" using adj not_adjacent_self by metis
  with live(2) have fresh: "?head \<notin> set (body g)" using O by (intro hit_self_body) auto
  have lt: "len g < MAXLEN" using snake_ok_len [OF ok] by simp
  show ?thesis
  proof (cases "same_cell ?head (food g)")
    case True
    let ?n = "len g + 1"
    obtain fd k where f: "place_food rand (snake g) ?n (food g) (rnd g) = (fd, k)" by fastforce
    then have "\<not> hit_wall fd"
      using place_food_inside [of 1000 rand "snake g" ?n "food g" "rnd g"] by (simp add: place_food_def)
    moreover have "g' = g\<lparr>cur := ?c, score := score g + 1, len := ?n, food := fd, rnd := k,
        snake := shift_in ?head ?n (snake g)\<rparr>"
      using step live True lt f by (simp add: game_step_def Let_def)
    ultimately show ?thesis
      using moved_body [of "len g" "snake g" ?head ?n] O adj fresh live(1) lt c
      by (simp add: snake_ok_def shift_in_take)
  next
    case False
    have "g' = g\<lparr>cur := ?c, snake := shift_in ?head (len g) (snake g)\<rparr>"
      using step live False by (simp add: game_step_def Let_def)
    then show ?thesis
      using moved_body [of "len g" "snake g" ?head "len g"] O adj fresh live(1) lt c
      by (simp add: snake_ok_def shift_in_take)
  qed
qed

lemma start_game_ok:
  assumes "length junk = MAXLEN - 3"
  shows "snake_ok (start_game rand junk f)"
proof -
  let ?b = "[\<lparr>px = 22, py = 12\<rparr>, \<lparr>px = 21, py = 12\<rparr>, \<lparr>px = 20, py = 12\<rparr>] @ junk"
  obtain fd k where p: "place_food rand ?b 3 f 0 = (fd, k)" by fastforce
  then have "\<not> hit_wall fd"
    using place_food_inside [of 1000 rand ?b 3 f 0] by (simp add: place_food_def)
  moreover have "start_game rand junk f =
      \<lparr>snake = ?b, len = 3, cur = DIR_RIGHT, food = fd, score = 0, rnd = k\<rparr>"
    using p by (simp add: start_game_def W_def H_def Let_def)
  ultimately show ?thesis
    using assms by (simp add: snake_ok_def MAXLEN_def W_def H_def hit_wall_def adjacent_def)
qed

lemma snake_reach_ok: "snake_reach rand g0 g \<Longrightarrow> snake_ok g0 \<Longrightarrow> snake_ok g"
proof (induction rule: snake_reach.induct)
  case (step g ds g1 polls)
  have g1: "snake_ok g1" using game_step_ok [OF step.IH [OF step.prems] step.hyps(2,3)] .
  then have "tick_sleep 0 polls (cur g1) \<noteq> DIR_NONE"
    using step.hyps(4) by (intro tick_sleep_dir) (auto simp: snake_ok_def)
  with g1 show ?case by (simp add: snake_ok_def)
qed

text \<open>
  C25. The game keeps its snake in shape. Whatever the player types, whenever the directions
  arrive, whatever \<open>rand\<close> returns and whatever the uninitialised part of the array holds, at
  every iteration of the game loop: the cells of the snake are inside the walls, pairwise
  different and each next to the one before; the food is inside the walls; the score is the
  number of cells grown; and the length never exceeds the number of inner cells, which is
  smaller than the array, so no access to \<open>snake\<close> is out of bounds.
\<close>

theorem snake_invariant:
  assumes "length junk = MAXLEN - 3" "snake_reach rand (start_game rand junk f) g"
  shows "distinct (body g) \<and> (\<forall>p \<in> set (body g). \<not> hit_wall p) \<and> successively adjacent (body g) \<and>
    \<not> hit_wall (food g) \<and> score g + 3 = len g \<and> length (snake g) = MAXLEN \<and>
    len g \<le> (W - 2) * (H - 2) \<and> len g < MAXLEN"
  using snake_reach_ok [OF assms(2) start_game_ok [OF assms(1)]] snake_ok_len [of g]
  by (auto simp: snake_ok_def)

text \<open>A first try that misses the snake is taken.\<close>

lemma place_food_first:
  assumes "\<not> list_ex (\<lambda>p. same_cell p \<lparr>px = 1 + int (rand k mod (W - 2)), py = 1 + int (rand (Suc k) mod (H - 2))\<rparr>) (take n xs)"
  shows "place_food rand xs n fd k =
    (\<lparr>px = 1 + int (rand k mod (W - 2)), py = 1 + int (rand (Suc k) mod (H - 2))\<rparr>, k + 2)"
proof -
  have "(1000 :: nat) = Suc 999" by simp
  with assms show ?thesis unfolding place_food_def by (simp only: place_food_tries.simps Let_def if_False)
qed

text \<open>The player turns up at once.\<close>

theorem snake_invariant_witness:
  "\<exists>g. snake_reach (\<lambda>_. 0) (start_game (\<lambda>_. 0) (replicate (MAXLEN - 3) \<lparr>px = 0, py = 0\<rparr>) \<lparr>px = 0, py = 0\<rparr>) g \<and>
     body g = [\<lparr>px = 22, py = 11\<rparr>, \<lparr>px = 22, py = 12\<rparr>, \<lparr>px = 21, py = 12\<rparr>] \<and> distinct (body g) \<and>
     food g = \<lparr>px = 1, py = 1\<rparr> \<and> score g + 3 = len g"
proof -
  let ?j = "replicate (MAXLEN - 3) \<lparr>px = 0, py = 0\<rparr>" and ?f = "\<lparr>px = 0, py = 0\<rparr>"
  let ?b = "[\<lparr>px = 22, py = 12\<rparr>, \<lparr>px = 21, py = 12\<rparr>, \<lparr>px = 20, py = 12\<rparr>]"
  let ?g0 = "\<lparr>snake = ?b @ ?j, len = 3, cur = DIR_RIGHT, food = \<lparr>px = 1, py = 1\<rparr>, score = 0, rnd = 2\<rparr>"
  let ?g1 = "\<lparr>snake = shift_in \<lparr>px = 22, py = 11\<rparr> 3 (?b @ ?j), len = 3, cur = DIR_UP,
      food = \<lparr>px = 1, py = 1\<rparr>, score = 0, rnd = 2\<rparr>"
  have "place_food (\<lambda>_. 0) (?b @ ?j) 3 ?f 0 = (\<lparr>px = 1, py = 1\<rparr>, 2)"
    by (subst place_food_first) (simp_all add: same_cell_def)
  then have s: "start_game (\<lambda>_. 0) ?j ?f = ?g0"
    by (simp add: start_game_def W_def H_def Let_def)
  have "game_step (\<lambda>_. 0) [DIR_UP] False ?g0 = Going ?g1"
    by (simp add: game_step_def Let_def opposite_def next_head_def hit_wall_def W_def H_def hit_self_def
        same_cell_def numeral_3_eq_3 upt_conv_Cons)
  then have r: "snake_reach (\<lambda>_. 0) (start_game (\<lambda>_. 0) ?j ?f) (?g1\<lparr>cur := tick_sleep 0 [] (cur ?g1)\<rparr>)"
    using snake_reach.step [OF snake_reach.start, of "[DIR_UP]" "\<lambda>_. 0" ?g0 ?g1 "[]"] by (simp add: s)
  show ?thesis
    using r snake_invariant [OF _ r] by (intro exI [of _ ?g1]) (simp add: shift_in_take)
qed

section \<open>The frame\<close>

function dec :: "nat \<Rightarrow> string" where
  "dec n = (if n < 10 then [char_of (48 + n)] else dec (n div 10) @ [char_of (48 + n mod 10)])"
  by pat_completeness auto
termination
  by (relation "measure id") auto

declare dec.simps [simp del]

definition dir_name :: "dir \<Rightarrow> string" where
  "dir_name c =
     (case c of DIR_UP \<Rightarrow> ''UP'' | DIR_DOWN \<Rightarrow> ''DOWN'' | DIR_LEFT \<Rightarrow> ''LEFT'' | DIR_RIGHT \<Rightarrow> ''RIGHT''
      | DIR_NONE \<Rightarrow> ''-'')"

definition frame_header :: "nat \<Rightarrow> dir \<Rightarrow> string" where
  "frame_header sc c =
     char_of (27 :: nat) # ''[Hsnake_chan  score '' @ dec sc @ ''  WASD/arrows  q=quit  dir: '' @ dir_name c @
     [char_of (10 :: nat)]"

definition frame_cell :: "pos list \<Rightarrow> nat \<Rightarrow> pos \<Rightarrow> pos \<Rightarrow> bool \<Rightarrow> int \<Rightarrow> int \<Rightarrow> char" where
  "frame_cell xs n fd crash crashed y x =
     (if x = 0 \<or> x = int W - 1 \<or> y = 0 \<or> y = int H - 1 then CHR ''#''
      else if crashed \<and> x = px crash \<and> y = py crash then CHR ''X''
      else if x = px fd \<and> y = py fd then CHR ''*''
      else
        (case filter (\<lambda>i. same_cell (xs ! i) \<lparr>px = x, py = y\<rparr>) [0..<n] of
           [] \<Rightarrow> CHR '' ''
         | i # _ \<Rightarrow> if i = 0 \<and> \<not> crashed then CHR ''@'' else CHR ''o''))"

text \<open>The two loops stop when the buffer is full.\<close>

fun draw_row :: "(int \<Rightarrow> char) \<Rightarrow> int list \<Rightarrow> string \<Rightarrow> string" where
  "draw_row f [] buf = buf"
| "draw_row f (x # xs) buf = (if DRAWBUF \<le> length buf + 1 then buf else draw_row f xs (buf @ [f x]))"

fun draw_rows :: "(int \<Rightarrow> int \<Rightarrow> char) \<Rightarrow> int list \<Rightarrow> string \<Rightarrow> string" where
  "draw_rows f [] buf = buf"
| "draw_rows f (y # ys) buf =
     (let buf1 = draw_row (f y) (map int [0..<W]) buf
      in if DRAWBUF \<le> length buf1 + 1 then buf1 else draw_rows f ys (buf1 @ [char_of (10 :: nat)]))"

definition draw_frame :: "pos list \<Rightarrow> nat \<Rightarrow> pos \<Rightarrow> nat \<Rightarrow> dir \<Rightarrow> pos \<Rightarrow> bool \<Rightarrow> string option \<Rightarrow> string" where
  "draw_frame xs n fd sc c crash crashed footer =
     (let buf = draw_rows (frame_cell xs n fd crash crashed) (map int [0..<H]) (frame_header sc c)
      in case footer of
           None \<Rightarrow> buf
         | Some f \<Rightarrow> buf @ take (DRAWBUF - length buf - 1) (char_of (10 :: nat) # f))"

definition game_over_footer :: "nat \<Rightarrow> string" where
  "game_over_footer sc =
     ''*** GAME OVER '' @ map char_of [226, 128, 148 :: nat] @ '' score '' @ dec sc @ '' ***''"

lemma draw_row_fits:
  "length buf + length xs < DRAWBUF \<Longrightarrow> draw_row f xs buf = buf @ map f xs"
  by (induction f xs buf rule: draw_row.induct) auto

lemma draw_rows_fits:
  "length buf + length ys * (W + 1) < DRAWBUF \<Longrightarrow>
     draw_rows f ys buf = buf @ concat (map (\<lambda>y. map (f y) (map int [0..<W]) @ [char_of (10 :: nat)]) ys)"
proof (induction f ys buf rule: draw_rows.induct)
  case (2 f y ys buf)
  have row: "draw_row (f y) (map int [0..<W]) buf = buf @ map (f y) (map int [0..<W])"
    using 2(2) by (intro draw_row_fits) simp
  with 2 show ?case by (simp add: Let_def)
qed simp

lemma dec_length: "n < 10 ^ k \<Longrightarrow> 0 < k \<Longrightarrow> length (dec n) \<le> k"
proof (induction k arbitrary: n)
  case (Suc k)
  show ?case
  proof (cases "n < 10")
    case True
    then show ?thesis by (simp add: dec.simps)
  next
    case False
    then have "0 < k" using Suc.prems by (cases k) auto
    moreover have "n div 10 < 10 ^ k" using Suc.prems(1) by (simp add: div_less_iff_less_mult mult.commute)
    ultimately have "length (dec (n div 10)) \<le> k" by (rule Suc.IH [rotated])
    with False show ?thesis by (subst dec.simps) simp
  qed
qed simp

text \<open>
  C26. Drawing never runs out of buffer. For every game the loop can reach, with the game-over
  line or without, the frame is the header, all 24 rows of 44 cells each with its line end,
  and the footer: the tests that guard the buffer never cut anything off, and the
  terminating zero fits as well.
\<close>

theorem draw_frame_complete:
  assumes "length junk = MAXLEN - 3" "snake_reach rand (start_game rand junk f) g"
    and "footer = None \<or> footer = Some (game_over_footer (score g))"
  shows "draw_frame (snake g) (len g) (food g) (score g) (cur g) crash crashed footer =
      frame_header (score g) (cur g) @
      concat (map (\<lambda>y. map (frame_cell (snake g) (len g) (food g) crash crashed y) (map int [0..<W]) @
        [char_of (10 :: nat)]) (map int [0..<H])) @
      (case footer of None \<Rightarrow> [] | Some t \<Rightarrow> char_of (10 :: nat) # t) \<and>
    length (draw_frame (snake g) (len g) (food g) (score g) (cur g) crash crashed footer) < DRAWBUF"
proof -
  have ok: "snake_ok g" by (rule snake_reach_ok [OF assms(2) start_game_ok [OF assms(1)]])
  then have "score g < 10 ^ 3" using snake_ok_len [OF ok] by (simp add: snake_ok_def W_def H_def)
  then have d: "length (dec (score g)) \<le> 3" by (intro dec_length) simp_all
  have n: "length (dir_name (cur g)) \<le> 5" by (cases "cur g") (simp_all add: dir_name_def)
  let ?fr = "frame_header (score g) (cur g) @
      concat (map (\<lambda>y. map (frame_cell (snake g) (len g) (food g) crash crashed y) (map int [0..<W]) @
        [char_of (10 :: nat)]) (map int [0..<H]))"
  have h: "length (frame_header (score g) (cur g)) \<le> 70" using d n by (simp add: frame_header_def)
  then have rows: "draw_rows (frame_cell (snake g) (len g) (food g) crash crashed) (map int [0..<H])
      (frame_header (score g) (cur g)) = ?fr"
    by (intro draw_rows_fits) (simp add: DRAWBUF_def W_def H_def)
  have len: "length ?fr \<le> 1150" using h by (simp add: length_concat o_def sum_list_triv W_def H_def)
  have foot: "length (game_over_footer (score g)) \<le> 31" using d by (simp add: game_over_footer_def)
  show ?thesis
    using assms(3) len foot unfolding draw_frame_def rows Let_def
    by (auto simp: DRAWBUF_def W_def H_def)
qed

theorem draw_frame_complete_witness:
  "\<exists>g. g = start_game (\<lambda>_. 0) (replicate (MAXLEN - 3) \<lparr>px = 0, py = 0\<rparr>) \<lparr>px = 0, py = 0\<rparr> \<and>
     length (draw_frame (snake g) (len g) (food g) (score g) (cur g) \<lparr>px = 9, py = 0\<rparr> True
       (Some (game_over_footer (score g)))) < DRAWBUF"
proof (intro exI conjI)
  let ?g = "start_game (\<lambda>_. 0) (replicate (MAXLEN - 3) \<lparr>px = 0, py = 0\<rparr>) \<lparr>px = 0, py = 0\<rparr>"
  show "length (draw_frame (snake ?g) (len ?g) (food ?g) (score ?g) (cur ?g) \<lparr>px = 9, py = 0\<rparr> True
       (Some (game_over_footer (score ?g)))) < DRAWBUF"
    by (rule conjunct2 [OF draw_frame_complete [OF _ snake_reach.start disjI2 [OF refl]]]) simp
qed (rule refl)

section \<open>Two surprises\<close>

text \<open>
  The test against reversing looks at the current direction only: two keys within one tick
  turn the snake around, and it runs into its own neck.
\<close>

lemma quick_turn_kills:
  "game_step rand [DIR_UP, DIR_LEFT] False
     \<lparr>snake = [\<lparr>px = 22, py = 12\<rparr>, \<lparr>px = 21, py = 12\<rparr>, \<lparr>px = 20, py = 12\<rparr>] @ junk, len = 3, cur = DIR_RIGHT,
      food = fd, score = 0, rnd = k\<rparr> =
   Game_over
     \<lparr>snake = [\<lparr>px = 22, py = 12\<rparr>, \<lparr>px = 21, py = 12\<rparr>, \<lparr>px = 20, py = 12\<rparr>] @ junk, len = 3, cur = DIR_LEFT,
      food = fd, score = 0, rnd = k\<rparr> \<lparr>px = 21, py = 12\<rparr>"
  by (simp add: game_step_def Let_def opposite_def next_head_def hit_wall_def W_def H_def hit_self_def
      same_cell_def numeral_3_eq_3 upt_conv_Cons)

text \<open>
  \<open>place_food\<close> is called before the snake moves: the new food may lie under the new head, on
  the cell of the food just eaten.
\<close>

lemma food_under_head:
  assumes "3 \<le> length junk" "rand k mod 42 = 22" "rand (Suc k) mod 22 = 11" "junk ! 0 \<noteq> \<lparr>px = 23, py = 12\<rparr>"
  shows "\<exists>g. game_step rand [] False
       \<lparr>snake = [\<lparr>px = 22, py = 12\<rparr>, \<lparr>px = 21, py = 12\<rparr>, \<lparr>px = 20, py = 12\<rparr>] @ junk, len = 3, cur = DIR_RIGHT,
        food = \<lparr>px = 23, py = 12\<rparr>, score = 0, rnd = k\<rparr> = Going g \<and> food g = snake g ! 0"
proof -
  let ?xs = "[\<lparr>px = 22, py = 12\<rparr>, \<lparr>px = 21, py = 12\<rparr>, \<lparr>px = 20, py = 12\<rparr>] @ junk"
  obtain j js where junk: "junk = j # js" using assms(1) by (cases junk) auto
  have "place_food rand ?xs 4 \<lparr>px = 23, py = 12\<rparr> k = (\<lparr>px = 23, py = 12\<rparr>, k + 2)"
    by (subst place_food_first) (use assms junk in \<open>simp_all add: same_cell_eq W_def H_def\<close>)
  moreover have "\<not> hit_self ?xs 3 \<lparr>px = 23, py = 12\<rparr>"
    by (simp add: hit_self_def same_cell_def numeral_3_eq_3 upt_conv_Cons)
  ultimately show ?thesis
    by (simp add: game_step_def Let_def next_head_def hit_wall_def W_def H_def MAXLEN_def same_cell_def shift_in_def)
qed

end
