(* ===== verification/Sieve.thy ===== *)
theory Sieve
  imports "HOL-Library.Sublist"
begin

text \<open>
  \<open>examples/sieve_primes.c\<close>: the generator, the filters and the main thread as step machines
  over channels of capacity 1, for any limit. A channel operation is one step on a bounded
  FIFO queue with a closed flag: a send waits while the queue is full and fails on a closed
  channel, a receive waits while it is empty and open and fails when it is empty and closed.
\<close>

section \<open>State\<close>

text \<open>What a filter thread does next; \<open>V_send i\<close>: it has received \<open>i\<close> and has to pass it on.\<close>

datatype filt_pc = V_recv | V_send int | V_close | V_done

record filt =
  fprime :: int
  fpc :: filt_pc

text \<open>
  Channel 0 is \<open>head\<close>; filter \<open>j\<close> reads channel \<open>j\<close> and writes channel \<open>j + 1\<close>; the main
  thread reads the last channel. \<open>gen_next\<close> is the loop variable of \<open>generate\<close>.
\<close>

record pipeline =
  chq :: "int list list"
  chclosed :: "bool list"
  gen_next :: int
  gen_done :: bool
  filters :: "filt list"
  printed :: "int list"
  main_done :: bool

definition LIMIT :: int where "LIMIT = 541"

definition MAXSTAGE :: nat where "MAXSTAGE = 256"

definition CAP :: nat where "CAP = 1"

definition start_pipeline :: pipeline where
  "start_pipeline = \<lparr>chq = [[]], chclosed = [False], gen_next = 2, gen_done = False, filters = [],
     printed = [], main_done = False\<rparr>"

section \<open>Channels\<close>

abbreviation put :: "nat \<Rightarrow> int \<Rightarrow> pipeline \<Rightarrow> pipeline" where
  "put c x s \<equiv> s\<lparr>chq := (chq s)[c := chq s ! c @ [x]]\<rparr>"

abbreviation close_ch :: "nat \<Rightarrow> pipeline \<Rightarrow> pipeline" where
  "close_ch c s \<equiv> s\<lparr>chclosed := (chclosed s)[c := True]\<rparr>"

section \<open>Threads\<close>

text \<open>\<open>generate\<close>; a send on a closed channel would end the loop as well.\<close>

definition gen_step :: "int \<Rightarrow> pipeline \<Rightarrow> pipeline option" where
  "gen_step limit s =
     (if gen_done s then None
      else if gen_next s \<le> limit \<and> \<not> chclosed s ! 0
      then (if length (chq s ! 0) < CAP then Some ((put 0 (gen_next s) s)\<lparr>gen_next := gen_next s + 1\<rparr>) else None)
      else Some ((close_ch 0 s)\<lparr>gen_done := True\<rparr>))"

abbreviation filter_at :: "nat \<Rightarrow> filt_pc \<Rightarrow> pipeline \<Rightarrow> pipeline" where
  "filter_at j pc s \<equiv> s\<lparr>filters := (filters s)[j := (filters s ! j)\<lparr>fpc := pc\<rparr>]\<rparr>"

text \<open>\<open>filter\<close>, thread number \<open>j\<close>.\<close>

definition filter_step :: "nat \<Rightarrow> pipeline \<Rightarrow> pipeline option" where
  "filter_step j s =
     (if \<not> j < length (filters s) then None
      else
        (case fpc (filters s ! j) of
           V_recv \<Rightarrow>
             (case chq s ! j of
                i # xs \<Rightarrow>
                  Some (filter_at j (if i mod fprime (filters s ! j) \<noteq> 0 then V_send i else V_recv)
                    (s\<lparr>chq := (chq s)[j := xs]\<rparr>))
              | [] \<Rightarrow> (if chclosed s ! j then Some (filter_at j V_close s) else None))
         | V_send i \<Rightarrow>
             (if chclosed s ! Suc j then Some (filter_at j V_close s)
              else if length (chq s ! Suc j) < CAP then Some (filter_at j V_recv (put (Suc j) i s))
              else None)
         | V_close \<Rightarrow> Some (filter_at j V_done (close_ch (Suc j) s))
         | V_done \<Rightarrow> None))"

text \<open>The loop of \<open>main\<close>: print the number received, and start a filter for it on a new channel.\<close>

definition sieve_main_step :: "pipeline \<Rightarrow> pipeline option" where
  "sieve_main_step s =
     (if main_done s then None
      else
        (let c = length (filters s)
         in case chq s ! c of
              p # xs \<Rightarrow>
                Some (s\<lparr>chq := (chq s)[c := xs] @ [[]], chclosed := chclosed s @ [False],
                        filters := filters s @ [\<lparr>fprime = p, fpc = V_recv\<rparr>],
                        printed := printed s @ [p]\<rparr>)
            | [] \<Rightarrow> (if chclosed s ! c then Some (s\<lparr>main_done := True\<rparr>) else None)))"

datatype thread = Gen | Filter nat | Main_th

definition sieve_step :: "int \<Rightarrow> thread \<Rightarrow> pipeline \<Rightarrow> pipeline option" where
  "sieve_step limit t s =
     (case t of Gen \<Rightarrow> gen_step limit s | Filter j \<Rightarrow> filter_step j s | Main_th \<Rightarrow> sieve_main_step s)"

inductive sieve_reach :: "int \<Rightarrow> pipeline \<Rightarrow> bool" for limit where
  start: "sieve_reach limit start_pipeline"
| step: "sieve_reach limit s \<Longrightarrow> sieve_step limit t s = Some s' \<Longrightarrow> sieve_reach limit s'"

section \<open>The sieve on lists\<close>

function sieve :: "int list \<Rightarrow> int list" where
  "sieve [] = []"
| "sieve (p # xs) = p # sieve (filter (\<lambda>i. i mod p \<noteq> 0) xs)"
  by pat_completeness auto
termination
  by (relation "measure length") (auto simp: le_imp_less_Suc)

definition is_prime :: "int \<Rightarrow> bool" where
  "is_prime n \<longleftrightarrow> 1 < n \<and> (\<forall>m. m dvd n \<longrightarrow> 1 < m \<longrightarrow> m = n)"

lemma is_primeD: "is_prime n \<Longrightarrow> m dvd n \<Longrightarrow> 1 < m \<Longrightarrow> m = n"
  by (simp add: is_prime_def)

text \<open>
  The numbers not divisible by any number from 2 to \<open>k - 1\<close> are sieved to the primes among
  them.
\<close>

lemma prime_divisor: "1 < n \<Longrightarrow> \<exists>p. is_prime p \<and> p dvd n" for n :: int
proof (induction "nat n" arbitrary: n rule: less_induct)
  case less
  show ?case
  proof (cases "is_prime n")
    case False
    then obtain m where m: "m dvd n" "1 < m" "m \<noteq> n" using less.prems by (auto simp: is_prime_def)
    then have "m < n" using less.prems by (simp add: zdvd_imp_le order_less_le)
    with less.hyps [of m] m show ?thesis using dvd_trans by fastforce
  qed auto
qed

lemma sieve_primes:
  assumes "sorted_wrt (<) xs" "\<forall>x \<in> set xs. 1 < x"
    and "\<And>x. x \<in> set xs \<Longrightarrow> \<forall>p. is_prime p \<longrightarrow> p dvd x \<longrightarrow> p \<in> set xs"
  shows "sieve xs = filter is_prime xs"
  using assms
proof (induction xs rule: sieve.induct)
  case (2 p xs)
  let ?ys = "filter (\<lambda>i. i mod p \<noteq> 0) xs"
  have p: "1 < p" "\<And>x. x \<in> set xs \<Longrightarrow> p < x" using 2(2,3) by auto
  obtain q where q: "is_prime q" "q dvd p" using prime_divisor [OF p(1)] by blast
  then have "q \<in> set (p # xs)" using 2(4) [of p] by simp
  moreover have "q \<le> p" using q(2) p(1) by (simp add: zdvd_imp_le)
  ultimately have "q = p" using p(2) [of q] by auto
  with q(1) have pp: "is_prime p" by simp
  have ys: "sieve ?ys = filter is_prime ?ys"
  proof (rule 2(1))
    show "sorted_wrt (<) ?ys" using 2(2) by (simp add: sorted_wrt_filter)
    show "\<forall>x \<in> set ?ys. 1 < x" using 2(3) by simp
    fix x assume x: "x \<in> set ?ys"
    show "\<forall>q. is_prime q \<longrightarrow> q dvd x \<longrightarrow> q \<in> set ?ys"
    proof (intro allI impI)
      fix q assume q: "is_prime q" "q dvd x"
      then have "q \<in> set (p # xs)" using 2(4) [of x] x by simp
      moreover have "q \<noteq> p" using x q(2) by (auto simp: dvd_eq_mod_eq_0)
      moreover have "\<not> p dvd q"
        using is_primeD [OF q(1), of p] p(1) \<open>q \<noteq> p\<close> by auto
      ultimately show "q \<in> set ?ys" by (simp add: dvd_eq_mod_eq_0)
    qed
  qed
  have nm: "x mod p \<noteq> 0" if "x \<in> set xs" "is_prime x" for x
    using is_primeD [OF that(2), of p] p(1) p(2) [OF that(1)] by (auto simp: dvd_eq_mod_eq_0)
  have "(x mod p \<noteq> 0 \<and> is_prime x) = is_prime x" if "x \<in> set xs" for x using nm [OF that] by auto
  then have "filter (\<lambda>x. x mod p \<noteq> 0 \<and> is_prime x) xs = filter is_prime xs" by (rule filter_cong [OF refl])
  then have "filter is_prime ?ys = filter is_prime xs" by (simp only: filter_filter)
  with ys pp show ?case by (simp only: sieve.simps filter.simps if_True)
qed simp

lemma sieve_upto: "sieve [2..n] = filter is_prime [2..n]"
proof (rule sieve_primes)
  fix x :: int assume x: "x \<in> set [2..n]"
  show "\<forall>p. is_prime p \<longrightarrow> p dvd x \<longrightarrow> p \<in> set [2..n]"
  proof (intro allI impI)
    fix p assume "is_prime p" "p dvd x"
    with x show "p \<in> set [2..n]" using zdvd_imp_le [of p x] by (auto simp: is_prime_def)
  qed
qed simp_all

section \<open>What is still to come\<close>

definition filt_held :: "filt_pc \<Rightarrow> int list" where
  "filt_held pc = (case pc of V_send i \<Rightarrow> [i] | _ \<Rightarrow> [])"

text \<open>Everything that will still be received from a channel, and what is not yet in its queue.\<close>

fun future :: "int \<Rightarrow> pipeline \<Rightarrow> nat \<Rightarrow> int list" where
  "future limit s 0 = chq s ! 0 @ [gen_next s..limit]"
| "future limit s (Suc j) =
     chq s ! Suc j @ filt_held (fpc (filters s ! j)) @
       filter (\<lambda>i. i mod fprime (filters s ! j) \<noteq> 0) (future limit s j)"

definition upstream :: "int \<Rightarrow> pipeline \<Rightarrow> nat \<Rightarrow> int list" where
  "upstream limit s c =
     (case c of 0 \<Rightarrow> [gen_next s..limit]
      | Suc j \<Rightarrow> filt_held (fpc (filters s ! j)) @ filter (\<lambda>i. i mod fprime (filters s ! j) \<noteq> 0) (future limit s j))"

lemma future_upstream: "future limit s c = chq s ! c @ upstream limit s c"
  by (cases c) (simp_all add: upstream_def)

lemma future_below:
  assumes "gen_next s' = gen_next s" "\<forall>i \<le> m. chq s' ! i = chq s ! i" "\<forall>i < m. filters s' ! i = filters s ! i"
  shows "future limit s' m = future limit s m"
  using assms by (induction m) simp_all

lemma upstream_below:
  assumes "gen_next s' = gen_next s" "\<forall>i < m. chq s' ! i = chq s ! i" "\<forall>i < m. filters s' ! i = filters s ! i"
  shows "upstream limit s' m = upstream limit s m"
proof (cases m)
  case (Suc j)
  then have "future limit s' j = future limit s j" using assms by (intro future_below) simp_all
  with assms Suc show ?thesis by (simp add: upstream_def)
qed (simp add: upstream_def assms)

lemma future_above:
  assumes "future limit s' a = future limit s a" "a \<le> m"
    and "\<forall>i. a \<le> i \<and> i < m \<longrightarrow> chq s' ! Suc i = chq s ! Suc i \<and> filters s' ! i = filters s ! i"
  shows "future limit s' m = future limit s m"
  using assms(2,3)
proof (induction m)
  case 0
  then show ?case using assms(1) by simp
next
  case (Suc m)
  show ?case
  proof (cases "a = Suc m")
    case False
    then show ?thesis using Suc by simp
  qed (use assms(1) in simp)
qed

text \<open>
  The invariant: the printed numbers, followed by the sieve of what the main thread will still
  receive, are the sieve of all numbers; and a thread that has closed its channel has
  nothing left.
\<close>

definition pipe_ok :: "int \<Rightarrow> pipeline \<Rightarrow> bool" where
  "pipe_ok limit s \<longleftrightarrow>
     length (chq s) = Suc (length (filters s)) \<and> length (chclosed s) = Suc (length (filters s)) \<and>
     printed s = map fprime (filters s) \<and>
     printed s @ sieve (future limit s (length (filters s))) = sieve [2..limit] \<and>
     (gen_done s \<longleftrightarrow> chclosed s ! 0) \<and> (gen_done s \<longrightarrow> limit < gen_next s) \<and>
     (\<forall>j < length (filters s). (fpc (filters s ! j) = V_done \<longleftrightarrow> chclosed s ! Suc j) \<and>
        (fpc (filters s ! j) \<in> {V_close, V_done} \<longrightarrow> future limit s j = [] \<and> chclosed s ! j)) \<and>
     (main_done s \<longrightarrow> future limit s (length (filters s)) = [] \<and> chclosed s ! length (filters s))"

lemma start_pipeline_ok: "pipe_ok limit start_pipeline"
  by (simp add: pipe_ok_def start_pipeline_def)

text \<open>A step that changes no future and no prime keeps the sum.\<close>

lemma pipe_ok_same:
  assumes "pipe_ok limit s" "filters s' = filters s" "printed s' = printed s" "main_done s' = main_done s"
    and "length (chq s') = length (chq s)" "length (chclosed s') = length (chclosed s)"
    and "\<And>m. m \<le> length (filters s) \<Longrightarrow> future limit s' m = future limit s m"
    and "gen_done s' \<longleftrightarrow> chclosed s' ! 0" "gen_done s' \<longrightarrow> limit < gen_next s'"
    and "\<forall>j. 0 < j \<longrightarrow> chclosed s' ! j = chclosed s ! j" "chclosed s ! 0 \<longrightarrow> chclosed s' ! 0"
  shows "pipe_ok limit s'"
proof -
  have keep: "chclosed s' ! k" if "chclosed s ! k" for k using that assms(10,11) by (cases k) auto
  with assms show ?thesis by (auto simp: pipe_ok_def)
qed

lemma gen_step_ok:
  assumes ok: "pipe_ok limit s" and step: "gen_step limit s = Some s'"
  shows "pipe_ok limit s'"
proof (cases "gen_next s \<le> limit")
  case True
  have nd: "\<not> gen_done s" using step by (auto simp: gen_step_def split: if_splits)
  with ok have nc: "\<not> chclosed s ! 0" by (simp add: pipe_ok_def)
  have len: "length (chq s) = Suc (length (filters s))" using ok by (simp add: pipe_ok_def)
  have s': "s' = (put 0 (gen_next s) s)\<lparr>gen_next := gen_next s + 1\<rparr>"
    using step True nd nc by (auto simp: gen_step_def split: if_splits)
  have "future limit s' 0 = future limit s 0"
    using True len upto_rec1 [OF True] by (simp add: s')
  then have "future limit s' m = future limit s m" for m
    by (rule future_above) (simp_all add: s')
  with ok nd nc show ?thesis
    by (intro pipe_ok_same [OF ok]) (simp_all add: s' pipe_ok_def)
next
  case False
  have s': "s' = (close_ch 0 s)\<lparr>gen_done := True\<rparr>"
    using step False by (auto simp: gen_step_def split: if_splits)
  have "future limit s' m = future limit s m" for m
    by (rule future_below) (simp_all add: s')
  moreover have "length (chclosed s) = Suc (length (filters s))" using ok by (simp add: pipe_ok_def)
  ultimately show ?thesis
    using False by (intro pipe_ok_same [OF ok]) (simp_all add: s')
qed

text \<open>Nothing more comes into a closed channel.\<close>

lemma upstream_closed:
  assumes ok: "pipe_ok limit s" and c: "c \<le> length (filters s)" "chclosed s ! c"
  shows "upstream limit s c = []"
proof (cases c)
  case 0
  with ok c show ?thesis by (auto simp: pipe_ok_def upstream_def)
next
  case (Suc k)
  have "(fpc (filters s ! k) = V_done \<longleftrightarrow> chclosed s ! Suc k) \<and>
    (fpc (filters s ! k) \<in> {V_close, V_done} \<longrightarrow> future limit s k = [] \<and> chclosed s ! k)"
    using ok c(1) unfolding Suc pipe_ok_def by (meson Suc_le_lessD)
  with c(2) Suc show ?thesis by (simp add: upstream_def filt_held_def)
qed

lemma pipe_ok_filter:
  assumes ok: "pipe_ok limit s" and j: "j < length (filters s)" "fpc (filters s ! j) \<noteq> V_done"
    and s': "filters s' = (filters s)[j := (filters s ! j)\<lparr>fpc := pc\<rparr>]" "printed s' = printed s"
      "main_done s' = main_done s" "gen_done s' = gen_done s" "gen_next s' = gen_next s"
      "length (chq s') = length (chq s)" "chclosed s' = (if pc = V_done then (chclosed s)[Suc j := True] else chclosed s)"
    and fut: "\<And>m. m \<le> length (filters s) \<Longrightarrow> m \<noteq> j \<Longrightarrow> future limit s' m = future limit s m"
    and pc: "pc \<in> {V_close, V_done} \<Longrightarrow> future limit s' j = [] \<and> chclosed s ! j"
  shows "pipe_ok limit s'"
proof -
  let ?n = "length (filters s)"
  note O = ok [unfolded pipe_ok_def]
  have primes: "map fprime (filters s') = map fprime (filters s)"
    by (rule nth_equalityI) (simp_all add: s'(1) nth_list_update j(1))
  have c0: "chclosed s' ! 0 = chclosed s ! 0" by (simp add: s'(7))
  have "\<not> chclosed s ! Suc j" using O j by auto
  then have cl: "(fpc (filters s' ! k) = V_done \<longleftrightarrow> chclosed s' ! Suc k)" if "k < ?n" for k
    using O that j by (cases "k = j") (auto simp: s'(1,7))
  have keep: "chclosed s' ! k" if "chclosed s ! k" "k \<le> ?n" for k
    using that O by (cases "k = Suc j") (auto simp: s'(7))
  have ft: "future limit s' k = [] \<and> chclosed s' ! k" if "k < ?n" "fpc (filters s' ! k) \<in> {V_close, V_done}" for k
  proof (cases "k = j")
    case True
    with that j pc keep [of k] show ?thesis by (simp add: s'(1))
  next
    case False
    then have "future limit s k = [] \<and> chclosed s ! k" using O that by (auto simp: s'(1))
    with fut [of k] keep [of k] that False show ?thesis by simp
  qed
  have last: "future limit s' ?n = future limit s ?n" using fut [of ?n] j(1) by simp
  have n': "length (filters s') = ?n" by (simp add: s'(1))
  have "length (chclosed s') = Suc ?n" "length (chq s') = Suc ?n" using O by (simp_all add: s'(6,7))
  moreover have "printed s' = map fprime (filters s')" using O primes by (metis s'(2))
  moreover have "printed s' @ sieve (future limit s' ?n) = sieve [2..limit]" using O last by (metis s'(2))
  moreover have "gen_done s' \<longleftrightarrow> chclosed s' ! 0" "gen_done s' \<longrightarrow> limit < gen_next s'"
    using O c0 by (simp_all add: s'(4,5))
  moreover have "main_done s' \<longrightarrow> future limit s' ?n = [] \<and> chclosed s' ! ?n"
    using O keep last by (simp add: s'(3))
  ultimately show ?thesis unfolding pipe_ok_def n' using cl ft by blast
qed

text \<open>The four kinds of steps of a filter.\<close>

lemma filter_take_ok:
  assumes ok: "pipe_ok limit s" and j: "j < length (filters s)" "fpc (filters s ! j) = V_recv" "chq s ! j = i # xs"
  shows "pipe_ok limit (filter_at j (if i mod fprime (filters s ! j) \<noteq> 0 then V_send i else V_recv) (s\<lparr>chq := (chq s)[j := xs]\<rparr>))"
    (is "pipe_ok limit ?s")
proof -
  have len: "length (chq s) = Suc (length (filters s))" using ok by (simp add: pipe_ok_def)
  have up: "upstream limit ?s j = upstream limit s j" by (rule upstream_below) simp_all
  have "future limit ?s (Suc j) = future limit s (Suc j)"
    using j len up by (simp add: future_upstream [of _ _ j]) (simp add: filt_held_def)
  then have above: "future limit ?s m = future limit s m" if "Suc j \<le> m" for m
    using that by (rule future_above) simp
  have below: "future limit ?s m = future limit s m" if "m < j" for m
    by (rule future_below) (use that in simp_all)
  have "future limit ?s m = future limit s m" if "m \<noteq> j" for m
    using that above below by (cases m j rule: linorder_cases) auto
  then show ?thesis
    by (intro pipe_ok_filter [OF ok j(1)]) (use j in \<open>auto split: if_splits\<close>)
qed

lemma filter_eof_ok:
  assumes ok: "pipe_ok limit s" and j: "j < length (filters s)" "fpc (filters s ! j) = V_recv" "chq s ! j = []"
    and cl: "chclosed s ! j"
  shows "pipe_ok limit (filter_at j V_close s)" (is "pipe_ok limit ?s")
proof -
  have "future limit s j = []" using upstream_closed [OF ok] j cl by (simp add: future_upstream)
  moreover have "future limit ?s m = future limit s m" if "m \<le> length (filters s)" for m
  proof (cases "m \<le> j")
    case False
    have "future limit ?s (Suc j) = future limit s (Suc j)"
      using j future_below [of ?s s j limit] by (simp add: filt_held_def)
    then show ?thesis by (rule future_above) (use False in simp_all)
  qed (intro future_below; simp)
  ultimately show ?thesis
    using j cl by (intro pipe_ok_filter [OF ok j(1), of ?s V_close]) simp_all
qed

lemma filter_put_ok:
  assumes ok: "pipe_ok limit s" and j: "j < length (filters s)" "fpc (filters s ! j) = V_send i"
  shows "pipe_ok limit (filter_at j V_recv (put (Suc j) i s))" (is "pipe_ok limit ?s")
proof -
  have len: "length (chq s) = Suc (length (filters s))" using ok by (simp add: pipe_ok_def)
  have below: "future limit ?s m = future limit s m" if "m \<le> j" for m
    by (rule future_below) (use that in simp_all)
  then have "future limit ?s (Suc j) = future limit s (Suc j)"
    using j len by (simp add: filt_held_def)
  then have above: "future limit ?s m = future limit s m" if "Suc j \<le> m" for m
    using that by (rule future_above) simp
  show ?thesis
    by (rule pipe_ok_filter [OF ok j(1), of ?s V_recv]) (use j above below in \<open>auto simp: linorder_neq_iff\<close>)
qed

lemma filter_close_ok:
  assumes ok: "pipe_ok limit s" and j: "j < length (filters s)" "fpc (filters s ! j) = V_close"
  shows "pipe_ok limit (filter_at j V_done (close_ch (Suc j) s))" (is "pipe_ok limit ?s")
proof -
  have f: "future limit ?s m = future limit s m" if "m \<le> length (filters s)" for m
  proof (cases "m \<le> j")
    case False
    have "future limit ?s (Suc j) = future limit s (Suc j)"
      using j future_below [of ?s s j limit] by (simp add: filt_held_def)
    then show ?thesis by (rule future_above) (use False in simp_all)
  qed (intro future_below; simp)
  have "future limit s j = []" "chclosed s ! j" using ok j by (simp_all add: pipe_ok_def)
  then show ?thesis
    using j f by (intro pipe_ok_filter [OF ok j(1), of ?s V_done]) simp_all
qed

lemma filter_step_ok:
  assumes ok: "pipe_ok limit s" and step: "filter_step j s = Some s'"
  shows "pipe_ok limit s'"
proof -
  have j: "j < length (filters s)" using step by (auto simp: filter_step_def split: if_splits)
  show ?thesis
  proof (cases "fpc (filters s ! j)")
    case V_recv
    then show ?thesis
      using step j filter_take_ok [OF ok j V_recv] filter_eof_ok [OF ok j V_recv]
      by (cases "chq s ! j") (auto simp: filter_step_def split: if_splits)
  next
    case (V_send i)
    have "\<not> chclosed s ! Suc j" using ok j V_send by (auto simp: pipe_ok_def)
    then show ?thesis
      using step j V_send filter_put_ok [OF ok j V_send] by (auto simp: filter_step_def split: if_splits)
  next
    case V_close
    then show ?thesis using step j filter_close_ok [OF ok j V_close] by (auto simp: filter_step_def)
  qed (use step j in \<open>simp add: filter_step_def\<close>)
qed

lemma main_eof_ok:
  assumes ok: "pipe_ok limit s" and step: "sieve_main_step s = Some s'" and q: "chq s ! length (filters s) = []"
  shows "pipe_ok limit s'"
proof -
  let ?n = "length (filters s)"
  from q have cl: "chclosed s ! ?n" and s': "s' = s\<lparr>main_done := True\<rparr>"
    using step by (auto simp: sieve_main_step_def split: if_splits)
  have fut: "future limit s' m = future limit s m" for m by (rule future_below) (simp_all add: s')
  have "future limit s ?n = []" using upstream_closed [OF ok _ cl] q by (simp add: future_upstream)
  with ok cl fut show ?thesis unfolding pipe_ok_def by (elim conjE) (simp add: s')
qed

lemma main_prime_ok:
  assumes ok: "pipe_ok limit s" and step: "sieve_main_step s = Some s'" and q: "chq s ! length (filters s) = p # xs"
  shows "pipe_ok limit s'"
proof -
  let ?n = "length (filters s)"
  note O = ok [unfolded pipe_ok_def]
  have s': "s' = s\<lparr>chq := (chq s)[?n := xs] @ [[]], chclosed := chclosed s @ [False],
      filters := filters s @ [\<lparr>fprime = p, fpc = V_recv\<rparr>], printed := printed s @ [p]\<rparr>"
    and nm: "\<not> main_done s"
    using step q by (auto simp: sieve_main_step_def Let_def split: if_splits)
  have len: "length (chq s) = Suc ?n" "length (chclosed s) = Suc ?n" using O by simp_all
  have below: "future limit s' m = future limit s m" if "m < ?n" for m
    by (rule future_below) (use that len in \<open>simp_all add: s' nth_append\<close>)
  have up: "upstream limit s' ?n = upstream limit s ?n"
    by (rule upstream_below) (use len in \<open>simp_all add: s' nth_append\<close>)
  have fn: "future limit s ?n = p # future limit s' ?n"
    using q len up by (simp add: future_upstream) (simp add: s' nth_append)
  have "future limit s' (Suc ?n) = filter (\<lambda>i. i mod p \<noteq> 0) (future limit s' ?n)"
    using len by (simp add: s' nth_append filt_held_def)
  then have "sieve (future limit s ?n) = p # sieve (future limit s' (Suc ?n))" by (simp only: fn sieve.simps)
  moreover have "printed s' = printed s @ [p]" by (simp add: s')
  moreover have "printed s @ sieve (future limit s ?n) = sieve [2..limit]" using O by blast
  ultimately have sum: "printed s' @ sieve (future limit s' (Suc ?n)) = sieve [2..limit]" by (simp only: append.simps append_assoc)
  have pr: "printed s' = map fprime (filters s')" using O by (simp add: s')
  have fl: "(fpc (filters s' ! k) = V_done \<longleftrightarrow> chclosed s' ! Suc k) \<and>
      (fpc (filters s' ! k) \<in> {V_close, V_done} \<longrightarrow> future limit s' k = [] \<and> chclosed s' ! k)"
    if "k < Suc ?n" for k
  proof (cases "k = ?n")
    case True
    then show ?thesis using len by (simp add: s' nth_append)
  next
    case False
    with that have k: "k < ?n" by simp
    have "filters s' ! k = filters s ! k" "chclosed s' ! Suc k = chclosed s ! Suc k" "chclosed s' ! k = chclosed s ! k"
      using k len by (simp_all add: s' nth_append)
    then show ?thesis using O k below [OF k] by simp
  qed
  have "length (filters s') = Suc ?n" "length (chq s') = Suc (Suc ?n)" "length (chclosed s') = Suc (Suc ?n)"
    "\<not> main_done s'" "gen_done s' = gen_done s" "gen_next s' = gen_next s" "chclosed s' ! 0 = chclosed s ! 0"
    using len nm by (simp_all add: s' nth_append)
  with pr sum fl O show ?thesis unfolding pipe_ok_def by metis
qed

lemma main_step_ok: "pipe_ok limit s \<Longrightarrow> sieve_main_step s = Some s' \<Longrightarrow> pipe_ok limit s'"
  by (cases "chq s ! length (filters s)") (auto intro: main_eof_ok main_prime_ok)

lemma sieve_step_ok: "pipe_ok limit s \<Longrightarrow> sieve_step limit t s = Some s' \<Longrightarrow> pipe_ok limit s'"
  by (cases t) (auto simp: sieve_step_def intro: gen_step_ok filter_step_ok main_step_ok)

lemma sieve_reach_ok: "sieve_reach limit s \<Longrightarrow> pipe_ok limit s"
  by (induction rule: sieve_reach.induct) (auto intro: start_pipeline_ok sieve_step_ok)

section \<open>Progress\<close>

text \<open>Behind an empty open channel there is a thread that can move.\<close>

lemma empty_channel_progress:
  assumes "pipe_ok limit s" "c \<le> length (filters s)" "chq s ! c = []" "\<not> chclosed s ! c"
  shows "\<exists>t. sieve_step limit t s \<noteq> None"
  using assms(2-)
proof (induction c)
  case 0
  then have "\<not> gen_done s" using assms(1) by (simp add: pipe_ok_def)
  with 0 have "sieve_step limit Gen s \<noteq> None" by (simp add: sieve_step_def gen_step_def CAP_def)
  then show ?case by blast
next
  case (Suc j)
  then have j: "j < length (filters s)" by simp
  then have nd: "fpc (filters s ! j) \<noteq> V_done" using Suc.prems assms(1) by (auto simp: pipe_ok_def)
  show ?case
  proof (cases "fpc (filters s ! j) = V_recv \<and> chq s ! j = [] \<and> \<not> chclosed s ! j")
    case True
    then show ?thesis using Suc.IH j by simp
  next
    case False
    then have "sieve_step limit (Filter j) s \<noteq> None"
      using j nd Suc.prems
      by (cases "fpc (filters s ! j)") (auto simp: sieve_step_def filter_step_def CAP_def split: list.splits)
    then show ?thesis by blast
  qed
qed

definition all_done :: "pipeline \<Rightarrow> bool" where
  "all_done s \<longleftrightarrow> gen_done s \<and> main_done s \<and> (\<forall>f \<in> set (filters s). fpc f = V_done)"

lemma closed_upstream:
  assumes "pipe_ok limit s" "c \<le> length (filters s)" "chclosed s ! c" "k \<le> c"
  shows "chclosed s ! k"
  using assms(2-)
proof (induction c)
  case (Suc c)
  then have "chclosed s ! c" using assms(1) by (simp add: pipe_ok_def)
  with Suc show ?case by (cases "k = Suc c") auto
qed simp

lemma stuck_all_done:
  assumes ok: "pipe_ok limit s" and stuck: "\<And>t. sieve_step limit t s = None"
  shows "all_done s"
proof -
  let ?n = "length (filters s)"
  have md: "main_done s"
  proof (rule ccontr)
    assume "\<not> main_done s"
    then have "chq s ! ?n = []" "\<not> chclosed s ! ?n"
      using stuck [of Main_th] by (auto simp: sieve_step_def sieve_main_step_def Let_def split: list.splits if_splits)
    then show False using empty_channel_progress [OF ok, of ?n] stuck by simp
  qed
  then have "chclosed s ! ?n" using ok by (simp add: pipe_ok_def)
  then have cl: "chclosed s ! k" if "k \<le> ?n" for k using closed_upstream [OF ok order_refl] that by simp
  then have "fpc (filters s ! k) = V_done" if "k < ?n" for k
    using that ok cl [of "Suc k"] by (simp add: pipe_ok_def)
  moreover have "gen_done s" using cl [of 0] ok by (simp add: pipe_ok_def)
  ultimately show ?thesis using md by (auto simp: all_done_def in_set_conv_nth)
qed

section \<open>Termination\<close>

text \<open>
  A bound on the steps left. With \<open>K\<close> at least the number of filters there will be, a number
  in channel \<open>c\<close> is good for at most \<open>2 (K - c) + 3\<close> steps: two for each filter it passes
  and, if it is printed, the two closing steps of its own filter.
\<close>

definition filt_work :: "nat \<Rightarrow> nat \<Rightarrow> filt_pc \<Rightarrow> nat" where
  "filt_work K j pc =
     (case pc of V_recv \<Rightarrow> 2 | V_send i \<Rightarrow> 2 * (K - j) + 4 | V_close \<Rightarrow> 1 | V_done \<Rightarrow> 0)"

definition queue_work :: "nat \<Rightarrow> nat \<Rightarrow> int list \<Rightarrow> nat" where
  "queue_work K c q = length q * (2 * (K - c) + 3)"

definition work :: "int \<Rightarrow> pipeline \<Rightarrow> nat" where
  "work limit s =
     nat (limit + 1 - gen_next s) * (2 * nat limit + 4) +
     (\<Sum>c < length (chq s). queue_work (nat limit) c (chq s ! c)) +
     (\<Sum>j < length (filters s). filt_work (nat limit) j (fpc (filters s ! j))) +
     (if gen_done s then 0 else 1) + (if main_done s then 0 else 1)"

lemma sum_update:
  fixes h :: "nat \<Rightarrow> 'a \<Rightarrow> nat"
  assumes "i < length xs"
  shows "(\<Sum>c < length xs. h c (xs[i := v] ! c)) + h i (xs ! i) = (\<Sum>c < length xs. h c (xs ! c)) + h i v"
proof -
  have "(\<Sum>c \<in> {..<length xs} - {i}. h c (xs[i := v] ! c)) = (\<Sum>c \<in> {..<length xs} - {i}. h c (xs ! c))"
    by (rule sum.cong) auto
  then show ?thesis using assms by (simp add: sum.remove [of "{..<length xs}" i])
qed

lemma length_sieve: "length (sieve xs) \<le> length xs"
proof (induction xs rule: sieve.induct)
  case (2 p xs)
  then show ?case using le_trans [OF 2 length_filter_le] by simp
qed simp

lemma printed_prefix: "pipe_ok limit s \<Longrightarrow> prefix (printed s) (filter is_prime [2..limit])"
  unfolding pipe_ok_def sieve_upto [symmetric] by (metis prefixI)

lemma filters_bound:
  assumes "pipe_ok limit s"
  shows "length (filters s) \<le> nat limit"
proof -
  have "length (filters s) = length (printed s)" using assms by (simp add: pipe_ok_def)
  also have "\<dots> \<le> length (sieve [2..limit])"
    using prefix_length_le [OF printed_prefix [OF assms]] by (simp add: sieve_upto)
  also have "\<dots> \<le> nat limit" using length_sieve [of "[2..limit]"] by simp
  finally show ?thesis .
qed

lemma filter_at_work:
  assumes "j < length (filters s)"
  shows "(\<Sum>k < length (filters s). filt_work K k (fpc ((filters s)[j := (filters s ! j)\<lparr>fpc := pc\<rparr>] ! k))) +
      filt_work K j (fpc (filters s ! j)) =
    (\<Sum>k < length (filters s). filt_work K k (fpc (filters s ! k))) + filt_work K j pc"
  using sum_update [OF assms, of "\<lambda>k f. filt_work K k (fpc f)" "(filters s ! j)\<lparr>fpc := pc\<rparr>"] by simp

lemma gen_step_work:
  assumes ok: "pipe_ok limit s" and step: "gen_step limit s = Some s'"
  shows "work limit s' < work limit s"
proof (cases "gen_next s \<le> limit")
  case True
  have nd: "\<not> gen_done s" using step by (auto simp: gen_step_def split: if_splits)
  with ok have nc: "\<not> chclosed s ! 0" by (simp add: pipe_ok_def)
  have len: "0 < length (chq s)" using ok by (simp add: pipe_ok_def)
  have s': "s' = (put 0 (gen_next s) s)\<lparr>gen_next := gen_next s + 1\<rparr>"
    using step True nd nc by (auto simp: gen_step_def split: if_splits)
  have "nat (limit + 1 - gen_next s) = Suc (nat (limit - gen_next s))" using True by simp
  with sum_update [OF len, of "queue_work (nat limit)" "chq s ! 0 @ [gen_next s]"]
  show ?thesis by (simp add: work_def s' queue_work_def algebra_simps)
next
  case False
  have "s' = (close_ch 0 s)\<lparr>gen_done := True\<rparr>" "\<not> gen_done s"
    using step False by (auto simp: gen_step_def split: if_splits)
  then show ?thesis by (simp add: work_def)
qed

lemma filter_step_work:
  assumes ok: "pipe_ok limit s" and step: "filter_step j s = Some s'"
  shows "work limit s' < work limit s"
proof -
  let ?K = "nat limit"
  have j: "j < length (filters s)" using step by (auto simp: filter_step_def split: if_splits)
  have c: "j < length (chq s)" "Suc j < length (chq s)" using ok j by (simp_all add: pipe_ok_def)
  have K: "?K - j = Suc (?K - Suc j)" using filters_bound [OF ok] j by simp
  have f: "\<And>pc. (\<Sum>k < length (filters s). filt_work ?K k (fpc ((filters s)[j := (filters s ! j)\<lparr>fpc := pc\<rparr>] ! k))) +
      filt_work ?K j (fpc (filters s ! j)) =
    (\<Sum>k < length (filters s). filt_work ?K k (fpc (filters s ! k))) + filt_work ?K j pc"
    by (rule filter_at_work [OF j])
  show ?thesis
  proof (cases "fpc (filters s ! j)")
    case V_recv
    show ?thesis
    proof (cases "chq s ! j")
      case (Cons i xs)
      let ?pc = "if i mod fprime (filters s ! j) \<noteq> 0 then V_send i else V_recv"
      have "s' = filter_at j ?pc (s\<lparr>chq := (chq s)[j := xs]\<rparr>)"
        using step j V_recv Cons by (simp add: filter_step_def)
      with V_recv Cons sum_update [OF c(1), of "queue_work ?K" xs] f [of ?pc] show ?thesis
        by (simp add: work_def queue_work_def filt_work_def split: if_splits)
    next
      case Nil
      then have "s' = filter_at j V_close s"
        using step j V_recv by (auto simp: filter_step_def split: if_splits)
      with V_recv f [of V_close] show ?thesis by (simp add: work_def filt_work_def)
    qed
  next
    case (V_send i)
    then consider "s' = filter_at j V_recv (put (Suc j) i s)" | "s' = filter_at j V_close s"
      using step j by (auto simp: filter_step_def split: if_splits)
    then show ?thesis
    proof cases
      case 1
      with V_send K sum_update [OF c(2), of "queue_work ?K" "chq s ! Suc j @ [i]"] f [of V_recv] show ?thesis
        by (simp add: work_def queue_work_def filt_work_def)
    next
      case 2
      with V_send f [of V_close] show ?thesis by (simp add: work_def filt_work_def)
    qed
  next
    case V_close
    then have "s' = filter_at j V_done (close_ch (Suc j) s)" using step j by (simp add: filter_step_def)
    with V_close f [of V_done] show ?thesis by (simp add: work_def filt_work_def)
  qed (use step j in \<open>simp add: filter_step_def\<close>)
qed

lemma main_step_work:
  assumes ok: "pipe_ok limit s" and step: "sieve_main_step s = Some s'"
  shows "work limit s' < work limit s"
proof (cases "chq s ! length (filters s)")
  case Nil
  then have "s' = s\<lparr>main_done := True\<rparr>" "\<not> main_done s"
    using step by (auto simp: sieve_main_step_def split: if_splits)
  then show ?thesis by (simp add: work_def)
next
  case (Cons p xs)
  let ?n = "length (filters s)"
  let ?K = "nat limit"
  have s': "s' = s\<lparr>chq := (chq s)[?n := xs] @ [[]], chclosed := chclosed s @ [False],
      filters := filters s @ [\<lparr>fprime = p, fpc = V_recv\<rparr>], printed := printed s @ [p]\<rparr>"
    using step Cons by (auto simp: sieve_main_step_def Let_def split: if_splits)
  have len: "length (chq s) = Suc ?n" using ok by (simp add: pipe_ok_def)
  have "(\<Sum>c < Suc ?n. queue_work ?K c (((chq s)[?n := xs] @ [[]]) ! c)) =
      (\<Sum>c < Suc ?n. queue_work ?K c ((chq s)[?n := xs] ! c))"
    "(\<Sum>c < ?n. filt_work ?K c (fpc ((filters s @ [\<lparr>fprime = p, fpc = V_recv\<rparr>]) ! c))) =
      (\<Sum>c < ?n. filt_work ?K c (fpc (filters s ! c)))"
    using len by (auto intro!: sum.cong simp: nth_append)
  with sum_update [of ?n "chq s" "queue_work ?K" xs] Cons len show ?thesis
    by (simp add: work_def s' queue_work_def filt_work_def nth_append)
qed

lemma sieve_step_work: "pipe_ok limit s \<Longrightarrow> sieve_step limit t s = Some s' \<Longrightarrow> work limit s' < work limit s"
  by (cases t) (auto simp: sieve_step_def intro: gen_step_work filter_step_work main_step_work)

section \<open>The program\<close>

fun sieve_run :: "int \<Rightarrow> thread list \<Rightarrow> pipeline \<Rightarrow> pipeline option" where
  "sieve_run limit [] s = Some s"
| "sieve_run limit (t # ts) s = (case sieve_step limit t s of None \<Rightarrow> None | Some s' \<Rightarrow> sieve_run limit ts s')"

lemma sieve_run_reach: "sieve_reach limit s \<Longrightarrow> sieve_run limit ts s = Some s' \<Longrightarrow> sieve_reach limit s'"
  by (induction ts arbitrary: s) (auto split: option.splits intro: sieve_reach.step)

lemma all_done_printed: "pipe_ok limit s \<Longrightarrow> all_done s \<Longrightarrow> printed s = filter is_prime [2..limit]"
  unfolding pipe_ok_def all_done_def sieve_upto [symmetric] by (metis append_Nil2 sieve.simps(1))

lemma primes_upto_LIMIT: "length (sieve [2..LIMIT]) = 100"
  by code_simp

lemma stages_fit:
  assumes "pipe_ok LIMIT s"
  shows "Suc (length (filters s)) \<le> MAXSTAGE"
proof -
  have "length (filters s) = length (printed s)" using assms by (simp add: pipe_ok_def)
  also have "\<dots> \<le> length (sieve [2..LIMIT])"
    using prefix_length_le [OF printed_prefix [OF assms]] by (simp add: sieve_upto)
  finally show ?thesis by (simp add: primes_upto_LIMIT MAXSTAGE_def)
qed

text \<open>
  C15. The concurrent prime sieve, under every interleaving of its threads: what the main thread
  has printed is a prefix of the primes up to the limit in increasing order; every step lowers
  a natural number, so no run is infinite; a state in which no thread can move is one in which
  the generator, every filter and the main loop have ended by the cascade of closes (there is
  no deadlock) and exactly the primes have been printed; and with the program's limit of 541
  the thread and channel arrays of \<open>MAXSTAGE\<close> entries are never overrun.
\<close>

theorem sieve_prints_primes:
  assumes "sieve_reach limit s"
  shows "prefix (printed s) (filter is_prime [2..limit]) \<and>
    (\<forall>t s'. sieve_step limit t s = Some s' \<longrightarrow> work limit s' < work limit s) \<and>
    ((\<forall>t. sieve_step limit t s = None) \<longrightarrow> all_done s \<and> printed s = filter is_prime [2..limit]) \<and>
    (limit = LIMIT \<longrightarrow> Suc (length (filters s)) \<le> MAXSTAGE)"
proof -
  note ok = sieve_reach_ok [OF assms]
  show ?thesis
    using printed_prefix [OF ok] sieve_step_work [OF ok] stuck_all_done [OF ok] all_done_printed [OF ok]
      stages_fit ok by auto
qed

text \<open>The run of the program for the limit 3.\<close>

definition sieve_demo :: "pipeline" where
  "sieve_demo = the (sieve_run 3
     [Gen, Main_th, Gen, Filter 0, Gen, Filter 0, Main_th, Filter 0, Filter 0, Filter 1, Filter 1, Main_th]
     start_pipeline)"

lemma sieve_demo_eq: "sieve_run 3
    [Gen, Main_th, Gen, Filter 0, Gen, Filter 0, Main_th, Filter 0, Filter 0, Filter 1, Filter 1, Main_th]
    start_pipeline = Some sieve_demo \<and>
  sieve_demo = \<lparr>chq = [[], [], []], chclosed = [True, True, True], gen_next = 4, gen_done = True,
    filters = [\<lparr>fprime = 2, fpc = V_done\<rparr>, \<lparr>fprime = 3, fpc = V_done\<rparr>], printed = [2, 3], main_done = True\<rparr>"
  by (simp add: sieve_demo_def sieve_step_def gen_step_def filter_step_def sieve_main_step_def start_pipeline_def
      CAP_def)

lemma sieve_demo_stuck: "sieve_step 3 t sieve_demo = None"
  by (cases t)
    (auto simp: sieve_demo_eq sieve_step_def gen_step_def filter_step_def sieve_main_step_def less_Suc_eq nth_Cons
      split: nat.splits)

theorem sieve_prints_primes_witness:
  "sieve_reach 3 sieve_demo \<and> (\<forall>t. sieve_step 3 t sieve_demo = None) \<and> all_done sieve_demo \<and>
   [2, 3] = filter is_prime [2..3]"
proof -
  have r: "sieve_reach 3 sieve_demo"
    using sieve_run_reach [OF sieve_reach.start] sieve_demo_eq by blast
  have "printed sieve_demo = [2, 3]" by (simp add: sieve_demo_eq)
  then show ?thesis using r sieve_prints_primes [OF r] sieve_demo_stuck by metis
qed

end
