(* ===== verification/Spec2Isabelle.thy ===== *)
theory Spec2Isabelle
  imports Ring_Conc_Props Ring_Stale Chan_Lock Chan_Close Chan_Rendezvous Select_Order Park
    Dp_Deadlock Dp_Hang Dp_Parse Dp_Link Snake Sieve
begin

text \<open>
  \<^bold>\<open>A verification of libchan\<close>, a C library of Go-style channels, and of four of its example
  programs. File names below are relative to the source directory.

  \<^bold>\<open>The program.\<close> A channel (\<open>struct chan\<close> in \<open>src/libchan_internal.h\<close>) has a lock-free ring of
  elements (\<open>src/ring_lf.c\<close>), a mutex, two queues of parked threads and two counters that tell the
  lock-free paths whether somebody is parked. \<open>chan_send\<close> and \<open>chan_recv\<close> first try the ring
  without the mutex; if that fails they take the mutex, help parked threads of the other
  side, and park themselves. An unbuffered channel hands elements over from buffer to buffer
  under the mutex. \<open>chan_select\<close> locks all its channels in the order of their addresses, executes a
  ready case or parks one stub per case. \<open>chan_close\<close> serves and wakes everybody. The example
  programs are clients of these calls.

  \<^bold>\<open>The theories.\<close>
  \<^item> \<open>Chan_Prelude\<close>: machine types, byte arrays and \<open>memcpy\<close>, generic lemmas on words and lists.
    \<open>Fifo_Spec\<close>: the contract of a bounded FIFO queue, the locale \<open>bounded_fifo\<close>; its providers are the
    plain ring (\<open>lf\<close>), the cursor-cached ring (\<open>sp\<close>), a channel (\<open>ch\<close>) and the queues of the
    data-plane models (\<open>lk\<close>).
  \<^item> \<open>Ring_Lf\<close>, \<open>Ring_Queue\<close>, \<open>Ring_Spsc\<close>, \<open>Ring_Init\<close>, \<open>Ring_Stale\<close>: \<open>src/ring_lf.c\<close> and the \<open>ring_spsc\<close>
    functions of \<open>src/libchan_internal.h\<close>, each C function one definition on 32-bit cursors and a
    byte array, run by one thread. They refine a FIFO queue across wrap-around of the
    cursors; bulk operations round-trip; creation rounds, truncates and wraps as the C
    arithmetic does.
  \<^item> \<open>Ring_Conc\<close>, \<open>Ring_Conc_Props\<close>: the same functions for any number of threads, one shared access
    per step (\<open>ring_tstep\<close>). Shown: elements leave in the order in which they were
    reserved, none lost, duplicated or torn; the slots written and read at the same time are
    disjoint; a reservation is always committed by somebody; what an "empty" or "full" answer
    means; one undisturbed thread computes the functions of \<open>Ring_Lf\<close>.
  \<^item> \<open>Chan_Types\<close>, \<open>Waitq\<close>, \<open>Chan_Ops\<close>: structures as records, pointers as addresses into maps, the
    intrusive wait queues on a heap (the relation \<open>wq\<close> ties them to lists), helper functions of
    \<open>src/libchan_internal.h\<close> and the life cycle of \<open>src/chan_core.c\<close>.
  \<^item> \<open>Chan_Send\<close>, \<open>Chan_Recv\<close>, \<open>Chan_Select\<close>, \<open>Chan_Sys\<close>: \<open>chan_send_impl\<close>, \<open>chan_recv_impl\<close>,
    \<open>chan_select_impl\<close> and \<open>chan_close\<close> as step machines on the shared state (\<open>chan_send_step\<close> and its
    siblings; one lock-free access, or one stretch of a critical section, per step), the bulk
    calls, and the threads of a system (\<open>sys_step\<close>). A step that needs a mutex held by
    another thread is disabled, as is a parked thread; \<open>expire\<close> says that a timeout has run out.
  \<^item> \<open>Chan_Seq\<close>: the calls run to their end on a channel nobody else uses refine the FIFO queue and
    give the documented results in every state. \<open>Chan_Lock\<close>: in every interleaving of all
    operations a mutex is held exactly inside the critical sections. \<open>Chan_Close\<close>: closing with
    any number of parked threads. \<open>Chan_Rendezvous\<close>: unbuffered channels serve parked senders in
    order. \<open>Select_Order\<close>: the lock order of select. \<open>Chan_Races\<close>: schedules, evaluated
    step by step, in which the library loses an element or a wake-up.
  \<^item> \<open>Park_Spec\<close>, \<open>Park\<close>: both backends of \<open>src/park.c\<close> as step machines of the waiting and the waking
    thread, which provide the locale \<open>parking\<close> (\<open>futex\<close>, \<open>pthread\<close>): no wake-up is lost. The channel
    theories use a park as the Boolean that this contract is about.
  \<^item> \<open>Dp_Types\<close>, \<open>Dp_Stats\<close>, \<open>Dp_Net\<close>: types, options, statistics and threads of the data-plane
    self-tests, with the network of channels as an argument. \<open>Dp_Inv\<close>, \<open>Dp_Verdict\<close>, \<open>Dp_Latency\<close>,
    \<open>Dp_Steps\<close>: the locale \<open>dp_network\<close> (every path has a route that the handlers follow) and what follows
    from it once for both programs: packets stay on route and in order, the counters are
    exact, a run that is not cut short succeeds. \<open>Dp_Spsc\<close> (\<open>examples/dplane_pipeline.c\<close>, interpretation
    \<open>spsc\<close>) and \<open>Dp_Mpsc\<close> (\<open>examples/dplane_pipeline_mpsc.c\<close>, interpretation \<open>mpsc\<close>) give the programs'
    channels, handlers and nodes. \<open>Dp_Deadlock\<close> and \<open>Dp_Hang\<close>: both can deadlock. \<open>Dp_Parse\<close>: option
    parsers and the verdict on a path. \<open>Dp_Link\<close>: the queues of the models answer as the
    channels of the library do.
  \<^item> \<open>Sieve\<close> (\<open>examples/sieve_primes.c\<close>): under every interleaving the program prints exactly the primes
    and ends. \<open>Snake\<close> (\<open>examples/snake_chan.c\<close>): key decoding, rules and frame of the game.

  \<^bold>\<open>Interleaving and memory.\<close> Steps of different threads interleave in any order on one shared
  state, that is, sequentially consistently; the memory orders of the C atomics are not
  modelled. A weak compare-and-exchange may fail spuriously. The scheduler, the clock, the
  allocator, \<open>rand\<close> and the kernel's futex calls are arguments of the definitions.

  \<^bold>\<open>Loops and bounds.\<close> Loops over data are recursive functions with termination proofs; a walk along
  the pointers of a wait queue is a partial function in \<open>option\<close>, shown to be defined on every
  well-formed queue. A loop that waits for another thread is a step that stays enabled or disabled in place, so no fuel is
  needed; in the functions that run a ring operation alone, a wait that nobody can end is the
  value \<open>None\<close>, and the refinement theorems show that it does not occur. \<open>runs\<close> follows one thread
  for as many steps as it takes; that the calls reach their end is part of the theorems.
  The doubling loop of \<open>latency_grow_send\<close> is a partial function in \<open>option\<close>, shown to be defined
  for every argument. \<open>LIBCHAN_SPIN_LIMIT\<close> is a parameter.

  \<^bold>\<open>Not modelled.\<close> Memory orders and \<open>chan_spin_hint\<close> (\<open>src/util.c\<close>), which has no effect on the state;
  \<open>src/ring_buffer.c\<close> and \<open>src/waitq.c\<close>, which are empty; the destruction of mutexes and condition
  variables; failure of the unchecked allocations of a select with more than 16 cases; of the
  data-plane programs the printed report with its latency percentiles and the usage text; of
  the game the terminal set-up; the eleven small examples, the benchmarks and the tests, which
  print, measure or exercise the modelled operations.
\<close>

end
